(* ===== verification/Nbd_Prelude.thy ===== *)
theory Nbd_Prelude
  imports Main "HOL-Library.Word"
begin

unbundle bit_operations_syntax

text \<open>
  Shared vocabulary of the development: the C integer widths the daemon uses, the
  error numbers and protocol numbers it returns, bytes and pages, and the generic facts on
  lists, words and stateful maps that the component theories rest on.

  Unsigned C integers that are only counted or indexed with are natural numbers, and every
  place where the C type could wrap is written out with @u8@, @u16@, @u32@ or @u64@
  below; values whose bits matter (index entries, bitmap words, bytes on the wire) are machine words.
\<close>

section \<open>Collections of facts\<close>

named_theorems width_simps \<open>reductions modulo a C integer width\<close>
named_theorems heap_simps \<open>projections of allocator updates\<close>
named_theorems store_simps \<open>projections of block-store updates\<close>

section \<open>C integer widths\<close>

definition u8 :: "nat \<Rightarrow> nat" where "u8 n = n mod 2 ^ 8"
definition u16 :: "nat \<Rightarrow> nat" where "u16 n = n mod 2 ^ 16"
definition u32 :: "nat \<Rightarrow> nat" where "u32 n = n mod 2 ^ 32"
definition u64 :: "nat \<Rightarrow> nat" where "u64 n = n mod 2 ^ 64"

text \<open>Subtraction in an unsigned type wraps below zero.\<close>

definition sub16 :: "nat \<Rightarrow> nat \<Rightarrow> nat" where "sub16 a b = (a + (2 ^ 16 - b mod 2 ^ 16)) mod 2 ^ 16"
definition sub32 :: "nat \<Rightarrow> nat \<Rightarrow> nat" where "sub32 a b = (a + (2 ^ 32 - b mod 2 ^ 32)) mod 2 ^ 32"
definition sub64 :: "nat \<Rightarrow> nat \<Rightarrow> nat" where "sub64 a b = (a + (2 ^ 64 - b mod 2 ^ 64)) mod 2 ^ 64"

lemma u8_small [width_simps]: "n < 2 ^ 8 \<Longrightarrow> u8 n = n" by (simp add: u8_def)
lemma u16_small [width_simps]: "n < 2 ^ 16 \<Longrightarrow> u16 n = n" by (simp add: u16_def)
lemma u32_small [width_simps]: "n < 2 ^ 32 \<Longrightarrow> u32 n = n" by (simp add: u32_def)
lemma u64_small [width_simps]: "n < 2 ^ 64 \<Longrightarrow> u64 n = n" by (simp add: u64_def)

lemma mod_sub_exact:
  fixes a b m :: nat
  assumes "b \<le> a" "a < m"
  shows "(a + (m - b mod m)) mod m = a - b"
proof -
  from assms have b: "b mod m = b" and "a + (m - b) = (a - b) + m" by auto
  then have "(a + (m - b mod m)) mod m = (a - b + m) mod m" by metis
  also from assms have "\<dots> = a - b"
    by (metis mod_add_self2 mod_less less_imp_diff_less)
  finally show ?thesis .
qed

lemma mod_add_fixed:
  fixes a l m :: nat
  assumes "a = (a + l) mod m" "a < m" "l < m"
  shows "l = 0"
proof (cases "a + l < m")
  case True
  with assms(1) show ?thesis by simp
next
  case False
  then have "(a + l) mod m = a + l - m"
    using assms by (metis add_less_mono le_mod_geq linorder_not_le mod_less less_diff_conv2)
  with assms False show ?thesis by linarith
qed

lemma sub16_exact [width_simps]: "b \<le> a \<Longrightarrow> a < 2 ^ 16 \<Longrightarrow> sub16 a b = a - b"
  unfolding sub16_def by (rule mod_sub_exact)

lemma sub32_exact [width_simps]: "b \<le> a \<Longrightarrow> a < 2 ^ 32 \<Longrightarrow> sub32 a b = a - b"
  unfolding sub32_def by (rule mod_sub_exact)

lemma sub64_exact [width_simps]: "b \<le> a \<Longrightarrow> a < 2 ^ 64 \<Longrightarrow> sub64 a b = a - b"
  unfolding sub64_def by (rule mod_sub_exact)

section \<open>Bytes, pages and error numbers\<close>

type_synonym byte = "8 word"

text \<open>
  The dynamic loader: for a library name, @None@ when dlopen fails, else which symbols dlsym
  finds in it.
\<close>

type_synonym dl = "string \<Rightarrow> (string \<Rightarrow> bool) option"

definition EIO :: nat where "EIO = 5"
definition EINVAL :: nat where "EINVAL = 22"
definition ENOSPC :: nat where "ENOSPC = 28"

lemma errno_distinct [simp]:
  "EIO \<noteq> 0" "EINVAL \<noteq> 0" "ENOSPC \<noteq> 0" "0 \<noteq> EIO" "0 \<noteq> EINVAL" "0 \<noteq> ENOSPC"
  "EIO \<noteq> ENOSPC" "ENOSPC \<noteq> EIO" "EIO \<noteq> EINVAL" "EINVAL \<noteq> EIO" "ENOSPC \<noteq> EINVAL" "EINVAL \<noteq> ENOSPC"
  by (simp_all add: EIO_def EINVAL_def ENOSPC_def)

definition CBLK_SHIFT :: nat where "CBLK_SHIFT = 12"
definition CBLK_SIZE :: nat where "CBLK_SIZE = 2 ^ CBLK_SHIFT"
definition CSLOT_SIZE :: nat where "CSLOT_SIZE = CBLK_SIZE + 256"

lemma CBLK_SIZE_val [simp]: "CBLK_SIZE = 4096"
  by (simp add: CBLK_SIZE_def CBLK_SHIFT_def)

lemma CBLK_SHIFT_pow [simp]: "2 ^ CBLK_SHIFT = (4096::nat)"
  by (simp add: CBLK_SHIFT_def)

definition NBD_CMD_READ :: nat where "NBD_CMD_READ = 0"
definition NBD_CMD_WRITE :: nat where "NBD_CMD_WRITE = 1"
definition NBD_CMD_DISC :: nat where "NBD_CMD_DISC = 2"
definition NBD_CMD_FLUSH :: nat where "NBD_CMD_FLUSH = 3"
definition NBD_CMD_TRIM :: nat where "NBD_CMD_TRIM = 4"

lemma cmd_distinct [simp]:
  "NBD_CMD_READ \<noteq> NBD_CMD_WRITE" "NBD_CMD_WRITE \<noteq> NBD_CMD_READ"
  "NBD_CMD_READ \<noteq> NBD_CMD_TRIM" "NBD_CMD_TRIM \<noteq> NBD_CMD_READ"
  "NBD_CMD_WRITE \<noteq> NBD_CMD_TRIM" "NBD_CMD_TRIM \<noteq> NBD_CMD_WRITE"
  "NBD_CMD_READ \<noteq> NBD_CMD_FLUSH" "NBD_CMD_WRITE \<noteq> NBD_CMD_FLUSH" "NBD_CMD_TRIM \<noteq> NBD_CMD_FLUSH"
  "NBD_CMD_FLUSH \<noteq> NBD_CMD_READ" "NBD_CMD_FLUSH \<noteq> NBD_CMD_WRITE" "NBD_CMD_FLUSH \<noteq> NBD_CMD_TRIM"
  "NBD_CMD_DISC \<noteq> NBD_CMD_READ" "NBD_CMD_DISC \<noteq> NBD_CMD_WRITE" "NBD_CMD_DISC \<noteq> NBD_CMD_TRIM"
  "NBD_CMD_DISC \<noteq> NBD_CMD_FLUSH"
  by (simp_all add: NBD_CMD_READ_def NBD_CMD_WRITE_def NBD_CMD_DISC_def NBD_CMD_FLUSH_def
      NBD_CMD_TRIM_def)

section \<open>Count trailing zeros\<close>

text \<open>GCC's @__builtin_ctzll@: the index of the lowest set bit (of a non-zero word).\<close>

definition ctzll :: "64 word \<Rightarrow> nat" where
  "ctzll x = length (takeWhile (\<lambda>i. \<not> bit x i) [0..<64])"

lemma ctzll_least:
  assumes "x \<noteq> 0"
  shows "ctzll x < 64" and "bit x (ctzll x)" and "\<forall>i < ctzll x. \<not> bit x i"
proof -
  let ?P = "\<lambda>i. \<not> bit x i"
  from assms obtain i where i: "bit x i" by (auto simp: bit_eq_iff)
  then have "i < 64" by (auto dest: bit_imp_le_length)
  with i have "\<exists>y \<in> set [0..<64]. \<not> ?P y" by auto
  then have lt: "ctzll x < length [0..<64]"
    unfolding ctzll_def
    by (metis length_takeWhile_le le_neq_implies_less takeWhile_eq_take take_all order_refl
        takeWhile_eq_all_conv)
  then show "ctzll x < 64" by simp
  have "\<not> ?P ([0..<64] ! ctzll x)"
    unfolding ctzll_def by (rule nth_length_takeWhile) (use lt in \<open>simp add: ctzll_def\<close>)
  with lt show "bit x (ctzll x)" by simp
  show "\<forall>i < ctzll x. \<not> bit x i"
  proof (intro allI impI)
    fix j assume j: "j < ctzll x"
    then have "takeWhile ?P [0..<64] ! j \<in> set (takeWhile ?P [0..<64])"
      unfolding ctzll_def by (rule nth_mem)
    then have "?P (takeWhile ?P [0..<64] ! j)" by (auto dest: set_takeWhileD)
    moreover from j lt have "takeWhile ?P [0..<64] ! j = j"
      by (simp add: ctzll_def takeWhile_nth)
    ultimately show "\<not> bit x j" by simp
  qed
qed

section \<open>Threading a state through a list\<close>

text \<open>A C loop that updates each element of an array in place and a shared state besides.\<close>

fun map_state :: "('a \<Rightarrow> 's \<Rightarrow> 'b \<times> 's) \<Rightarrow> 'a list \<Rightarrow> 's \<Rightarrow> 'b list \<times> 's" where
  "map_state f [] s = ([], s)"
| "map_state f (x # xs) s =
     (let (y, s1) = f x s; (ys, s2) = map_state f xs s1 in (y # ys, s2))"

lemma map_state_Cons:
  "fst (map_state f (x # xs) s) = fst (f x s) # fst (map_state f xs (snd (f x s)))"
  "snd (map_state f (x # xs) s) = snd (map_state f xs (snd (f x s)))"
  by (simp_all add: Let_def case_prod_unfold)

lemma length_map_state [simp]: "length (fst (map_state f xs s)) = length xs"
  by (induction xs arbitrary: s) (simp_all add: map_state_Cons del: map_state.simps(2))

text \<open>An invariant of the state, with a postcondition for each element.\<close>

lemma map_state_invariant:
  assumes "I s" and "\<And>x s. x \<in> set xs \<Longrightarrow> I s \<Longrightarrow> I (snd (f x s)) \<and> Q x (fst (f x s))"
  shows "I (snd (map_state f xs s)) \<and> list_all2 Q xs (fst (map_state f xs s))"
  using assms
proof (induction xs arbitrary: s)
  case Nil
  then show ?case by simp
next
  case (Cons x xs)
  from Cons.prems have "I (snd (f x s)) \<and> Q x (fst (f x s))" by simp
  moreover from this have "I (snd (map_state f xs (snd (f x s)))) \<and>
      list_all2 Q xs (fst (map_state f xs (snd (f x s))))"
    using Cons.prems(2) by (intro Cons.IH) auto
  ultimately show ?case by (simp add: map_state_Cons del: map_state.simps(2))
qed

lemma concat_map_Nil [simp]: "concat (map (\<lambda>_. []) xs) = []"
  by (induction xs) simp_all

lemma list_all2_right:
  assumes "list_all2 P xs ys" "y \<in> set ys"
  obtains x where "x \<in> set xs" "P x y"
  using assms by (metis in_set_conv_nth list_all2_conv_all_nth)

text \<open>
  A phase over an array of operations that share a state. @h@ gives what an element owns
  before its step and @h'@ what it owns after, in a state assertion @I@ over everything
  that is owned; what is known of an element survives the steps of the others because it
  is kept by the relation @E@ that every step satisfies.
\<close>

lemma map_state_phase:
  fixes I :: "'r list \<Rightarrow> 's \<Rightarrow> bool"
  assumes I: "I (pre @ concat (map h xs)) s" and P: "\<And>x. x \<in> set xs \<Longrightarrow> P x s"
    and step: "\<And>x L1 L2 s. x \<in> set xs \<Longrightarrow> I (L1 @ h x @ L2) s \<Longrightarrow> P x s \<Longrightarrow>
      I (L1 @ h' (fst (f x s)) @ L2) (snd (f x s)) \<and> E s (snd (f x s)) \<and> Q x (fst (f x s)) (snd (f x s))"
    and P_mono: "\<And>x s s'. P x s \<Longrightarrow> E s s' \<Longrightarrow> P x s'"
    and Q_mono: "\<And>x y s s'. Q x y s \<Longrightarrow> E s s' \<Longrightarrow> Q x y s'"
    and E: "\<And>s. E s s" "\<And>s s' s''. E s s' \<Longrightarrow> E s' s'' \<Longrightarrow> E s s''"
  shows "I (pre @ concat (map h' (fst (map_state f xs s)))) (snd (map_state f xs s)) \<and>
    E s (snd (map_state f xs s)) \<and>
    list_all2 (\<lambda>x y. Q x y (snd (map_state f xs s))) xs (fst (map_state f xs s))"
  using I P step
proof (induction xs arbitrary: s pre)
  case Nil
  then show ?case using E(1) by simp
next
  case (Cons x xs)
  let ?y = "fst (f x s)" and ?s = "snd (f x s)"
  from Cons.prems have "I (pre @ h' ?y @ concat (map h xs)) ?s \<and> E s ?s \<and> Q x ?y ?s"
    by (intro Cons.prems(3)) auto
  then have 1: "I ((pre @ h' ?y) @ concat (map h xs)) ?s" "E s ?s" "Q x ?y ?s" by auto
  have "I ((pre @ h' ?y) @ concat (map h' (fst (map_state f xs ?s)))) (snd (map_state f xs ?s)) \<and>
    E ?s (snd (map_state f xs ?s)) \<and>
    list_all2 (\<lambda>x y. Q x y (snd (map_state f xs ?s))) xs (fst (map_state f xs ?s))"
  proof (rule Cons.IH [OF 1(1)])
    show "P x' ?s" if "x' \<in> set xs" for x'
      using P_mono [OF _ 1(2)] Cons.prems(2) that by simp
  qed (use Cons.prems(3) in auto)
  then show ?case using 1 E(2) Q_mono by (auto simp: map_state_Cons simp del: map_state.simps(2))
qed

section \<open>Rows of a flat array\<close>

lemma row_index_inj:
  fixes i j w v n :: nat
  assumes "w < n" "v < n"
  shows "i * n + w = j * n + v \<longleftrightarrow> i = j \<and> w = v"
proof
  assume eq: "i * n + w = j * n + v"
  then have "(i * n + w) div n = (j * n + v) div n" and "(i * n + w) mod n = (j * n + v) mod n"
    by simp_all
  with assms show "i = j \<and> w = v" by simp
qed simp

lemma row_index_less:
  fixes i w n m :: nat
  assumes "i < m" "w < n"
  shows "i * n + w < m * n"
proof -
  from assms(2) have "i * n + w < Suc i * n" by simp
  also from assms(1) have "\<dots> \<le> m * n" by (intro mult_le_mono1) simp
  finally show ?thesis .
qed

end
