(* ===== verification/Extent_Allocator.thy ===== *)
theory Extent_Allocator
  imports Nbd_Prelude
begin

unbundle bit_operations_syntax

text \<open>
  The slab allocator over the VRAM heap (the section @Extent allocator@ of nbd-vram.c):
  the extent descriptors with their intrusive doubly linked lists, the slot bitmaps, and
  @lst_push@, @lst_remove@, @ext_init@, @ext_take@, @slot_alloc@, @slot_free@, with the
  part of @store_init@ that builds the free list. The arrays are lists, the flat bitmap
  array stays flat (row @ei@ starts at word @ei * EXT_BMWORDS@), and the pointer to a
  list head that the C functions take is a @headref@. The compile-time constant
  EXTENT_SHIFT is a field of the state, so that every statement holds for each value the
  installer offers (14 for 16 KiB up to the default 20 for 1 MiB).

  @slot_alloc@ and @slot_free@ run under g_alloc_mu from start to end in the code, so each
  is one atomic function here.
\<close>

section \<open>Data\<close>

definition EXT_NONE :: nat where "EXT_NONE = 0xFFFFFFFF"
definition SLOT_NONE :: nat where "SLOT_NONE = 0xFFFFFFFF"
definition ALLOC_GRAIN :: nat where "ALLOC_GRAIN = 64"
definition NCLASS :: nat where "NCLASS = CBLK_SIZE div ALLOC_GRAIN"
definition NBINS :: nat where "NBINS = 4"

record extent =
  e_next :: nat
  e_prev :: nat
  e_nfree :: nat
  e_nslots :: nat
  e_cls :: nat
  e_used :: bool
  e_hint :: nat

record heap =
  ext_shift :: nat
  g_ext :: "extent list"
  g_extbm :: "64 word list"
  g_n_extents :: nat
  g_extents_used :: nat
  g_extents_peak :: nat
  g_class_head :: "nat list"
  g_free_head :: nat
  g_slot_bytes :: nat

definition EXTENT_SIZE :: "heap \<Rightarrow> nat" where "EXTENT_SIZE h = 2 ^ ext_shift h"
definition EXT_GRAINS :: "heap \<Rightarrow> nat" where "EXT_GRAINS h = EXTENT_SIZE h div ALLOC_GRAIN"
definition EXT_BMWORDS :: "heap \<Rightarrow> nat" where "EXT_BMWORDS h = EXT_GRAINS h div 64"

text \<open>@&g_class_head[c]@ or @&g_free_head@.\<close>

datatype headref = ClassHead nat | FreeHead

fun get_head :: "headref \<Rightarrow> heap \<Rightarrow> nat" where
  "get_head (ClassHead c) h = g_class_head h ! c"
| "get_head FreeHead h = g_free_head h"

fun set_head :: "headref \<Rightarrow> nat \<Rightarrow> heap \<Rightarrow> heap" where
  "set_head (ClassHead c) e h = h\<lparr>g_class_head := (g_class_head h)[c := e]\<rparr>"
| "set_head FreeHead e h = h\<lparr>g_free_head := e\<rparr>"

text \<open>Assignment to fields of @g_ext[e]@ and to word @w@ of the bitmap row of extent @ei@.\<close>

definition upd_ext :: "nat \<Rightarrow> (extent \<Rightarrow> extent) \<Rightarrow> heap \<Rightarrow> heap" where
  "upd_ext e f h = h\<lparr>g_ext := (g_ext h)[e := f (g_ext h ! e)]\<rparr>"

definition bm_word :: "heap \<Rightarrow> nat \<Rightarrow> nat \<Rightarrow> 64 word" where
  "bm_word h ei w = g_extbm h ! (ei * EXT_BMWORDS h + w)"

definition set_bm :: "nat \<Rightarrow> nat \<Rightarrow> 64 word \<Rightarrow> heap \<Rightarrow> heap" where
  "set_bm ei w v h = h\<lparr>g_extbm := (g_extbm h)[ei * EXT_BMWORDS h + w := v]\<rparr>"

section \<open>The intrusive lists\<close>

definition lst_push :: "headref \<Rightarrow> nat \<Rightarrow> heap \<Rightarrow> heap" where
  "lst_push hr e h =
     (let h1 = upd_ext e (\<lambda>x. x\<lparr>e_prev := EXT_NONE\<rparr>) h;
          h2 = upd_ext e (\<lambda>x. x\<lparr>e_next := get_head hr h1\<rparr>) h1;
          h3 = (if get_head hr h2 \<noteq> EXT_NONE
                then upd_ext (get_head hr h2) (\<lambda>x. x\<lparr>e_prev := e\<rparr>) h2 else h2)
      in set_head hr e h3)"

definition lst_remove :: "headref \<Rightarrow> nat \<Rightarrow> heap \<Rightarrow> heap" where
  "lst_remove hr e h =
     (let h1 = (if e_prev (g_ext h ! e) \<noteq> EXT_NONE
                then upd_ext (e_prev (g_ext h ! e)) (\<lambda>x. x\<lparr>e_next := e_next (g_ext h ! e)\<rparr>) h
                else set_head hr (e_next (g_ext h ! e)) h);
          h2 = (if e_next (g_ext h1 ! e) \<noteq> EXT_NONE
                then upd_ext (e_next (g_ext h1 ! e)) (\<lambda>x. x\<lparr>e_prev := e_prev (g_ext h1 ! e)\<rparr>) h1
                else h1)
      in upd_ext e (\<lambda>x. x\<lparr>e_next := EXT_NONE, e_prev := EXT_NONE\<rparr>) h2)"

section \<open>Extents and slots\<close>

text \<open>Fullness bucket for the statistics line; the C division by @nslots@ is on a used extent.\<close>

definition ext_bin :: "extent \<Rightarrow> nat" where
  "ext_bin e =
     (let q = u32 (sub32 (e_nslots e) (e_nfree e) * NBINS) div e_nslots e;
          q' = (if q \<ge> NBINS then NBINS - 1 else q)
      in NBINS - 1 - q')"

definition ext_nslots :: "heap \<Rightarrow> nat \<Rightarrow> nat" where
  "ext_nslots h c = EXTENT_SIZE h div ((c + 1) * ALLOC_GRAIN)"

text \<open>The bitmap row @ext_init@ leaves: clear for the slots, set for the unusable tail.\<close>

definition init_row_word :: "nat \<Rightarrow> nat \<Rightarrow> 64 word" where
  "init_row_word nslots w =
     (let full = nslots div 64; rem = nslots mod 64
      in if rem \<noteq> 0 \<and> w = full then push_bit rem (- 1)
         else if full + (if rem \<noteq> 0 then 1 else 0) \<le> w then - 1
         else 0)"

definition set_row :: "nat \<Rightarrow> (nat \<Rightarrow> 64 word) \<Rightarrow> heap \<Rightarrow> heap" where
  "set_row ei row h = fold (\<lambda>w. set_bm ei w (row w)) [0..<EXT_BMWORDS h] h"

definition ext_init :: "nat \<Rightarrow> nat \<Rightarrow> heap \<Rightarrow> heap" where
  "ext_init ei c h =
     (let h1 = upd_ext ei (\<lambda>e. e\<lparr>e_cls := u8 c, e_used := True,
                  e_nslots := u16 (ext_nslots h c), e_nfree := u16 (ext_nslots h c),
                  e_hint := 0\<rparr>) h
      in set_row ei (init_row_word (e_nslots (g_ext h1 ! ei))) h1)"

definition scan_word :: "heap \<Rightarrow> nat \<Rightarrow> nat \<Rightarrow> nat" where
  "scan_word h ei i =
     (let w = u32 (e_hint (g_ext h ! ei) + i)
      in if w \<ge> EXT_BMWORDS h then w - EXT_BMWORDS h else w)"

definition ext_take :: "nat \<Rightarrow> heap \<Rightarrow> nat \<times> heap" where
  "ext_take ei h =
     (case List.find (\<lambda>i. bm_word h ei (scan_word h ei i) \<noteq> - 1) [0..<EXT_BMWORDS h] of
        None \<Rightarrow> (SLOT_NONE, h)
      | Some i \<Rightarrow>
          (let w = scan_word h ei i;
               b = ctzll (NOT (bm_word h ei w));
               h1 = set_bm ei w (bm_word h ei w OR push_bit b 1) h;
               h2 = upd_ext ei (\<lambda>e. e\<lparr>e_hint := u16 w, e_nfree := sub16 (e_nfree e) 1\<rparr>) h1;
               h3 = (if e_nfree (g_ext h2 ! ei) = 0
                     then lst_remove (ClassHead (e_cls (g_ext h2 ! ei))) ei h2 else h2);
               slot = u32 (w * 64 + b)
           in (u32 (ei * EXT_GRAINS h + slot * (e_cls (g_ext h3 ! ei) + 1)), h3)))"

text \<open>
  The part of @slot_alloc@ that hands a fresh extent to a class that has no
  partial extent, and the free list has one to give.
\<close>

definition ext_commit :: "nat \<Rightarrow> heap \<Rightarrow> nat \<times> heap" where
  "ext_commit c h =
     (let ei = g_free_head h;
          k1 = lst_remove FreeHead ei h;
          k2 = ext_init ei c k1;
          k3 = lst_push (ClassHead c) ei k2;
          k4 = k3\<lparr>g_extents_used := u32 (g_extents_used k3 + 1)\<rparr>;
          k5 = (if g_extents_used k4 > g_extents_peak k4
                then k4\<lparr>g_extents_peak := g_extents_used k4\<rparr> else k4)
      in (ei, k5))"

definition slot_alloc :: "nat \<Rightarrow> heap \<Rightarrow> nat \<times> nat \<times> heap" where
  "slot_alloc nbytes h =
     (let c = sub32 nbytes 1 div ALLOC_GRAIN;
          ei0 = g_class_head h ! c;
          (ei1, h1) =
            (if ei0 = EXT_NONE \<and> g_free_head h \<noteq> EXT_NONE
             then ext_commit c h
             else (ei0, h));
          ei2 = (if ei1 = EXT_NONE
                 then (case List.find (\<lambda>d. g_class_head h1 ! d \<noteq> EXT_NONE) [c + 1..<NCLASS] of
                         None \<Rightarrow> EXT_NONE | Some d \<Rightarrow> g_class_head h1 ! d)
                 else ei1)
      in if ei2 \<noteq> EXT_NONE
         then (let (grain, h2) = ext_take ei2 h1
               in if grain \<noteq> SLOT_NONE
                  then (let sb = u32 ((e_cls (g_ext h2 ! ei2) + 1) * ALLOC_GRAIN)
                        in (grain, sb, h2\<lparr>g_slot_bytes := u64 (g_slot_bytes h2 + sb)\<rparr>))
                  else (SLOT_NONE, 0, h2))
         else (SLOT_NONE, 0, h1))"

text \<open>
  @slot_free@ in its two halves: the bit is cleared, a full extent rejoins its class list
  and the hint moves back; an extent that is now empty returns to the free list.
\<close>

definition free_bit :: "nat \<Rightarrow> nat \<Rightarrow> nat \<Rightarrow> heap \<Rightarrow> heap" where
  "free_bit ei slot c h =
     (let h1 = set_bm ei (slot div 64)
                 (bm_word h ei (slot div 64) AND NOT (push_bit (slot mod 64) 1)) h;
          h2 = (if e_nfree (g_ext h1 ! ei) = 0 then lst_push (ClassHead c) ei h1 else h1);
          h3 = upd_ext ei (\<lambda>e. e\<lparr>e_nfree := u16 (e_nfree e + 1)\<rparr>) h2
      in if slot div 64 < e_hint (g_ext h3 ! ei)
         then upd_ext ei (\<lambda>e. e\<lparr>e_hint := u16 (slot div 64)\<rparr>) h3 else h3)"

definition ext_recycle :: "nat \<Rightarrow> nat \<Rightarrow> heap \<Rightarrow> heap" where
  "ext_recycle ei c h =
     (let k1 = lst_remove (ClassHead c) ei h;
          k2 = upd_ext ei (\<lambda>e. e\<lparr>e_used := False\<rparr>) k1;
          k3 = lst_push FreeHead ei k2
      in k3\<lparr>g_extents_used := sub32 (g_extents_used k3) 1\<rparr>)"

definition slot_free :: "nat \<Rightarrow> heap \<Rightarrow> nat \<times> heap" where
  "slot_free grain h =
     (let ei = grain div EXT_GRAINS h;
          c = e_cls (g_ext h ! ei);
          slot = (grain mod EXT_GRAINS h) div (c + 1);
          sz = u32 ((c + 1) * ALLOC_GRAIN);
          h4 = free_bit ei slot c h;
          h5 = (if e_nfree (g_ext h4 ! ei) = e_nslots (g_ext h4 ! ei)
                then ext_recycle ei c h4 else h4)
      in (sz, h5\<lparr>g_slot_bytes := sub64 (g_slot_bytes h5) sz\<rparr>))"

definition heap_committed :: "heap \<Rightarrow> nat" where
  "heap_committed h = u64 (g_extents_used h * EXTENT_SIZE h)"

section \<open>Initialisation\<close>

definition zero_extent :: extent where
  "zero_extent = \<lparr>e_next = 0, e_prev = 0, e_nfree = 0, e_nslots = 0, e_cls = 0,
                  e_used = False, e_hint = 0\<rparr>"

text \<open>
  The allocator half of @store_init@, from the VRAM size obtained: @None@ is the
  \<open>smaller than one extent\<close> failure. The extents are pushed in descending order.
\<close>

definition heap_blank :: "nat \<Rightarrow> nat \<Rightarrow> heap" where
  "heap_blank sh n =
     \<lparr>ext_shift = sh, g_ext = replicate n zero_extent,
      g_extbm = replicate (n * (2 ^ sh div 64 div 64)) 0, g_n_extents = n,
      g_extents_used = 0, g_extents_peak = 0, g_class_head = replicate NCLASS EXT_NONE,
      g_free_head = EXT_NONE, g_slot_bytes = 0\<rparr>"

definition heap_push_free :: "nat \<Rightarrow> heap \<Rightarrow> heap" where
  "heap_push_free i h =
     lst_push FreeHead i (upd_ext i (\<lambda>x. x\<lparr>e_next := EXT_NONE, e_prev := EXT_NONE\<rparr>) h)"

definition heap_init :: "nat \<Rightarrow> nat \<Rightarrow> heap option" where
  "heap_init sh vram_size =
     (let n = u32 (vram_size div 2 ^ sh)
      in if n = 0 then None else Some (fold heap_push_free (rev [0..<n]) (heap_blank sh n)))"

end
