(* ===== verification/Allocator_Lists.thy ===== *)
theory Allocator_Lists
  imports Extent_Allocator
begin

text \<open>
  The intrusive doubly linked lists of the extent allocator: a segment predicate over the
  @next@/@prev@ fields of the descriptor array, and the statement that @lst_push@ and
  @lst_remove@ act on every list of the heap as @Cons@ and @remove1@ on the one list named
  by the head pointer and leave all the others alone.
\<close>

section \<open>Projections of the primitive updates\<close>

lemma set_head_simps [simp, heap_simps]:
  "ext_shift (set_head hr e h) = ext_shift h" "g_ext (set_head hr e h) = g_ext h"
  "g_extbm (set_head hr e h) = g_extbm h" "g_n_extents (set_head hr e h) = g_n_extents h"
  "g_extents_used (set_head hr e h) = g_extents_used h"
  "g_extents_peak (set_head hr e h) = g_extents_peak h"
  "g_slot_bytes (set_head hr e h) = g_slot_bytes h"
  "length (g_class_head (set_head hr e h)) = length (g_class_head h)"
  by (cases hr; simp)+

lemma upd_ext_simps [simp, heap_simps]:
  "ext_shift (upd_ext e f h) = ext_shift h" "g_extbm (upd_ext e f h) = g_extbm h"
  "g_n_extents (upd_ext e f h) = g_n_extents h" "g_extents_used (upd_ext e f h) = g_extents_used h"
  "g_extents_peak (upd_ext e f h) = g_extents_peak h" "g_slot_bytes (upd_ext e f h) = g_slot_bytes h"
  "g_class_head (upd_ext e f h) = g_class_head h" "g_free_head (upd_ext e f h) = g_free_head h"
  "length (g_ext (upd_ext e f h)) = length (g_ext h)"
  by (simp_all add: upd_ext_def)

lemma set_bm_simps [simp, heap_simps]:
  "ext_shift (set_bm ei w v h) = ext_shift h" "g_ext (set_bm ei w v h) = g_ext h"
  "g_n_extents (set_bm ei w v h) = g_n_extents h"
  "g_extents_used (set_bm ei w v h) = g_extents_used h"
  "g_extents_peak (set_bm ei w v h) = g_extents_peak h" "g_slot_bytes (set_bm ei w v h) = g_slot_bytes h"
  "g_class_head (set_bm ei w v h) = g_class_head h" "g_free_head (set_bm ei w v h) = g_free_head h"
  "length (g_extbm (set_bm ei w v h)) = length (g_extbm h)"
  by (simp_all add: set_bm_def)

lemma get_head_upd [simp, heap_simps]:
  "get_head hr (upd_ext e f h) = get_head hr h" "get_head hr (set_bm ei w v h) = get_head hr h"
  by (cases hr; simp)+

lemma g_ext_upd_ext: "g_ext (upd_ext e f h) = (g_ext h)[e := f (g_ext h ! e)]"
  by (simp add: upd_ext_def)

lemma nth_list_update_mem: "a \<in> set us \<Longrightarrow> u \<notin> set us \<Longrightarrow> g[u := v] ! a = g ! a"
  by (metis nth_list_update_neq)

text \<open>The geometry only depends on the shift.\<close>

lemma geometry_cong:
  assumes "ext_shift h' = ext_shift h"
  shows "EXTENT_SIZE h' = EXTENT_SIZE h" "EXT_GRAINS h' = EXT_GRAINS h"
    "EXT_BMWORDS h' = EXT_BMWORDS h" "ext_nslots h' c = ext_nslots h c"
  using assms by (simp_all add: EXTENT_SIZE_def EXT_GRAINS_def EXT_BMWORDS_def ext_nslots_def)

fun valid_head :: "headref \<Rightarrow> bool" where
  "valid_head (ClassHead c) = (c < NCLASS)"
| "valid_head FreeHead = True"

lemma get_set_head:
  assumes "valid_head hr" "length (g_class_head h) = NCLASS"
  shows "get_head hr' (set_head hr e h) = (if hr' = hr then e else get_head hr' h)"
  using assms by (cases hr; cases hr') (auto simp: nth_list_update)

section \<open>Segments\<close>

fun dlseg :: "extent list \<Rightarrow> nat \<Rightarrow> nat \<Rightarrow> nat list \<Rightarrow> nat \<Rightarrow> bool" where
  "dlseg g p x [] y \<longleftrightarrow> x = y"
| "dlseg g p x (a # as) y \<longleftrightarrow>
     x = a \<and> a < length g \<and> a \<noteq> EXT_NONE \<and> e_prev (g ! a) = p \<and> dlseg g a (e_next (g ! a)) as y"

abbreviation dll :: "extent list \<Rightarrow> nat \<Rightarrow> nat list \<Rightarrow> bool" where
  "dll g x as \<equiv> dlseg g EXT_NONE x as EXT_NONE"

lemma dlseg_append:
  "dlseg g p x (as @ bs) z \<longleftrightarrow> (\<exists>y. dlseg g p x as y \<and> dlseg g (last (p # as)) y bs z)"
  by (induction as arbitrary: p x) auto

lemma dlseg_range: "dlseg g p x as y \<Longrightarrow> a \<in> set as \<Longrightarrow> a < length g \<and> a \<noteq> EXT_NONE"
  by (induction as arbitrary: p x) auto

lemma dlseg_cong:
  assumes "length g' = length g"
    and "\<And>a. a \<in> set as \<Longrightarrow> e_next (g' ! a) = e_next (g ! a) \<and> e_prev (g' ! a) = e_prev (g ! a)"
  shows "dlseg g' p x as y = dlseg g p x as y"
  using assms by (induction as arbitrary: p x) auto

lemma dlseg_unique:
  "dlseg g p x as EXT_NONE \<Longrightarrow> dlseg g q x bs EXT_NONE \<Longrightarrow> as = bs"
proof (induction as arbitrary: p q x bs)
  case Nil
  then show ?case by (cases bs) auto
next
  case (Cons a as)
  then show ?case by (cases bs) auto
qed

lemma dlseg_hd_notin_tl:
  assumes "dlseg g p (e_next (g ! a)) as EXT_NONE"
  shows "a \<notin> set as"
proof
  assume "a \<in> set as"
  then obtain us vs where as: "as = us @ a # vs" by (auto simp: in_set_conv_decomp)
  with assms obtain y where "dlseg g (last (p # us)) y (a # vs) EXT_NONE"
    by (auto simp: dlseg_append)
  then have "dlseg g a (e_next (g ! a)) vs EXT_NONE" by simp
  with assms have "as = vs" by (rule dlseg_unique)
  with as show False by simp
qed

lemma dlseg_distinct: "dlseg g p x as EXT_NONE \<Longrightarrow> distinct as"
  by (induction as arbitrary: p x) (auto dest: dlseg_hd_notin_tl)

lemma dll_empty_iff: "dll g x as \<Longrightarrow> x = EXT_NONE \<longleftrightarrow> as = []"
  by (cases as) auto

lemma dll_head: "dll g x as \<Longrightarrow> x \<noteq> EXT_NONE \<Longrightarrow> x \<in> set as"
  by (cases as) auto

lemma dlseg_set_prev:
  assumes "dlseg g p x (v # vs) y" "v \<notin> set vs"
  shows "dlseg (g[v := (g ! v)\<lparr>e_prev := q\<rparr>]) q x (v # vs) y"
proof -
  from assms have "dlseg (g[v := (g ! v)\<lparr>e_prev := q\<rparr>]) v (e_next (g ! v)) vs y
      = dlseg g v (e_next (g ! v)) vs y"
    by (intro dlseg_cong) (auto simp: nth_list_update)
  with assms show ?thesis by simp
qed

lemma dlseg_set_next:
  assumes "dlseg g p x (us @ [u]) y" "u \<notin> set us"
  shows "dlseg (g[u := (g ! u)\<lparr>e_next := z\<rparr>]) p x (us @ [u]) z"
proof -
  from assms(1) have "dlseg g p x us u" and u: "u < length g" "u \<noteq> EXT_NONE"
      "e_prev (g ! u) = last (p # us)"
    by (auto simp: dlseg_append)
  moreover from assms(2) have "dlseg (g[u := (g ! u)\<lparr>e_next := z\<rparr>]) p x us u = dlseg g p x us u"
    by (intro dlseg_cong) (auto simp: nth_list_update_mem)
  ultimately show ?thesis by (auto simp: dlseg_append)
qed

section \<open>All lists of a heap at once\<close>

text \<open>@L hr@ is the content of the list whose head pointer is @hr@.\<close>

definition linked :: "heap \<Rightarrow> (headref \<Rightarrow> nat list) \<Rightarrow> bool" where
  "linked h L \<longleftrightarrow>
     length (g_class_head h) = NCLASS \<and>
     (\<forall>hr. valid_head hr \<longrightarrow> dll (g_ext h) (get_head hr h) (L hr)) \<and>
     (\<forall>hr hr'. valid_head hr \<longrightarrow> valid_head hr' \<longrightarrow> hr \<noteq> hr' \<longrightarrow> set (L hr) \<inter> set (L hr') = {})"

lemma linked_cong:
  assumes "length (g_ext h') = length (g_ext h)" "length (g_class_head h') = length (g_class_head h)"
    and "\<And>i. e_next (g_ext h' ! i) = e_next (g_ext h ! i) \<and> e_prev (g_ext h' ! i) = e_prev (g_ext h ! i)"
    and "\<And>hr. get_head hr h' = get_head hr h"
  shows "linked h' L = linked h L"
  unfolding linked_def using assms dlseg_cong [of "g_ext h'" "g_ext h"] by simp

lemma linkedD:
  assumes "linked h L" "valid_head hr"
  shows "dll (g_ext h) (get_head hr h) (L hr)" "distinct (L hr)"
  using assms by (auto simp: linked_def dest: dlseg_distinct)

lemma lst_push_link_fields:
  assumes "j \<noteq> e" "j \<noteq> get_head hr h \<or> get_head hr h = EXT_NONE"
  shows "g_ext (lst_push hr e h) ! j = g_ext h ! j"
  using assms by (auto simp: lst_push_def Let_def g_ext_upd_ext nth_list_update_neq)

lemma lst_push_linked:
  assumes lk: "linked h L" and v: "valid_head hr" and e: "e < length (g_ext h)" "e \<noteq> EXT_NONE"
    and fresh: "\<And>hr'. valid_head hr' \<Longrightarrow> e \<notin> set (L hr')"
  shows "linked (lst_push hr e h) (L(hr := e # L hr))"
proof -
  let ?h' = "lst_push hr e h" and ?x = "get_head hr h"
  from lk have len: "length (g_class_head h) = NCLASS"
    and disj: "\<And>hr hr'. valid_head hr \<Longrightarrow> valid_head hr' \<Longrightarrow> hr \<noteq> hr' \<Longrightarrow> set (L hr) \<inter> set (L hr') = {}"
    by (auto simp: linked_def)
  have own: "dll (g_ext h) ?x (L hr)" using lk v by (rule linkedD)
  have heads: "get_head hr' ?h' = (if hr' = hr then e else get_head hr' h)" if "valid_head hr'" for hr'
    using v len by (auto simp: lst_push_def Let_def get_set_head)
  have len': "length (g_ext ?h') = length (g_ext h)" "length (g_class_head ?h') = NCLASS"
    using len by (simp_all add: lst_push_def Let_def)
  have pushed: "dll (g_ext ?h') e (e # L hr)"
  proof (cases "L hr")
    case Nil
    with own have "?x = EXT_NONE" by simp
    with Nil e show ?thesis by (simp add: lst_push_def Let_def g_ext_upd_ext)
  next
    case (Cons v vs)
    with own have x: "?x = v" "v < length (g_ext h)" "v \<noteq> EXT_NONE" by auto
    from Cons fresh [OF v] have ev: "e \<noteq> v" "e \<notin> set vs" by auto
    have vs: "v \<notin> set vs" using dlseg_distinct [OF own] Cons by simp
    let ?g = "(g_ext h)[e := (g_ext h ! e)\<lparr>e_prev := EXT_NONE, e_next := v\<rparr>]"
    from own Cons x ev have "dlseg ?g EXT_NONE v (v # vs) EXT_NONE"
      by (subst dlseg_cong [where g = "g_ext h"]) (auto simp: nth_list_update_mem)
    then have "dlseg (?g[v := (?g ! v)\<lparr>e_prev := e\<rparr>]) e v (v # vs) EXT_NONE"
      using vs by (rule dlseg_set_prev)
    moreover have "g_ext ?h' = ?g[v := (?g ! v)\<lparr>e_prev := e\<rparr>]"
      using x e by (simp add: lst_push_def Let_def g_ext_upd_ext)
    ultimately show ?thesis using Cons e ev x by (simp add: nth_list_update)
  qed
  have others: "dll (g_ext ?h') (get_head hr' h) (L hr')" if w: "valid_head hr'" "hr' \<noteq> hr" for hr'
  proof -
    have "dll (g_ext h) (get_head hr' h) (L hr')" using lk w(1) by (rule linkedD)
    moreover have "g_ext ?h' ! a = g_ext h ! a" if "a \<in> set (L hr')" for a
    proof (rule lst_push_link_fields)
      show "a \<noteq> e" using fresh [OF w(1)] that by auto
      show "a \<noteq> ?x \<or> ?x = EXT_NONE"
        using dll_head [OF own] disj [OF w(1) v w(2)] that by auto
    qed
    ultimately show ?thesis by (subst dlseg_cong [OF len'(1)]) auto
  qed
  show ?thesis
    unfolding linked_def using len' heads pushed others disj fresh v by auto
qed

lemma lst_remove_link_fields:
  assumes "j \<noteq> e" "j \<noteq> e_prev (g_ext h ! e) \<or> e_prev (g_ext h ! e) = EXT_NONE"
    "j \<noteq> e_next (g_ext h ! e) \<or> e_next (g_ext h ! e) = EXT_NONE"
    "e_prev (g_ext h ! e) \<noteq> e"
  shows "g_ext (lst_remove hr e h) ! j = g_ext h ! j"
  using assms by (auto simp: lst_remove_def Let_def g_ext_upd_ext nth_list_update_neq)

lemma unlink_dll:
  assumes d: "dll g x (us @ e # vs)"
  defines "p \<equiv> e_prev (g ! e)" and "n \<equiv> e_next (g ! e)"
  defines "g1 \<equiv> (if p \<noteq> EXT_NONE then g[p := (g ! p)\<lparr>e_next := n\<rparr>] else g)"
  defines "g2 \<equiv> (if n \<noteq> EXT_NONE then g1[n := (g1 ! n)\<lparr>e_prev := p\<rparr>] else g1)"
  shows "dll (g2[e := q]) (if p \<noteq> EXT_NONE then x else n) (us @ vs)"
    and "p = last (EXT_NONE # us)" and "vs = [] \<longrightarrow> n = EXT_NONE" and "vs \<noteq> [] \<longrightarrow> n = hd vs"
proof -
  have dist: "distinct (us @ e # vs)" using d by (rule dlseg_distinct)
  from d have us: "dlseg g EXT_NONE x us e" and p: "p = last (EXT_NONE # us)"
    and vs: "dlseg g e n vs EXT_NONE"
    by (auto simp: dlseg_append p_def n_def)
  show "p = last (EXT_NONE # us)" by (rule p)
  show "vs = [] \<longrightarrow> n = EXT_NONE" and "vs \<noteq> [] \<longrightarrow> n = hd vs"
    using vs by (cases vs; simp)+
  have pu: "p \<noteq> EXT_NONE \<longleftrightarrow> us \<noteq> []" and pin: "us \<noteq> [] \<Longrightarrow> p \<in> set us"
    using p dlseg_range [OF us] by (auto split: if_splits)
  have us1: "dlseg g1 EXT_NONE (if us = [] then n else x) us n"
  proof (cases us rule: rev_cases)
    case Nil
    then show ?thesis by simp
  next
    case (snoc us' u)
    with p pu dist have "p = u" "p \<noteq> EXT_NONE" "u \<notin> set us'" by auto
    with us snoc show ?thesis by (simp add: g1_def dlseg_set_next)
  qed
  have vs1: "dlseg g1 e n vs EXT_NONE"
  proof (cases "us = []")
    case True
    with pu vs show ?thesis by (simp add: g1_def)
  next
    case False
    then have "p \<notin> set vs" using pin dist by auto
    with vs show ?thesis
      by (subst dlseg_cong [where g = g]) (auto simp: g1_def nth_list_update_mem)
  qed
  have seg2: "dlseg g2 EXT_NONE (if us = [] then n else x) us n \<and> dlseg g2 p n vs EXT_NONE"
  proof (cases vs)
    case Nil
    with vs1 us1 show ?thesis by (simp add: g2_def)
  next
    case (Cons v vs')
    with vs1 have n: "n = v" "n \<noteq> EXT_NONE" by auto
    with Cons dist have v: "v \<notin> set us" "v \<notin> set vs'" by auto
    from n have g2: "g2 = g1[v := (g1 ! v)\<lparr>e_prev := p\<rparr>]" by (simp add: g2_def)
    from v(1) have "dlseg g2 EXT_NONE (if us = [] then n else x) us n"
      using us1 unfolding g2 by (subst dlseg_cong [where g = g1]) (simp_all add: nth_list_update_mem)
    moreover from vs1 v(2) have "dlseg g2 p n vs EXT_NONE"
      unfolding g2 Cons by (rule dlseg_set_prev)
    ultimately show ?thesis by simp
  qed
  then have "dlseg g2 EXT_NONE (if us = [] then n else x) (us @ vs) EXT_NONE"
    using p by (auto simp: dlseg_append)
  moreover have "e \<notin> set (us @ vs)" using dist by auto
  ultimately show "dll (g2[e := q]) (if p \<noteq> EXT_NONE then x else n) (us @ vs)"
    using pu by (subst dlseg_cong [where g = g2]) (auto simp: nth_list_update_mem)
qed

lemma lst_remove_linked:
  assumes lk: "linked h L" and v: "valid_head hr" and e: "e \<in> set (L hr)"
  shows "linked (lst_remove hr e h) (L(hr := remove1 e (L hr)))"
proof -
  let ?h' = "lst_remove hr e h" and ?x = "get_head hr h"
  let ?p = "e_prev (g_ext h ! e)" and ?n = "e_next (g_ext h ! e)"
  from lk have len: "length (g_class_head h) = NCLASS"
    and disj: "\<And>hr hr'. valid_head hr \<Longrightarrow> valid_head hr' \<Longrightarrow> hr \<noteq> hr' \<Longrightarrow> set (L hr) \<inter> set (L hr') = {}"
    by (auto simp: linked_def)
  have own: "dll (g_ext h) ?x (L hr)" using lk v by (rule linkedD)
  from e obtain us vs where L: "L hr = us @ e # vs" by (auto simp: in_set_conv_decomp)
  with dlseg_distinct [OF own] have dist: "distinct (us @ e # vs)" by simp
  have rem: "remove1 e (L hr) = us @ vs" using L dist by (simp add: remove1_append)
  note un = unlink_dll [OF own [unfolded L]]
  have pe: "?p \<noteq> e" using un(2) dist own L dlseg_range [OF own, of e] by (auto split: if_splits)
  have heads: "get_head hr' ?h' =
      (if hr' = hr \<and> ?p = EXT_NONE then ?n else get_head hr' h)" for hr'
    using v len by (auto simp: lst_remove_def Let_def get_set_head)
  have len': "length (g_ext ?h') = length (g_ext h)" "length (g_class_head ?h') = NCLASS"
    using len by (simp_all add: lst_remove_def Let_def)
  have "\<exists>q. g_ext ?h' = (let g1 = (if ?p \<noteq> EXT_NONE then (g_ext h)[?p := (g_ext h ! ?p)\<lparr>e_next := ?n\<rparr>] else g_ext h)
      in if ?n \<noteq> EXT_NONE then g1[?n := (g1 ! ?n)\<lparr>e_prev := ?p\<rparr>] else g1)[e := q]"
    using pe by (auto simp: lst_remove_def Let_def g_ext_upd_ext nth_list_update_neq)
  then have removed: "dll (g_ext ?h') (get_head hr ?h') (us @ vs)"
    using un(1) unfolding Let_def heads by auto
  have near: "?p \<noteq> EXT_NONE \<Longrightarrow> ?p \<in> set (L hr)" "?n \<noteq> EXT_NONE \<Longrightarrow> ?n \<in> set (L hr)"
    using un(2-4) L by (auto split: if_splits)
  have others: "dll (g_ext ?h') (get_head hr' h) (L hr')" if w: "valid_head hr'" "hr' \<noteq> hr" for hr'
  proof -
    have "dll (g_ext h) (get_head hr' h) (L hr')" using lk w(1) by (rule linkedD)
    moreover have "g_ext ?h' ! a = g_ext h ! a" if "a \<in> set (L hr')" for a
    proof (rule lst_remove_link_fields [OF _ _ _ pe])
      from disj [OF w(1) v w(2)] that e near
      show "a \<noteq> e" "a \<noteq> ?p \<or> ?p = EXT_NONE" "a \<noteq> ?n \<or> ?n = EXT_NONE" by auto
    qed
    ultimately show ?thesis by (subst dlseg_cong [OF len'(1)]) auto
  qed
  have "set (us @ vs) \<subseteq> set (L hr)" using L by auto
  then show ?thesis
    unfolding linked_def rem using len' removed others disj v heads by (auto; blast)
qed

end
