(* ===== verification/Allocator_Invariant.thy ===== *)
theory Allocator_Invariant
  imports Allocator_Lists
begin

unbundle bit_operations_syntax

text \<open>
  The allocator invariant and the abstraction of a heap to the partial map from grain
  offsets to reserved sizes. The invariant says that the descriptors, the bitmaps, the
  lists and the counters agree; @slot_alloc@ and @slot_free@ are shown, in the next theory,
  to be insertion into and deletion from the map. This theory holds the definitions, the
  arithmetic of grains and slots, and the effect of writing one bitmap bit.
\<close>

section \<open>Definitions\<close>

definition slot_bit :: "heap \<Rightarrow> nat \<Rightarrow> nat \<Rightarrow> bool" where
  "slot_bit h ei s = bit (bm_word h ei (s div 64)) (s mod 64)"

definition free_slots :: "heap \<Rightarrow> nat \<Rightarrow> nat set" where
  "free_slots h ei = {s. s < e_nslots (g_ext h ! ei) \<and> \<not> slot_bit h ei s}"

definition used_slots :: "heap \<Rightarrow> nat \<Rightarrow> nat set" where
  "used_slots h ei = {s. s < e_nslots (g_ext h ! ei) \<and> slot_bit h ei s}"

definition slot_size :: "heap \<Rightarrow> nat \<Rightarrow> nat" where
  "slot_size h ei = (e_cls (g_ext h ! ei) + 1) * ALLOC_GRAIN"

definition shape_ok :: "heap \<Rightarrow> bool" where
  "shape_ok h \<longleftrightarrow>
     12 \<le> ext_shift h \<and> ext_shift h \<le> 20 \<and> length (g_ext h) = g_n_extents h \<and>
     length (g_extbm h) = g_n_extents h * EXT_BMWORDS h \<and>
     length (g_class_head h) = NCLASS \<and> g_n_extents h * EXT_GRAINS h < 2 ^ 30"

definition ext_ok :: "heap \<Rightarrow> nat \<Rightarrow> bool" where
  "ext_ok h ei \<longleftrightarrow>
     (let e = g_ext h ! ei in
      e_used e \<longrightarrow>
        e_cls e < NCLASS \<and> e_nslots e = ext_nslots h (e_cls e) \<and> e_hint e < EXT_BMWORDS h \<and>
        e_nfree e = card (free_slots h ei) \<and>
        (\<forall>s. e_nslots e \<le> s \<longrightarrow> s < 64 * EXT_BMWORDS h \<longrightarrow> slot_bit h ei s))"

fun members :: "heap \<Rightarrow> headref \<Rightarrow> nat set" where
  "members h FreeHead = {ei. ei < g_n_extents h \<and> \<not> e_used (g_ext h ! ei)}"
| "members h (ClassHead c) =
     {ei. ei < g_n_extents h \<and> e_used (g_ext h ! ei) \<and> e_cls (g_ext h ! ei) = c \<and>
          0 < e_nfree (g_ext h ! ei)}"

definition lists_are :: "heap \<Rightarrow> (headref \<Rightarrow> nat set) \<Rightarrow> bool" where
  "lists_are h M \<longleftrightarrow> (\<exists>L. linked h L \<and> (\<forall>hr. valid_head hr \<longrightarrow> set (L hr) = M hr))"

definition used_exts :: "heap \<Rightarrow> nat set" where
  "used_exts h = {ei. ei < g_n_extents h \<and> e_used (g_ext h ! ei)}"

definition ext_bytes :: "heap \<Rightarrow> nat \<Rightarrow> nat" where
  "ext_bytes h ei =
     (if e_used (g_ext h ! ei) then card (used_slots h ei) * slot_size h ei else 0)"

definition heap_bytes :: "heap \<Rightarrow> nat" where
  "heap_bytes h = (\<Sum>ei < g_n_extents h. ext_bytes h ei)"

definition heap_core :: "heap \<Rightarrow> bool" where
  "heap_core h \<longleftrightarrow>
     shape_ok h \<and> (\<forall>ei < g_n_extents h. ext_ok h ei) \<and> lists_are h (members h) \<and>
     g_extents_used h = card (used_exts h) \<and>
     g_extents_used h \<le> g_extents_peak h \<and> g_extents_peak h \<le> g_n_extents h"

definition heap_inv :: "heap \<Rightarrow> bool" where
  "heap_inv h \<longleftrightarrow>
     heap_core h \<and> g_slot_bytes h = heap_bytes h \<and> (\<forall>ei \<in> used_exts h. used_slots h ei \<noteq> {})"

text \<open>The reservations: which grain offsets start a reserved slot, and how large it is.\<close>

definition heap_map :: "heap \<Rightarrow> nat \<Rightarrow> nat option" where
  "heap_map h g =
     (let ei = g div EXT_GRAINS h; off = g mod EXT_GRAINS h; c = e_cls (g_ext h ! ei)
      in if ei < g_n_extents h \<and> e_used (g_ext h ! ei) \<and> off mod (c + 1) = 0 \<and>
            off div (c + 1) \<in> used_slots h ei
         then Some (slot_size h ei) else None)"

section \<open>Geometry\<close>

lemma NCLASS_val [simp]: "NCLASS = 64"
  by (simp add: NCLASS_def ALLOC_GRAIN_def)

lemma extent_grains:
  assumes "shape_ok h"
  shows "EXT_GRAINS h = 64 * EXT_BMWORDS h" "0 < EXT_BMWORDS h" "EXT_BMWORDS h \<le> 256"
    "64 \<le> EXT_GRAINS h" "EXTENT_SIZE h = 64 * EXT_GRAINS h"
proof -
  from assms obtain m where m: "ext_shift h = m + 12" "m \<le> 8"
    by (auto simp: shape_ok_def dest!: le_Suc_ex)
  then have "EXT_GRAINS h = 64 * 2 ^ m" "EXT_BMWORDS h = 2 ^ m" "EXTENT_SIZE h = 4096 * 2 ^ m"
    by (simp_all add: EXT_BMWORDS_def EXT_GRAINS_def EXTENT_SIZE_def ALLOC_GRAIN_def power_add)
  moreover from m(2) have "(2::nat) ^ m \<le> 2 ^ 8" by (intro power_increasing) simp_all
  ultimately show "EXT_GRAINS h = 64 * EXT_BMWORDS h" "0 < EXT_BMWORDS h" "EXT_BMWORDS h \<le> 256"
    "64 \<le> EXT_GRAINS h" "EXTENT_SIZE h = 64 * EXT_GRAINS h" by simp_all
qed

lemma shape_ok_cong:
  assumes "ext_shift h' = ext_shift h" "g_n_extents h' = g_n_extents h"
    "length (g_ext h') = length (g_ext h)" "length (g_extbm h') = length (g_extbm h)"
    "length (g_class_head h') = length (g_class_head h)"
  shows "shape_ok h' = shape_ok h"
  using assms geometry_cong [OF assms(1)] by (simp add: shape_ok_def)

lemma ext_nslots_grains: "ext_nslots h c = EXT_GRAINS h div (c + 1)"
  unfolding ext_nslots_def EXT_GRAINS_def by (metis div_mult2_eq mult.commute)

lemma ext_nslots_bounds:
  assumes "shape_ok h" "c < NCLASS"
  shows "0 < ext_nslots h c" "ext_nslots h c \<le> 64 * EXT_BMWORDS h" "ext_nslots h c < 2 ^ 16"
    "ext_nslots h c * (c + 1) \<le> EXT_GRAINS h"
proof -
  note g = extent_grains [OF assms(1)]
  show le: "ext_nslots h c \<le> 64 * EXT_BMWORDS h"
    unfolding ext_nslots_grains g(1) by (rule div_le_dividend)
  show "0 < ext_nslots h c"
    unfolding ext_nslots_grains using g(4) assms(2) by (simp add: div_greater_zero_iff)
  show "ext_nslots h c < 2 ^ 16" using le g(3) by simp
  show "ext_nslots h c * (c + 1) \<le> EXT_GRAINS h"
    unfolding ext_nslots_grains by (rule div_times_less_eq_dividend)
qed

lemma slot_inside:
  assumes "shape_ok h" "c < NCLASS" "s < ext_nslots h c"
  shows "s * (c + 1) + (c + 1) \<le> EXT_GRAINS h"
proof -
  have "s * (c + 1) + (c + 1) = Suc s * (c + 1)" by simp
  also from assms(3) have "\<dots> \<le> ext_nslots h c * (c + 1)" by (intro mult_le_mono1) simp
  also have "\<dots> \<le> EXT_GRAINS h" using assms by (intro ext_nslots_bounds)
  finally show ?thesis .
qed

text \<open>A grain offset names its extent and slot uniquely.\<close>

lemma grain_decode:
  assumes "shape_ok h" "c < NCLASS" "s < ext_nslots h c"
  shows "(ei * EXT_GRAINS h + s * (c + 1)) div EXT_GRAINS h = ei"
    "(ei * EXT_GRAINS h + s * (c + 1)) mod EXT_GRAINS h = s * (c + 1)"
    "s * (c + 1) div (c + 1) = s" "s * (c + 1) mod (c + 1) = 0"
proof -
  from slot_inside [OF assms] have lt: "s * (c + 1) < EXT_GRAINS h" by simp
  then show "(ei * EXT_GRAINS h + s * (c + 1)) div EXT_GRAINS h = ei"
    "(ei * EXT_GRAINS h + s * (c + 1)) mod EXT_GRAINS h = s * (c + 1)" by simp_all
  show "s * (c + 1) div (c + 1) = s" "s * (c + 1) mod (c + 1) = 0"
    by (metis add_eq_0_iff_both_eq_0 nonzero_mult_div_cancel_right one_neq_zero) (rule mod_mult_self2_is_0)
qed

lemma grain_bound:
  assumes "shape_ok h" "ei < g_n_extents h" "c < NCLASS" "s < ext_nslots h c"
  shows "ei * EXT_GRAINS h + s * (c + 1) < 2 ^ 30"
    and "ei * EXT_GRAINS h + s * (c + 1) + (c + 1) \<le> g_n_extents h * EXT_GRAINS h"
proof -
  have "ei * EXT_GRAINS h + s * (c + 1) + (c + 1) \<le> Suc ei * EXT_GRAINS h"
    using slot_inside [OF assms(1,3,4)] by simp
  also from assms(2) have "\<dots> \<le> g_n_extents h * EXT_GRAINS h" by (intro mult_le_mono1) simp
  finally show *: "ei * EXT_GRAINS h + s * (c + 1) + (c + 1) \<le> g_n_extents h * EXT_GRAINS h" .
  with assms(1) show "ei * EXT_GRAINS h + s * (c + 1) < 2 ^ 30" by (simp add: shape_ok_def)
qed

section \<open>Descriptors without their links\<close>

definition ecore :: "extent \<Rightarrow> extent" where
  "ecore e = e\<lparr>e_next := 0, e_prev := 0\<rparr>"

lemma ecore_eqD:
  assumes "ecore e = ecore e'"
  shows "e_nfree e = e_nfree e'" "e_nslots e = e_nslots e'" "e_cls e = e_cls e'"
    "e_used e = e_used e'" "e_hint e = e_hint e'"
  using assms by (auto simp: ecore_def dest: arg_cong [where f = e_nfree] arg_cong [where f = e_nslots]
      arg_cong [where f = e_cls] arg_cong [where f = e_used] arg_cong [where f = e_hint])

lemma upd_ext_ecore:
  assumes "\<And>x. ecore (f x) = ecore x"
  shows "ecore (g_ext (upd_ext e f h) ! i) = ecore (g_ext h ! i)"
  using assms
  by (cases "e < length (g_ext h)"; cases "i = e") (auto simp: g_ext_upd_ext list_update_beyond)

lemma lst_ecore [simp, heap_simps]:
  "ecore (g_ext (lst_push hr e h) ! i) = ecore (g_ext h ! i)"
  "ecore (g_ext (lst_remove hr e h) ! i) = ecore (g_ext h ! i)"
proof -
  have f: "ecore (x\<lparr>e_prev := a\<rparr>) = ecore x" "ecore (x\<lparr>e_next := a\<rparr>) = ecore x"
    "ecore (x\<lparr>e_next := a, e_prev := b\<rparr>) = ecore x" for x a b by (simp_all add: ecore_def)
  show "ecore (g_ext (lst_push hr e h) ! i) = ecore (g_ext h ! i)"
    by (simp add: lst_push_def Let_def upd_ext_ecore f)
  show "ecore (g_ext (lst_remove hr e h) ! i) = ecore (g_ext h ! i)"
    by (simp add: lst_remove_def Let_def upd_ext_ecore f)
qed

lemmas lst_push_fields [simp] = ecore_eqD [OF lst_ecore(1)]
lemmas lst_remove_fields [simp] = ecore_eqD [OF lst_ecore(2)]

lemma lst_simps [simp, heap_simps]:
  "ext_shift (lst_push hr e h) = ext_shift h" "ext_shift (lst_remove hr e h) = ext_shift h"
  "g_extbm (lst_push hr e h) = g_extbm h" "g_extbm (lst_remove hr e h) = g_extbm h"
  "g_n_extents (lst_push hr e h) = g_n_extents h" "g_n_extents (lst_remove hr e h) = g_n_extents h"
  "g_extents_used (lst_push hr e h) = g_extents_used h"
  "g_extents_used (lst_remove hr e h) = g_extents_used h"
  "g_extents_peak (lst_push hr e h) = g_extents_peak h"
  "g_extents_peak (lst_remove hr e h) = g_extents_peak h"
  "g_slot_bytes (lst_push hr e h) = g_slot_bytes h" "g_slot_bytes (lst_remove hr e h) = g_slot_bytes h"
  "length (g_ext (lst_push hr e h)) = length (g_ext h)"
  "length (g_ext (lst_remove hr e h)) = length (g_ext h)"
  "length (g_class_head (lst_push hr e h)) = length (g_class_head h)"
  "length (g_class_head (lst_remove hr e h)) = length (g_class_head h)"
  by (simp_all add: lst_push_def lst_remove_def Let_def)

section \<open>The lists as sets\<close>

lemma lists_are_remove:
  assumes "lists_are h M" "valid_head hr" "e \<in> M hr"
  shows "lists_are (lst_remove hr e h) (\<lambda>hr'. M hr' - {e})"
proof -
  from assms(1) obtain L where L: "linked h L" "\<And>hr. valid_head hr \<Longrightarrow> set (L hr) = M hr"
    by (auto simp: lists_are_def)
  with assms have e: "e \<in> set (L hr)" by simp
  have "linked (lst_remove hr e h) (L(hr := remove1 e (L hr)))"
    using L(1) assms(2) e by (rule lst_remove_linked)
  moreover have "set ((L(hr := remove1 e (L hr))) hr') = M hr' - {e}" if v: "valid_head hr'" for hr'
  proof (cases "hr' = hr")
    case True
    then show ?thesis using L(2) [OF v] linkedD(2) [OF L(1) v] by simp
  next
    case False
    then have "set (L hr') \<inter> set (L hr) = {}" using L(1) v assms(2) by (simp add: linked_def)
    with e False L(2) [OF v] show ?thesis by auto
  qed
  ultimately show ?thesis by (auto simp: lists_are_def)
qed

lemma lists_are_push:
  assumes "lists_are h M" "valid_head hr" "e < length (g_ext h)" "e \<noteq> EXT_NONE"
    and "\<And>hr'. valid_head hr' \<Longrightarrow> e \<notin> M hr'"
  shows "lists_are (lst_push hr e h) (M(hr := insert e (M hr)))"
proof -
  from assms(1) obtain L where L: "linked h L" "\<And>hr. valid_head hr \<Longrightarrow> set (L hr) = M hr"
    by (auto simp: lists_are_def)
  have "linked (lst_push hr e h) (L(hr := e # L hr))"
    using L assms by (intro lst_push_linked) auto
  then show ?thesis using L(2) by (fastforce simp: lists_are_def)
qed

lemma lists_are_cong:
  assumes "length (g_ext h') = length (g_ext h)" "length (g_class_head h') = length (g_class_head h)"
    and "\<And>i. e_next (g_ext h' ! i) = e_next (g_ext h ! i) \<and> e_prev (g_ext h' ! i) = e_prev (g_ext h ! i)"
    and "\<And>hr. get_head hr h' = get_head hr h"
    and "\<And>hr. valid_head hr \<Longrightarrow> M' hr = M hr"
  shows "lists_are h M \<Longrightarrow> lists_are h' M'"
  unfolding lists_are_def linked_cong [OF assms(1-4)] using assms(5) by auto

lemma lists_are_head:
  assumes "lists_are h M" "valid_head hr"
  shows "get_head hr h \<noteq> EXT_NONE \<Longrightarrow> get_head hr h \<in> M hr"
    and "get_head hr h = EXT_NONE \<Longrightarrow> M hr = {}"
proof -
  from assms obtain L where "dll (g_ext h) (get_head hr h) (L hr)" "set (L hr) = M hr"
    by (auto simp: lists_are_def dest: linkedD)
  then show "get_head hr h \<noteq> EXT_NONE \<Longrightarrow> get_head hr h \<in> M hr"
    and "get_head hr h = EXT_NONE \<Longrightarrow> M hr = {}"
    by (auto dest: dll_head dll_empty_iff)
qed

lemma n_extents_bound: "shape_ok h \<Longrightarrow> g_n_extents h < 2 ^ 24"
proof -
  assume h: "shape_ok h"
  have "g_n_extents h * 64 \<le> g_n_extents h * EXT_GRAINS h"
    using extent_grains(4) [OF h] by (intro mult_le_mono) simp_all
  also have "\<dots> < 2 ^ 30" using h by (simp add: shape_ok_def)
  finally show ?thesis by simp
qed

lemma n_extents_lt_NONE: "shape_ok h \<Longrightarrow> ei < g_n_extents h \<Longrightarrow> ei \<noteq> EXT_NONE"
  using n_extents_bound [of h] by (simp add: EXT_NONE_def)

section \<open>Writing one bitmap bit\<close>

lemma bm_word_cong:
  "g_extbm h' = g_extbm h \<Longrightarrow> ext_shift h' = ext_shift h \<Longrightarrow> bm_word h' = bm_word h"
  by (simp add: bm_word_def fun_eq_iff EXT_BMWORDS_def EXT_GRAINS_def EXTENT_SIZE_def)

lemma bm_word_set_bm:
  assumes "shape_ok h" "ei < g_n_extents h" "w < EXT_BMWORDS h" "v < EXT_BMWORDS h"
  shows "bm_word (set_bm ei w x h) ej v = (if ej = ei \<and> v = w then x else bm_word h ej v)"
proof -
  have "ei * EXT_BMWORDS h + w < length (g_extbm h)"
    using assms by (simp add: shape_ok_def row_index_less)
  moreover have "EXT_BMWORDS (set_bm ei w x h) = EXT_BMWORDS h" by (rule geometry_cong) simp
  ultimately show ?thesis
    using row_index_inj [OF assms(3,4), of ei ej]
    by (auto simp: bm_word_def set_bm_def nth_list_update EXT_BMWORDS_def EXT_GRAINS_def EXTENT_SIZE_def)
qed

lemma slot_bit_set_bm:
  assumes "shape_ok h" "ei < g_n_extents h" "s < 64 * EXT_BMWORDS h" "t < 64 * EXT_BMWORDS h"
    and "\<And>k. k < 64 \<Longrightarrow> bit x k = (if k = s mod 64 then B else bit (bm_word h ei (s div 64)) k)"
  shows "slot_bit (set_bm ei (s div 64) x h) ej t = (if ej = ei \<and> t = s then B else slot_bit h ej t)"
proof -
  from assms(3,4) have "s div 64 < EXT_BMWORDS h" "t div 64 < EXT_BMWORDS h" by auto
  then have "bm_word (set_bm ei (s div 64) x h) ej (t div 64) =
      (if ej = ei \<and> t div 64 = s div 64 then x else bm_word h ej (t div 64))"
    using assms(1,2) by (intro bm_word_set_bm)
  moreover have "t = s \<longleftrightarrow> t div 64 = s div 64 \<and> t mod 64 = s mod 64"
    by (metis div_mult_mod_eq)
  moreover have "t mod 64 < 64" by simp
  ultimately show ?thesis using assms(5) [of "t mod 64"] by (auto simp: slot_bit_def)
qed

section \<open>Changing one extent\<close>

text \<open>@h'@ differs from @h@ at most in extent @ei@, its links aside, and in the counters.\<close>

definition elsewhere :: "heap \<Rightarrow> heap \<Rightarrow> nat \<Rightarrow> bool" where
  "elsewhere h h' ei \<longleftrightarrow>
     ext_shift h' = ext_shift h \<and> g_n_extents h' = g_n_extents h \<and>
     length (g_ext h') = length (g_ext h) \<and> length (g_extbm h') = length (g_extbm h) \<and>
     length (g_class_head h') = length (g_class_head h) \<and>
     (\<forall>j < g_n_extents h. j \<noteq> ei \<longrightarrow>
        ecore (g_ext h' ! j) = ecore (g_ext h ! j) \<and>
        (\<forall>t < 64 * EXT_BMWORDS h. slot_bit h' j t = slot_bit h j t))"

lemma elsewhere_trans: "elsewhere h h1 ei \<Longrightarrow> elsewhere h1 h2 ei \<Longrightarrow> elsewhere h h2 ei"
  by (simp add: elsewhere_def EXT_BMWORDS_def EXT_GRAINS_def EXTENT_SIZE_def)

lemma elsewhere_geometry:
  assumes "elsewhere h h' ei"
  shows "EXTENT_SIZE h' = EXTENT_SIZE h" "EXT_GRAINS h' = EXT_GRAINS h"
    "EXT_BMWORDS h' = EXT_BMWORDS h" "ext_nslots h' c = ext_nslots h c"
    "g_n_extents h' = g_n_extents h"
  using assms by (auto simp: elsewhere_def intro: geometry_cong)

lemma elsewhere_shape: "elsewhere h h' ei \<Longrightarrow> shape_ok h \<Longrightarrow> shape_ok h'"
  using elsewhere_geometry [of h h' ei] by (simp add: elsewhere_def shape_ok_def)

lemma elsewhere_ext:
  assumes "elsewhere h h' ei" "shape_ok h" "j < g_n_extents h" "j \<noteq> ei" "ext_ok h j"
  shows "ext_ok h' j" "e_used (g_ext h' ! j) = e_used (g_ext h ! j)"
    "e_cls (g_ext h' ! j) = e_cls (g_ext h ! j)" "e_nfree (g_ext h' ! j) = e_nfree (g_ext h ! j)"
    "slot_size h' j = slot_size h j"
    "e_used (g_ext h ! j) \<Longrightarrow> used_slots h' j = used_slots h j"
proof -
  from assms have ec: "ecore (g_ext h' ! j) = ecore (g_ext h ! j)"
    and bits: "\<And>t. t < 64 * EXT_BMWORDS h \<Longrightarrow> slot_bit h' j t = slot_bit h j t"
    by (auto simp: elsewhere_def)
  note f = ecore_eqD [OF ec] and geo = elsewhere_geometry [OF assms(1)]
  show "e_used (g_ext h' ! j) = e_used (g_ext h ! j)" "e_cls (g_ext h' ! j) = e_cls (g_ext h ! j)"
    "e_nfree (g_ext h' ! j) = e_nfree (g_ext h ! j)" "slot_size h' j = slot_size h j"
    using f by (simp_all add: slot_size_def)
  have le: "e_nslots (g_ext h ! j) \<le> 64 * EXT_BMWORDS h" if "e_used (g_ext h ! j)"
    using assms(2,5) that ext_nslots_bounds(2) by (auto simp: ext_ok_def Let_def)
  show us: "used_slots h' j = used_slots h j" if "e_used (g_ext h ! j)"
    using le [OF that] f bits by (auto simp: used_slots_def)
  have "free_slots h' j = free_slots h j" if "e_used (g_ext h ! j)"
    using le [OF that] f bits by (auto simp: free_slots_def)
  then show "ext_ok h' j" using assms(5) f geo bits by (auto simp: ext_ok_def Let_def)
qed

lemma elsewhere_heap_map:
  assumes "elsewhere h h' ei" "shape_ok h" "\<forall>j < g_n_extents h. ext_ok h j"
    and "g div EXT_GRAINS h \<noteq> ei"
  shows "heap_map h' g = heap_map h g"
proof (cases "g div EXT_GRAINS h < g_n_extents h")
  case True
  note e = elsewhere_ext [OF assms(1,2) True assms(4) assms(3) [rule_format, OF True]]
  show ?thesis using e elsewhere_geometry [OF assms(1)] by (auto simp: heap_map_def Let_def)
next
  case False
  then show ?thesis using elsewhere_geometry [OF assms(1)] by (simp add: heap_map_def Let_def)
qed

lemma elsewhere_bytes:
  assumes "elsewhere h h' ei" "shape_ok h" "\<forall>j < g_n_extents h. ext_ok h j" "ei < g_n_extents h"
  shows "heap_bytes h' + ext_bytes h ei = heap_bytes h + ext_bytes h' ei"
proof -
  have "ext_bytes h' j = ext_bytes h j" if "j \<in> {..<g_n_extents h} - {ei}" for j
    using that elsewhere_ext [OF assms(1,2), of j] assms(3) by (auto simp: ext_bytes_def)
  then have "sum (ext_bytes h') ({..<g_n_extents h} - {ei}) = sum (ext_bytes h) ({..<g_n_extents h} - {ei})"
    by (rule sum.cong [OF refl])
  then show ?thesis
    using assms(4) elsewhere_geometry(5) [OF assms(1)]
    by (simp add: heap_bytes_def sum.remove [of "{..<g_n_extents h}" ei])
qed

lemma elsewhere_used_exts:
  assumes "elsewhere h h' ei" "shape_ok h" "\<forall>j < g_n_extents h. ext_ok h j"
  shows "used_exts h' - {ei} = used_exts h - {ei}"
  using elsewhere_ext(2) [OF assms(1,2)] assms(3) elsewhere_geometry(5) [OF assms(1)]
  by (auto simp: used_exts_def)

lemma elsewhere_members:
  assumes "elsewhere h h' ei" "shape_ok h" "\<forall>j < g_n_extents h. ext_ok h j"
  shows "members h' hr - {ei} = members h hr - {ei}"
  using elsewhere_ext(2-4) [OF assms(1,2)] assms(3) elsewhere_geometry(5) [OF assms(1)]
  by (cases hr) auto

text \<open>The counter of reserved bytes stays far from its width.\<close>

lemma ext_bytes_le:
  assumes "shape_ok h" "ext_ok h ei"
  shows "ext_bytes h ei \<le> EXTENT_SIZE h"
proof (cases "e_used (g_ext h ! ei)")
  case True
  let ?c = "e_cls (g_ext h ! ei)"
  from assms(2) True have c: "?c < NCLASS" "e_nslots (g_ext h ! ei) = ext_nslots h ?c"
    by (auto simp: ext_ok_def Let_def)
  have "card (used_slots h ei) \<le> card {..<ext_nslots h ?c}"
    by (rule card_mono) (auto simp: used_slots_def c)
  then have "card (used_slots h ei) * (?c + 1) \<le> ext_nslots h ?c * (?c + 1)"
    by (intro mult_le_mono) auto
  also have "\<dots> \<le> EXT_GRAINS h" using assms(1) c(1) by (rule ext_nslots_bounds)
  finally have "card (used_slots h ei) * (?c + 1) * 64 \<le> EXT_GRAINS h * 64" by (rule mult_le_mono1)
  also have "\<dots> = EXTENT_SIZE h" using extent_grains(5) [OF assms(1)] by simp
  finally show ?thesis
    using True by (simp add: ext_bytes_def slot_size_def ALLOC_GRAIN_def algebra_simps)
qed (simp add: ext_bytes_def)

lemma heap_bytes_bound:
  assumes "shape_ok h" "\<forall>j < g_n_extents h. ext_ok h j"
  shows "heap_bytes h < 2 ^ 36"
proof -
  have "heap_bytes h \<le> (\<Sum>ei < g_n_extents h. EXTENT_SIZE h)"
    unfolding heap_bytes_def using assms by (intro sum_mono ext_bytes_le) auto
  also have "\<dots> = 64 * (g_n_extents h * EXT_GRAINS h)" using extent_grains(5) [OF assms(1)] by simp
  also have "\<dots> < 64 * 2 ^ 30" using assms(1) by (simp add: shape_ok_def mult.commute)
  finally show ?thesis by simp
qed

end
