(* ===== verification/Allocator_Refinement.thy ===== *)
theory Allocator_Refinement
  imports Allocator_Invariant
begin

unbundle bit_operations_syntax

text \<open>
  The allocator operations refine a finite map: @slot_alloc@ adds one reservation that was
  not there and is large enough, or fails and changes nothing, @slot_free@ removes exactly
  the reservation it is given, both keep the invariant, and @heap_init@ establishes it with
  no reservation. Distinct reservations occupy disjoint bytes inside the heap.
\<close>

section \<open>Taking a slot\<close>

lemma heap_coreD:
  assumes "heap_core h"
  shows "shape_ok h" "\<forall>ei < g_n_extents h. ext_ok h ei" "lists_are h (members h)"
    "g_extents_used h = card (used_exts h)" "g_extents_used h \<le> g_extents_peak h"
    "g_extents_peak h \<le> g_n_extents h"
  using assms by (auto simp: heap_core_def)

lemma finite_slots [simp]: "finite (free_slots h ei)" "finite (used_slots h ei)"
  by (simp_all add: free_slots_def used_slots_def)

lemma finite_used_exts [simp]: "finite (used_exts h)"
  by (simp add: used_exts_def)

lemma scan_word_less:
  assumes "shape_ok h" "e_hint (g_ext h ! ei) < EXT_BMWORDS h" "i < EXT_BMWORDS h"
  shows "scan_word h ei i < EXT_BMWORDS h"
proof -
  have "e_hint (g_ext h ! ei) + i < 2 ^ 32" using assms extent_grains(3) [OF assms(1)] by simp
  with assms show ?thesis by (auto simp: scan_word_def Let_def u32_small)
qed

text \<open>The cyclic scan from the hint visits every word of the row.\<close>

lemma scan_word_covers:
  assumes "shape_ok h" "e_hint (g_ext h ! ei) < EXT_BMWORDS h" "w < EXT_BMWORDS h"
  shows "\<exists>i < EXT_BMWORDS h. scan_word h ei i = w"
proof (cases "e_hint (g_ext h ! ei) \<le> w")
  case True
  let ?i = "w - e_hint (g_ext h ! ei)"
  have "w < 2 ^ 32" using assms extent_grains(3) [OF assms(1)] by simp
  with True assms have "?i < EXT_BMWORDS h \<and> scan_word h ei ?i = w"
    by (simp add: scan_word_def Let_def u32_small)
  then show ?thesis by blast
next
  case False
  let ?i = "w + EXT_BMWORDS h - e_hint (g_ext h ! ei)"
  have "w + EXT_BMWORDS h < 2 ^ 32" using assms extent_grains(3) [OF assms(1)] by simp
  with False assms have "?i < EXT_BMWORDS h \<and> scan_word h ei ?i = w"
    by (simp add: scan_word_def Let_def u32_small)
  then show ?thesis by blast
qed

lemma ext_take_finds:
  assumes core: "heap_core h" and m: "ei \<in> members h (ClassHead c)"
  obtains i w b where
    "List.find (\<lambda>i. bm_word h ei (scan_word h ei i) \<noteq> - 1) [0..<EXT_BMWORDS h] = Some i"
    "scan_word h ei i = w" "w < EXT_BMWORDS h" "b = ctzll (NOT (bm_word h ei w))" "b < 64"
    "w * 64 + b \<in> free_slots h ei"
proof -
  note c = heap_coreD [OF core]
  from m c(2) have ok: "ext_ok h ei" and e: "e_used (g_ext h ! ei)" "0 < e_nfree (g_ext h ! ei)"
    by auto
  from ok e have hint: "e_hint (g_ext h ! ei) < EXT_BMWORDS h"
    and nf: "e_nfree (g_ext h ! ei) = card (free_slots h ei)"
    and ns: "e_nslots (g_ext h ! ei) = ext_nslots h (e_cls (g_ext h ! ei))" "e_cls (g_ext h ! ei) < NCLASS"
    and tail: "\<And>s. e_nslots (g_ext h ! ei) \<le> s \<Longrightarrow> s < 64 * EXT_BMWORDS h \<Longrightarrow> slot_bit h ei s"
    by (auto simp: ext_ok_def Let_def)
  let ?P = "\<lambda>i. bm_word h ei (scan_word h ei i) \<noteq> - 1"
  from e(2) nf obtain s where s: "s \<in> free_slots h ei" by (metis card_gt_0_iff ex_in_conv)
  with ns have "s < 64 * EXT_BMWORDS h"
    using ext_nslots_bounds(2) [OF c(1), of "e_cls (g_ext h ! ei)"] by (auto simp: free_slots_def)
  then have "s div 64 < EXT_BMWORDS h" by (simp add: less_mult_imp_div_less mult.commute)
  then obtain i where i: "i < EXT_BMWORDS h" "scan_word h ei i = s div 64"
    using scan_word_covers [OF c(1) hint] by blast
  have "?P i" using s i(2) by (auto simp: free_slots_def slot_bit_def)
  with i(1) have "List.find ?P [0..<EXT_BMWORDS h] \<noteq> None"
    by (auto simp: find_None_iff)
  then obtain k where k: "List.find ?P [0..<EXT_BMWORDS h] = Some k" by auto
  then have kP: "?P k" "k < EXT_BMWORDS h" by (auto simp: find_Some_iff)
  let ?w = "scan_word h ei k" let ?b = "ctzll (NOT (bm_word h ei ?w))"
  have w: "?w < EXT_BMWORDS h" using c(1) hint kP(2) by (rule scan_word_less)
  from kP(1) have "NOT (bm_word h ei ?w) \<noteq> 0" by (metis bit.compl_zero bit.double_compl)
  note b = ctzll_least [OF this]
  from b(1,2) have "\<not> bit (bm_word h ei ?w) ?b" by (simp add: bit_simps)
  then have nb: "\<not> slot_bit h ei (?w * 64 + ?b)" using b(1) by (simp add: slot_bit_def)
  have "?w * 64 + ?b < 64 * EXT_BMWORDS h" using w b(1) by simp
  with nb tail have "?w * 64 + ?b < e_nslots (g_ext h ! ei)" by (meson not_le)
  with nb have "?w * 64 + ?b \<in> free_slots h ei" by (simp add: free_slots_def)
  with k w b(1) that show thesis by blast
qed

text \<open>
  The shape of every step on one extent: the rest of the heap is as it was, the extent is well-formed, and
  the lists and counters follow.
\<close>

lemma heap_core_elsewhere:
  assumes "heap_core h" "elsewhere h h' ei" "ext_ok h' ei" "lists_are h' (members h')" "g_extents_used h' = card (used_exts h')"
    and "g_extents_used h' \<le> g_extents_peak h'" "g_extents_peak h' \<le> g_n_extents h"
  shows "heap_core h'"
proof -
  note cd = heap_coreD [OF assms(1)] and geo = elsewhere_geometry [OF assms(2)]
  have "\<forall>j < g_n_extents h'. ext_ok h' j"
    using elsewhere_ext(1) [OF assms(2) cd(1)] cd(2) geo(5) assms(3) by metis
  then show ?thesis unfolding heap_core_def using elsewhere_shape [OF assms(2) cd(1)] assms(4-7) geo(5) by simp
qed

lemma used_ext_facts:
  assumes core: "heap_core h" and ei: "ei < g_n_extents h" "e_used (g_ext h ! ei)" "e_cls (g_ext h ! ei) = c"
  shows "ei < length (g_ext h)" "c < NCLASS" "e_nslots (g_ext h ! ei) = ext_nslots h c"
    "e_nfree (g_ext h ! ei) = card (free_slots h ei)" "e_hint (g_ext h ! ei) < EXT_BMWORDS h"
    "ext_nslots h c \<le> s \<Longrightarrow> s < 64 * EXT_BMWORDS h \<Longrightarrow> slot_bit h ei s" "card (free_slots h ei) < 2 ^ 16"
proof -
  note cd = heap_coreD [OF core]
  show "ei < length (g_ext h)" using ei(1) cd(1) by (simp add: shape_ok_def)
  from cd(2) ei have "ext_ok h ei" by simp
  with ei show cv: "c < NCLASS" and ns: "e_nslots (g_ext h ! ei) = ext_nslots h c"
    and "e_nfree (g_ext h ! ei) = card (free_slots h ei)" "e_hint (g_ext h ! ei) < EXT_BMWORDS h"
    and "ext_nslots h c \<le> s \<Longrightarrow> s < 64 * EXT_BMWORDS h \<Longrightarrow> slot_bit h ei s"
    by (auto simp: ext_ok_def Let_def)
  have "card (free_slots h ei) \<le> card {..<ext_nslots h c}"
    by (rule card_mono) (auto simp: free_slots_def ns)
  with ext_nslots_bounds(3) [OF cd(1) cv] show "card (free_slots h ei) < 2 ^ 16" by simp
qed

lemma lists_after_take:
  assumes core: "heap_core h" and m: "ei \<in> members h (ClassHead c)" and cv: "c < NCLASS" and els: "elsewhere h h3 ei"
    and l2: "lists_are h2 (members h)" and h3: "h3 = (if n = 0 then lst_remove (ClassHead c) ei h2 else h2)"
    and f3: "e_nfree (g_ext h3 ! ei) = n" "e_cls (g_ext h3 ! ei) = c" "e_used (g_ext h3 ! ei)"
  shows "lists_are h3 (members h3)"
proof -
  note cd = heap_coreD [OF core]
  have mem: "members h3 hr - {ei} = members h hr - {ei}" for hr using els cd(1,2) by (rule elsewhere_members)
  show ?thesis
  proof (cases "n = 0")
    case True
    have "lists_are h3 (\<lambda>hr. members h hr - {ei})"
      unfolding h3 if_P [OF True] using l2 m cv by (intro lists_are_remove) auto
    moreover have "ei \<notin> members h3 hr" for hr using True f3 by (cases hr) auto
    ultimately show ?thesis using mem by (auto simp: lists_are_def)
  next
    case False
    have "ei \<in> members h3 hr \<longleftrightarrow> ei \<in> members h hr" for hr
      using False f3 m elsewhere_geometry(5) [OF els] by (cases hr) simp_all
    with mem have "members h3 hr = members h hr" for hr by blast
    then show ?thesis using l2 h3 False by (simp add: lists_are_def)
  qed
qed

lemma lists_after_push:
  assumes core: "heap_core h" and els: "elsewhere h h' ei" and ei: "ei < g_n_extents h" "ei < length (g_ext k)" and v: "valid_head hr0"
    and l: "lists_are k (\<lambda>hr. members h hr - {ei})" and m: "\<And>hr. ei \<in> members h' hr \<longleftrightarrow> hr = hr0"
  shows "lists_are (lst_push hr0 ei k) (members h')"
proof -
  note cd = heap_coreD [OF core]
  have mem: "members h' hr - {ei} = members h hr - {ei}" for hr using els cd(1,2) by (rule elsewhere_members)
  have "lists_are (lst_push hr0 ei k) ((\<lambda>hr. members h hr - {ei})(hr0 := insert ei (members h hr0 - {ei})))"
    using l v ei(2)
  proof (rule lists_are_push)
    show "ei \<noteq> EXT_NONE" using cd(1) ei(1) by (rule n_extents_lt_NONE)
  qed simp
  moreover have "members h' = (\<lambda>hr. members h hr - {ei})(hr0 := insert ei (members h hr0 - {ei}))"
    using mem m by (auto simp del: members.simps simp: fun_eq_iff)
  ultimately show ?thesis by simp
qed

text \<open>What the links and counters do not touch.\<close>

lemma same_slots:
  assumes "\<And>j. ecore (g_ext h' ! j) = ecore (g_ext h ! j)" "g_extbm h' = g_extbm h" "ext_shift h' = ext_shift h" "g_n_extents h' = g_n_extents h"
    and "length (g_ext h') = length (g_ext h)" "length (g_class_head h') = length (g_class_head h)"
  shows "elsewhere k h' ei \<longleftrightarrow> elsewhere k h ei" "ext_ok h' ei \<longleftrightarrow> ext_ok h ei" "used_slots h' ei = used_slots h ei"
proof -
  note e = ecore_eqD [OF assms(1)] and geo = geometry_cong [OF assms(3)]
  have bits: "slot_bit h' = slot_bit h" using bm_word_cong [OF assms(2,3)] by (simp add: slot_bit_def fun_eq_iff)
  show "elsewhere k h' ei \<longleftrightarrow> elsewhere k h ei" using assms by (simp add: elsewhere_def bits)
  show "used_slots h' ei = used_slots h ei" by (simp add: used_slots_def e bits)
  have "free_slots h' ei = free_slots h ei" by (simp add: free_slots_def e bits)
  then show "ext_ok h' ei \<longleftrightarrow> ext_ok h ei" by (simp add: ext_ok_def Let_def e bits geo)
qed

text \<open>One more slot of extent @ei@ is reserved; then the lists follow.\<close>

lemma take_bit_row:
  assumes core: "heap_core h" and ei: "ei < g_n_extents h" "e_used (g_ext h ! ei)" "e_cls (g_ext h ! ei) = c"
    and w: "w < EXT_BMWORDS h" and b: "b < 64" and fr: "w * 64 + b \<in> free_slots h ei"
  defines "h2 \<equiv> upd_ext ei (\<lambda>e. e\<lparr>e_hint := u16 w, e_nfree := sub16 (e_nfree e) 1\<rparr>) (set_bm ei w (bm_word h ei w OR push_bit b 1) h)"
  shows "elsewhere h h2 ei" "ext_ok h2 ei" "used_slots h2 ei = insert (w * 64 + b) (used_slots h ei)" "lists_are h2 (members h)"
    "e_used (g_ext h2 ! ei)" "e_cls (g_ext h2 ! ei) = c"
proof -
  note cd = heap_coreD [OF core] and uf = used_ext_facts [OF core ei] and ns = used_ext_facts(3) [OF core ei] and tail = used_ext_facts(6) [OF core ei]
  define s where "s = w * 64 + b"
  have s: "s div 64 = w" "s mod 64 = b" "s < 64 * EXT_BMWORDS h" "s < ext_nslots h c" using b w fr ns by (simp_all add: s_def free_slots_def)
  have w16: "u16 w = w" using w extent_grains(3) [OF cd(1)] by (simp add: u16_small)
  have pos: "0 < e_nfree (g_ext h ! ei)" using fr uf(4) by (auto simp: card_gt_0_iff)
  have e2: "g_ext h2 ! ei = (g_ext h ! ei)\<lparr>e_hint := w, e_nfree := e_nfree (g_ext h ! ei) - 1\<rparr>"
    using uf(1,4,7) pos by (simp add: h2_def g_ext_upd_ext w16 sub16_exact)
  then show "e_used (g_ext h2 ! ei)" "e_cls (g_ext h2 ! ei) = c" using ei by simp_all
  have e2': "g_ext h2 ! j = g_ext h ! j" if "j \<noteq> ei" for j using that by (simp add: h2_def g_ext_upd_ext)
  have "slot_bit (set_bm ei w (bm_word h ei w OR push_bit b 1) h) j t = (if j = ei \<and> t = s then True else slot_bit h j t)"
    if "t < 64 * EXT_BMWORDS h" for j t
    unfolding s(1) [symmetric] by (rule slot_bit_set_bm [OF cd(1) ei(1) s(3) that]) (auto simp: bit_simps s)
  moreover have "bm_word h2 = bm_word (set_bm ei w (bm_word h ei w OR push_bit b 1) h)" by (rule bm_word_cong) (simp_all add: h2_def)
  ultimately have bits: "slot_bit h2 j t = (if j = ei \<and> t = s then True else slot_bit h j t)" if "t < 64 * EXT_BMWORDS h" for j t
    using that by (simp add: slot_bit_def)
  show els: "elsewhere h h2 ei" using bits e2' by (auto simp: elsewhere_def) (simp_all add: h2_def)
  have nsle: "ext_nslots h c \<le> 64 * EXT_BMWORDS h" using cd(1) uf(2) by (rule ext_nslots_bounds)
  show "used_slots h2 ei = insert (w * 64 + b) (used_slots h ei)"
    unfolding s_def [symmetric] using bits e2 ns s(4) nsle by (auto simp: used_slots_def)
  have "free_slots h2 ei = free_slots h ei - {s}" using bits e2 ns nsle by (auto simp: free_slots_def split: if_splits)
  then show "ext_ok h2 ei"
    using e2 ei ns uf(2,4) fr elsewhere_geometry [OF els] bits tail w by (auto simp: ext_ok_def Let_def s_def)
  have "e_next (g_ext h2 ! i) = e_next (g_ext h ! i) \<and> e_prev (g_ext h2 ! i) = e_prev (g_ext h ! i)" for i
    using e2 e2' [of i] by (cases "i = ei") simp_all
  then show "lists_are h2 (members h)" by (intro lists_are_cong [OF _ _ _ _ _ cd(3)]) (simp_all add: h2_def)
qed

lemma ext_take_core:
  assumes core: "heap_core h" and m: "ei \<in> members h (ClassHead c)" and cv: "c < NCLASS"
  obtains s h' where
    "ext_take ei h = (ei * EXT_GRAINS h + s * (c + 1), h')" "s \<in> free_slots h ei"
    "elsewhere h h' ei" "e_used (g_ext h' ! ei)" "e_cls (g_ext h' ! ei) = c"
    "used_slots h' ei = insert s (used_slots h ei)" "heap_core h'"
    "g_slot_bytes h' = g_slot_bytes h"
proof -
  note cd = heap_coreD [OF core]
  from m have ei: "ei < g_n_extents h" "e_used (g_ext h ! ei)" "e_cls (g_ext h ! ei) = c" by auto
  obtain i w b where fnd: "List.find (\<lambda>i. bm_word h ei (scan_word h ei i) \<noteq> - 1) [0..<EXT_BMWORDS h] = Some i"
    and w: "scan_word h ei i = w" "w < EXT_BMWORDS h" and b: "b = ctzll (NOT (bm_word h ei w))" "b < 64"
    and fr: "w * 64 + b \<in> free_slots h ei"
    using ext_take_finds [OF core m] by metis
  define s where "s = w * 64 + b"
  define h2 where "h2 = upd_ext ei (\<lambda>e. e\<lparr>e_hint := u16 w, e_nfree := sub16 (e_nfree e) 1\<rparr>) (set_bm ei w (bm_word h ei w OR push_bit b 1) h)"
  define h3 where "h3 = (if e_nfree (g_ext h2 ! ei) = 0 then lst_remove (ClassHead (e_cls (g_ext h2 ! ei))) ei h2 else h2)"
  note row = take_bit_row [OF core ei w(2) b(2) fr, folded h2_def s_def]
  have e3: "ecore (g_ext h3 ! j) = ecore (g_ext h2 ! j)" for j by (simp add: h3_def)
  note f3 = ecore_eqD [OF e3 [of ei]]
  have same: "elsewhere k h3 ei \<longleftrightarrow> elsewhere k h2 ei" "ext_ok h3 ei \<longleftrightarrow> ext_ok h2 ei" "used_slots h3 ei = used_slots h2 ei" for k
    by (rule same_slots [OF e3]; simp add: h3_def)+
  have els: "elsewhere h h3 ei" and ok: "ext_ok h3 ei" using row(1,2) same by simp_all
  have h3: "h3 = (if e_nfree (g_ext h2 ! ei) = 0 then lst_remove (ClassHead c) ei h2 else h2)" using row(6) by (simp add: h3_def)
  have lists: "lists_are h3 (members h3)"
    by (rule lists_after_take [OF core m cv els row(4) h3]) (use f3 row(5,6) in simp_all)
  have "used_exts h3 = used_exts h"
    using elsewhere_used_exts [OF els cd(1,2)] f3 row(5) ei elsewhere_geometry [OF els] by (auto simp: used_exts_def)
  then have core3: "heap_core h3"
    using heap_core_elsewhere [OF core els ok lists] cd(4-6) by (simp add: h3_def h2_def)
  have sn: "s < ext_nslots h c" using fr used_ext_facts(3) [OF core ei] by (simp add: s_def free_slots_def)
  have "s < 2 ^ 32" using sn ext_nslots_bounds(3) [OF cd(1) cv] by simp
  then have "u32 (w * 64 + b) = s" by (simp add: s_def u32_small)
  moreover have "u32 (ei * EXT_GRAINS h + s * (c + 1)) = ei * EXT_GRAINS h + s * (c + 1)"
    using grain_bound(1) [OF cd(1) ei(1) cv sn] by (simp add: u32_small)
  moreover have cls: "e_cls (g_ext h3 ! ei) = c" using f3(3) row(6) by simp
  ultimately have "ext_take ei h = (ei * EXT_GRAINS h + s * (c + 1), h3)"
    unfolding ext_take_def fnd option.case w(1) b(1) [symmetric] Let_def h2_def [symmetric] h3_def [symmetric] cls by simp
  then show thesis
    using that [of s h3] fr els f3 row(3,5,6) same(3) core3 by (simp add: s_def h3_def h2_def)
qed

section \<open>Committing a fresh extent to a class\<close>

lemma set_row_props:
  fixes h row ei
  defines "h' ws \<equiv> fold (\<lambda>w. set_bm ei w (row w)) ws h"
  shows "ext_shift (h' ws) = ext_shift h" "g_ext (h' ws) = g_ext h" "g_n_extents (h' ws) = g_n_extents h"
    "g_extents_used (h' ws) = g_extents_used h" "g_extents_peak (h' ws) = g_extents_peak h"
    "g_slot_bytes (h' ws) = g_slot_bytes h" "g_class_head (h' ws) = g_class_head h"
    "g_free_head (h' ws) = g_free_head h" "length (g_extbm (h' ws)) = length (g_extbm h)"
  unfolding h'_def by (induction ws arbitrary: h) simp_all

lemma set_row_shape:
  "shape_ok h \<Longrightarrow> shape_ok (fold (\<lambda>w. set_bm ei w (row w)) ws h)"
  by (subst shape_ok_cong [where h = h]) (simp_all add: set_row_props)

lemma bm_word_set_row:
  assumes "shape_ok h" "ei < g_n_extents h" "set ws \<subseteq> {..<EXT_BMWORDS h}" "v < EXT_BMWORDS h"
  shows "bm_word (fold (\<lambda>w. set_bm ei w (row w)) ws h) ej v =
    (if ej = ei \<and> v \<in> set ws then row v else bm_word h ej v)"
  using assms(3)
proof (induction ws rule: rev_induct)
  case Nil
  then show ?case by simp
next
  case (snoc w ws)
  let ?k = "fold (\<lambda>w. set_bm ei w (row w)) ws h"
  have "shape_ok ?k" using assms(1) by (rule set_row_shape)
  moreover have "EXT_BMWORDS ?k = EXT_BMWORDS h" by (rule geometry_cong) (rule set_row_props)
  ultimately have "bm_word (set_bm ei w (row w) ?k) ej v = (if ej = ei \<and> v = w then row w else bm_word ?k ej v)"
    using snoc.prems assms by (intro bm_word_set_bm) (simp_all add: set_row_props)
  with snoc show ?case by auto
qed

lemma init_row_bit:
  assumes "k < 64"
  shows "bit (init_row_word n w) k \<longleftrightarrow> n \<le> 64 * w + k"
proof -
  define q r where "q = n div 64" and "r = n mod 64"
  have n: "n = 64 * q + r" "r < 64" by (simp_all add: q_def r_def)
  have f: "init_row_word n w = (if r \<noteq> 0 \<and> w = q then push_bit r (- 1)
      else if q + (if r \<noteq> 0 then 1 else 0) \<le> w then - 1 else 0)"
    by (simp add: init_row_word_def Let_def q_def r_def)
  consider "w < q" | "w = q" | "q < w" by linarith
  then show ?thesis
    using assms n(2) unfolding f by cases (auto simp: bit_simps n(1))
qed

lemma ext_init_row:
  assumes sh: "shape_ok h" and ei: "ei < g_n_extents h" and cv: "c < NCLASS"
  defines "k \<equiv> ext_init ei c h"
  shows "e_cls (g_ext k ! ei) = c \<and> e_used (g_ext k ! ei) \<and> e_nslots (g_ext k ! ei) = ext_nslots h c \<and>
      e_nfree (g_ext k ! ei) = ext_nslots h c \<and> e_hint (g_ext k ! ei) = 0"
    "j \<noteq> ei \<Longrightarrow> g_ext k ! j = g_ext h ! j"
    "e_next (g_ext k ! j) = e_next (g_ext h ! j)" "e_prev (g_ext k ! j) = e_prev (g_ext h ! j)"
    "length (g_ext k) = length (g_ext h)" "get_head hr k = get_head hr h"
    "ext_shift k = ext_shift h" "g_n_extents k = g_n_extents h"
    "g_extents_used k = g_extents_used h" "g_extents_peak k = g_extents_peak h" "g_slot_bytes k = g_slot_bytes h"
    "length (g_class_head k) = length (g_class_head h)" "length (g_extbm k) = length (g_extbm h)"
    "t < 64 * EXT_BMWORDS h \<Longrightarrow> slot_bit k j t = (if j = ei then ext_nslots h c \<le> t else slot_bit h j t)"
proof -
  define ku where "ku = upd_ext ei (\<lambda>e. e\<lparr>e_cls := u8 c, e_used := True,
                  e_nslots := u16 (ext_nslots h c), e_nfree := u16 (ext_nslots h c), e_hint := 0\<rparr>) h"
  have k: "k = fold (\<lambda>w. set_bm ei w (init_row_word (e_nslots (g_ext ku ! ei)) w)) [0..<EXT_BMWORDS ku] ku"
    by (simp add: k_def ext_init_def set_row_def Let_def flip: ku_def)
  note row = set_row_props [of ei "init_row_word (e_nslots (g_ext ku ! ei))" "[0..<EXT_BMWORDS ku]" ku, folded k]
  have eil: "ei < length (g_ext h)" using ei sh by (simp add: shape_ok_def)
  then show f: "e_cls (g_ext k ! ei) = c \<and> e_used (g_ext k ! ei) \<and> e_nslots (g_ext k ! ei) = ext_nslots h c \<and>
      e_nfree (g_ext k ! ei) = ext_nslots h c \<and> e_hint (g_ext k ! ei) = 0"
    using ext_nslots_bounds(3) [OF sh cv] cv by (simp add: row ku_def g_ext_upd_ext u16_small u8_small)
  show "g_ext k ! j = g_ext h ! j" if "j \<noteq> ei" using that by (simp add: row ku_def g_ext_upd_ext)
  show "e_next (g_ext k ! j) = e_next (g_ext h ! j)" "e_prev (g_ext k ! j) = e_prev (g_ext h ! j)"
    using eil by (cases "j = ei"; simp add: row ku_def g_ext_upd_ext)+
  show "get_head hr k = get_head hr h" by (cases hr) (simp_all add: row ku_def)
  have geo: "EXT_BMWORDS ku = EXT_BMWORDS h" by (rule geometry_cong) (simp add: ku_def)
  have shu: "shape_ok ku" using sh by (subst shape_ok_cong [where h = h]) (simp_all add: ku_def)
  have bmu: "bm_word ku = bm_word h" by (rule bm_word_cong) (simp_all add: ku_def)
  show "slot_bit k j t = (if j = ei then ext_nslots h c \<le> t else slot_bit h j t)" if "t < 64 * EXT_BMWORDS h"
  proof -
    have "t div 64 < EXT_BMWORDS h" using that by (simp add: less_mult_imp_div_less mult.commute)
    then have "bm_word k j (t div 64) = (if j = ei then init_row_word (ext_nslots h c) (t div 64) else bm_word h j (t div 64))"
      unfolding k by (subst bm_word_set_row) (use shu ei geo f bmu row(2) in \<open>auto simp: ku_def\<close>)
    then show ?thesis by (simp add: slot_bit_def init_row_bit)
  qed
qed (simp_all add: k_def ext_init_def set_row_def Let_def set_row_props)

text \<open>The extent taken off the free list and initialised, before it joins its class.\<close>

lemma commit_row:
  assumes core: "heap_core h" and cv: "c < NCLASS" and ei: "ei < g_n_extents h" "\<not> e_used (g_ext h ! ei)"
  defines "k2 \<equiv> ext_init ei c (lst_remove FreeHead ei h)"
  shows "elsewhere h k2 ei" "ext_ok k2 ei" "used_slots k2 ei = {}" "lists_are k2 (\<lambda>hr. members h hr - {ei})"
    "e_used (g_ext k2 ! ei)" "e_cls (g_ext k2 ! ei) = c" "0 < e_nfree (g_ext k2 ! ei)"
    "g_extents_used k2 = g_extents_used h" "g_extents_peak k2 = g_extents_peak h" "g_slot_bytes k2 = g_slot_bytes h" "length (g_ext k2) = length (g_ext h)"
proof -
  note cd = heap_coreD [OF core]
  define k1 where "k1 = lst_remove FreeHead ei h"
  have sh1: "shape_ok k1" using cd(1) by (subst shape_ok_cong [where h = h]) (simp_all add: k1_def)
  have "ei < g_n_extents k1" using ei(1) by (simp add: k1_def)
  note row = ext_init_row [OF sh1 this cv, folded k2_def [folded k1_def]]
  have geo1: "ext_nslots k1 c = ext_nslots h c" "EXT_BMWORDS k1 = EXT_BMWORDS h"
    by (rule geometry_cong, simp add: k1_def)+
  note eu = row(1) [unfolded geo1] and nsb = ext_nslots_bounds [OF cd(1) cv]
  then show "e_used (g_ext k2 ! ei)" "e_cls (g_ext k2 ! ei) = c" "0 < e_nfree (g_ext k2 ! ei)" by simp_all
  have bm1: "bm_word k1 = bm_word h" by (rule bm_word_cong) (simp_all add: k1_def)
  have bits: "slot_bit k2 j t = (if j = ei then ext_nslots h c \<le> t else slot_bit h j t)" if "t < 64 * EXT_BMWORDS h" for j t
    using row(14) [unfolded geo1, OF that, of j] by (simp add: slot_bit_def bm1)
  have "ecore (g_ext k2 ! j) = ecore (g_ext h ! j)" if "j \<noteq> ei" for j using that by (simp add: row(2) k1_def)
  then show els: "elsewhere h k2 ei"
    unfolding elsewhere_def using bits by auto (simp_all add: row(5,7,8,12,13) k1_def)
  show "used_slots k2 ei = {}" using bits nsb eu by (auto simp: used_slots_def)
  have "free_slots k2 ei = {..<ext_nslots h c}" using bits nsb eu by (auto simp: free_slots_def)
  then show "ext_ok k2 ei"
    using eu cv elsewhere_geometry [OF els] bits extent_grains(2) [OF cd(1)] by (auto simp: ext_ok_def Let_def)
  have "lists_are k1 (\<lambda>hr. members h hr - {ei})" unfolding k1_def using cd(3) ei by (intro lists_are_remove) auto
  then show "lists_are k2 (\<lambda>hr. members h hr - {ei})"
    by (intro lists_are_cong [where h' = k2 and h = k1]) (simp_all add: row(3-13))
  show "g_extents_used k2 = g_extents_used h" "g_extents_peak k2 = g_extents_peak h" "g_slot_bytes k2 = g_slot_bytes h" "length (g_ext k2) = length (g_ext h)"
    by (simp_all add: row(5,9-11) k1_def)
qed

lemma ext_commit_core:
  assumes core: "heap_core h" and cv: "c < NCLASS" and fh: "g_free_head h \<noteq> EXT_NONE"
  obtains ei h' where
    "ext_commit c h = (ei, h')" "ei \<in> members h' (ClassHead c)" "\<not> e_used (g_ext h ! ei)"
    "ei < g_n_extents h" "elsewhere h h' ei" "used_slots h' ei = {}" "heap_core h'"
    "g_slot_bytes h' = g_slot_bytes h" "ei = g_free_head h"
proof -
  note cd = heap_coreD [OF core]
  define ei where "ei = g_free_head h"
  have "ei \<in> members h FreeHead"
    using lists_are_head(1) [OF cd(3), of FreeHead] fh by (simp add: ei_def)
  then have ei: "ei < g_n_extents h" "\<not> e_used (g_ext h ! ei)" by auto
  define k2 where "k2 = ext_init ei c (lst_remove FreeHead ei h)"
  define k3 where "k3 = lst_push (ClassHead c) ei k2"
  define k4 where "k4 = k3\<lparr>g_extents_used := u32 (g_extents_used k3 + 1)\<rparr>"
  define k5 where "k5 = (if g_extents_used k4 > g_extents_peak k4
                then k4\<lparr>g_extents_peak := g_extents_used k4\<rparr> else k4)"
  note row = commit_row [OF core cv ei, folded k2_def]
  have ec: "ecore (g_ext k5 ! j) = ecore (g_ext k2 ! j)" for j by (simp add: k5_def k4_def k3_def)
  note f5 = ecore_eqD [OF ec]
  have same: "elsewhere k k5 ei \<longleftrightarrow> elsewhere k k2 ei" "ext_ok k5 ei \<longleftrightarrow> ext_ok k2 ei" "used_slots k5 ei = used_slots k2 ei" for k
    by (rule same_slots [OF ec]; simp add: k5_def k4_def k3_def)+
  have els: "elsewhere h k5 ei" and ok: "ext_ok k5 ei" using row(1,2) same by simp_all
  note geo = elsewhere_geometry [OF els]
  have meme: "ei \<in> members k5 hr \<longleftrightarrow> hr = ClassHead c" for hr using f5 [of ei] row(5-7) ei geo by (cases hr) auto
  have eil: "ei < length (g_ext k2)" using ei(1) cd(1) row(11) by (simp add: shape_ok_def)
  have "lists_are k3 (members k5)"
    unfolding k3_def by (rule lists_after_push [OF core els ei(1) eil _ row(4) meme]) (use cv in simp)
  moreover have "get_head hr k5 = get_head hr k3" for hr by (cases hr) (simp_all add: k5_def k4_def)
  ultimately have lists: "lists_are k5 (members k5)"
    by (intro lists_are_cong [where h' = k5 and h = k3]) (simp_all add: k5_def k4_def)
  have ue: "used_exts k5 = insert ei (used_exts h)" "ei \<notin> used_exts h"
    using elsewhere_used_exts [OF els cd(1,2)] f5 [of ei] row(5) ei geo by (auto simp: used_exts_def)
  have "card (used_exts k5) \<le> g_n_extents h"
    using card_mono [of "{..<g_n_extents h}" "used_exts k5"] geo by (auto simp: used_exts_def)
  moreover from this have "u32 (card (used_exts h) + 1) = card (used_exts k5)"
    using ue n_extents_bound [OF cd(1)] by (simp add: u32_small)
  moreover have "g_extents_used k5 = u32 (g_extents_used h + 1)"
      "g_extents_peak k5 = max (g_extents_peak h) (g_extents_used k5)" "g_slot_bytes k5 = g_slot_bytes h"
    by (simp_all add: k5_def k4_def k3_def row(8-10))
  ultimately have core5: "heap_core k5" "g_slot_bytes k5 = g_slot_bytes h"
    using heap_core_elsewhere [OF core els ok lists] cd(4-6) geo(5) by simp_all
  have "ext_commit c h = (ei, k5)"
    unfolding ext_commit_def Let_def ei_def [symmetric] k2_def [symmetric]
      k3_def [symmetric] k4_def [symmetric] k5_def [symmetric] by (rule refl)
  then show thesis
    using that [of ei k5] els row(3) same(3) ei meme [of "ClassHead c"] core5 ei_def by simp
qed

section \<open>The reservation map\<close>

lemma heap_map_eq:
  assumes "g div EXT_GRAINS h = ei" "ei < g_n_extents h"
  shows "heap_map h g =
    (if e_used (g_ext h ! ei) \<and> g mod EXT_GRAINS h mod (e_cls (g_ext h ! ei) + 1) = 0 \<and>
        g mod EXT_GRAINS h div (e_cls (g_ext h ! ei) + 1) \<in> used_slots h ei
     then Some (slot_size h ei) else None)"
  using assms by (simp add: heap_map_def Let_def)

lemma grain_eq_iff:
  assumes "shape_ok h" "c < NCLASS" "s < ext_nslots h c" "g div EXT_GRAINS h = ei"
  shows "g = ei * EXT_GRAINS h + s * (c + 1) \<longleftrightarrow>
    g mod EXT_GRAINS h mod (c + 1) = 0 \<and> g mod EXT_GRAINS h div (c + 1) = s"
proof
  assume "g = ei * EXT_GRAINS h + s * (c + 1)"
  then show "g mod EXT_GRAINS h mod (c + 1) = 0 \<and> g mod EXT_GRAINS h div (c + 1) = s"
    using grain_decode [OF assms(1-3)] by simp
next
  assume r: "g mod EXT_GRAINS h mod (c + 1) = 0 \<and> g mod EXT_GRAINS h div (c + 1) = s"
  have "g = g div EXT_GRAINS h * EXT_GRAINS h + g mod EXT_GRAINS h" by simp
  also have "g mod EXT_GRAINS h = s * (c + 1)"
    using r div_mult_mod_eq [of "g mod EXT_GRAINS h" "c + 1"] by simp
  finally show "g = ei * EXT_GRAINS h + s * (c + 1)" using assms(4) by simp
qed

lemma heap_map_SomeE:
  assumes "heap_core h" "heap_map h g = Some sb"
  obtains ei s c where "ei < g_n_extents h" "e_used (g_ext h ! ei)" "e_cls (g_ext h ! ei) = c"
    "c < NCLASS" "s \<in> used_slots h ei" "s < ext_nslots h c"
    "g = ei * EXT_GRAINS h + s * (c + 1)" "sb = (c + 1) * ALLOC_GRAIN" "ext_ok h ei"
proof -
  note cd = heap_coreD [OF assms(1)]
  let ?ei = "g div EXT_GRAINS h"
  let ?c = "e_cls (g_ext h ! ?ei)"
  let ?s = "g mod EXT_GRAINS h div (?c + 1)"
  from assms(2) have ei: "?ei < g_n_extents h" "e_used (g_ext h ! ?ei)" "g mod EXT_GRAINS h mod (?c + 1) = 0"
      "?s \<in> used_slots h ?ei" "sb = (?c + 1) * ALLOC_GRAIN"
    by (auto simp: heap_map_def Let_def slot_size_def split: if_splits)
  moreover from ei cd(2) have ok: "ext_ok h ?ei" by simp
  with ei have c: "?c < NCLASS" "?s < ext_nslots h ?c"
    by (auto simp: ext_ok_def Let_def used_slots_def)
  moreover from ei(3) have "g = ?ei * EXT_GRAINS h + ?s * (?c + 1)"
    using grain_eq_iff [OF cd(1) c refl] by simp
  ultimately show thesis using that ok by blast
qed

lemma heap_map_no_slots:
  assumes "g div EXT_GRAINS h = ei" "\<not> e_used (g_ext h ! ei) \<or> used_slots h ei = {}"
  shows "heap_map h g = None"
  using assms by (auto simp: heap_map_def Let_def)

text \<open>Changing one slot of one extent changes the map at one point.\<close>

lemma heap_map_flip:
  assumes core: "heap_core h" and els: "elsewhere h h' ei" and ei: "ei < g_n_extents h"
    and u: "e_used (g_ext h ! ei)" "e_used (g_ext h' ! ei)"
    and c: "e_cls (g_ext h ! ei) = c" "e_cls (g_ext h' ! ei) = c" "c < NCLASS" "s < ext_nslots h c"
    and S: "used_slots h' ei - {s} = used_slots h ei - {s}"
  shows "heap_map h' = (heap_map h)(ei * EXT_GRAINS h + s * (c + 1) :=
    (if s \<in> used_slots h' ei then Some ((c + 1) * ALLOC_GRAIN) else None))"
proof
  fix g
  let ?g = "ei * EXT_GRAINS h + s * (c + 1)"
  note cd = heap_coreD [OF core] and geo = elsewhere_geometry [OF els]
  show "heap_map h' g = ((heap_map h)(?g := (if s \<in> used_slots h' ei then Some ((c + 1) * ALLOC_GRAIN) else None))) g"
  proof (cases "g div EXT_GRAINS h = ei")
    case False
    then have "g \<noteq> ?g" using grain_decode(1) [OF cd(1) c(3,4)] by auto
    with False show ?thesis using elsewhere_heap_map [OF els cd(1,2)] by simp
  next
    case True
    let ?t = "g mod EXT_GRAINS h div (c + 1)"
    have m: "heap_map h' g = (if g mod EXT_GRAINS h mod (c + 1) = 0 \<and> ?t \<in> used_slots h' ei
        then Some ((c + 1) * ALLOC_GRAIN) else None)"
      "heap_map h g = (if g mod EXT_GRAINS h mod (c + 1) = 0 \<and> ?t \<in> used_slots h ei
        then Some ((c + 1) * ALLOC_GRAIN) else None)"
      using True ei u c geo heap_map_eq [of g h' ei] heap_map_eq [of g h ei]
      by (simp_all add: slot_size_def)
    have "?t \<noteq> s \<Longrightarrow> ?t \<in> used_slots h' ei \<longleftrightarrow> ?t \<in> used_slots h ei" using S by blast
    then show ?thesis
      using m grain_eq_iff [OF cd(1) c(3,4) True] by (cases "?t = s") auto
  qed
qed

lemma slots_partition: "card (free_slots h ei) + card (used_slots h ei) = e_nslots (g_ext h ! ei)"
proof -
  have "card (free_slots h ei) + card (used_slots h ei) = card (free_slots h ei \<union> used_slots h ei)"
    by (rule card_Un_disjoint [symmetric]) (auto simp: free_slots_def used_slots_def)
  also have "free_slots h ei \<union> used_slots h ei = {..<e_nslots (g_ext h ! ei)}"
    by (auto simp: free_slots_def used_slots_def)
  finally show ?thesis by simp
qed

section \<open>Allocation\<close>

text \<open>The byte counter is read by nothing but the invariant's clause about it.\<close>

lemma slot_bytes_update:
  fixes h v
  defines "h' \<equiv> h\<lparr>g_slot_bytes := v\<rparr>"
  shows "heap_core h' = heap_core h" "heap_bytes h' = heap_bytes h" "used_exts h' = used_exts h"
    "used_slots h' = used_slots h" "heap_map h' = heap_map h"
proof -
  have g: "g_ext h' = g_ext h" "g_n_extents h' = g_n_extents h" "g_extents_used h' = g_extents_used h"
      "g_extents_peak h' = g_extents_peak h"
    by (simp_all add: h'_def)
  have geo: "ext_nslots h' c = ext_nslots h c" "EXT_BMWORDS h' = EXT_BMWORDS h"
      "EXT_GRAINS h' = EXT_GRAINS h" for c
    by (rule geometry_cong, simp add: h'_def)+
  have sb: "slot_bit h' = slot_bit h"
    unfolding slot_bit_def using bm_word_cong [of h' h] by (simp add: h'_def fun_eq_iff)
  then show us: "used_slots h' = used_slots h" and ue: "used_exts h' = used_exts h"
    by (simp_all add: used_slots_def used_exts_def fun_eq_iff g)
  have fs: "free_slots h' = free_slots h" by (simp add: free_slots_def fun_eq_iff g sb)
  have mem: "members h' hr = members h hr" for hr by (cases hr) (simp_all add: g)
  have "get_head hr h' = get_head hr h" for hr by (cases hr) (simp_all add: h'_def)
  then have "linked h' L = linked h L" for L by (intro linked_cong) (simp_all add: h'_def)
  then have "lists_are h' (members h') = lists_are h (members h)" by (simp add: lists_are_def mem)
  moreover have "ext_ok h' j = ext_ok h j" for j
    by (simp add: ext_ok_def g geo fs sb)
  moreover have "shape_ok h' = shape_ok h" by (rule shape_ok_cong) (simp_all add: h'_def)
  ultimately show "heap_core h' = heap_core h" by (simp add: heap_core_def g ue)
  have sz: "slot_size h' j = slot_size h j" for j by (simp add: slot_size_def g)
  then have "ext_bytes h' j = ext_bytes h j" for j by (simp add: ext_bytes_def us g)
  then show "heap_bytes h' = heap_bytes h" by (simp add: heap_bytes_def g)
  show "heap_map h' = heap_map h" by (simp add: heap_map_def fun_eq_iff Let_def us g geo sz)
qed

lemma heap_inv_slot_bytes:
  assumes "heap_core h" "v = heap_bytes h" "\<And>j. j \<in> used_exts h \<Longrightarrow> used_slots h j \<noteq> {}"
  shows "heap_inv (h\<lparr>g_slot_bytes := v\<rparr>)"
  using assms by (simp add: heap_inv_def slot_bytes_update)

text \<open>Whatever extent is chosen, taking a slot from it is one insertion.\<close>

lemma take_step:
  assumes core: "heap_core h" and m: "ei \<in> members h (ClassHead c)" and cv: "c < NCLASS"
    and bytes: "g_slot_bytes h = heap_bytes h"
    and busy: "\<forall>j \<in> used_exts h - {ei}. used_slots h j \<noteq> {}"
  obtains g h' where "ext_take ei h = (g, h')" "g < 2 ^ 30" "heap_map h g = None"
    "heap_map h' = (heap_map h)(g \<mapsto> (c + 1) * ALLOC_GRAIN)"
    "heap_inv (h'\<lparr>g_slot_bytes := u64 (g_slot_bytes h' + (c + 1) * ALLOC_GRAIN)\<rparr>)"
    "e_cls (g_ext h' ! ei) = c" "g + (c + 1) \<le> g_n_extents h * EXT_GRAINS h"
    "ext_shift h' = ext_shift h" "g_n_extents h' = g_n_extents h"
proof -
  note cd = heap_coreD [OF core]
  obtain s h' where tk: "ext_take ei h = (ei * EXT_GRAINS h + s * (c + 1), h')"
    and s: "s \<in> free_slots h ei" and els: "elsewhere h h' ei"
    and e': "e_used (g_ext h' ! ei)" "e_cls (g_ext h' ! ei) = c"
    and us: "used_slots h' ei = insert s (used_slots h ei)" and core': "heap_core h'"
    and sb: "g_slot_bytes h' = g_slot_bytes h"
    using ext_take_core [OF core m cv] by metis
  from m have ei: "ei < g_n_extents h" "e_used (g_ext h ! ei)" "e_cls (g_ext h ! ei) = c" by auto
  with cd(2) have "e_nslots (g_ext h ! ei) = ext_nslots h c" by (auto simp: ext_ok_def Let_def)
  with s have sn: "s < ext_nslots h c" "s \<notin> used_slots h ei"
    by (auto simp: free_slots_def used_slots_def)
  let ?g = "ei * EXT_GRAINS h + s * (c + 1)" and ?z = "(c + 1) * ALLOC_GRAIN"
  have map': "heap_map h' = (heap_map h)(?g \<mapsto> ?z)"
    using heap_map_flip [OF core els ei(1,2) e'(1) ei(3) e'(2) cv sn(1)] us by simp
  have "heap_map h ?g = None"
    using heap_map_eq [OF grain_decode(1) [OF cd(1) cv sn(1)] ei(1)] ei sn(2)
      grain_decode [OF cd(1) cv sn(1)] by simp
  moreover have "heap_bytes h' = heap_bytes h + ?z"
    using elsewhere_bytes [OF els cd(1,2) ei(1)] ei e' us sn(2)
    by (simp add: ext_bytes_def slot_size_def)
  moreover have "heap_bytes h' < 2 ^ 36"
    using heap_bytes_bound heap_coreD(1,2) [OF core'] by blast
  moreover have "used_slots h' j \<noteq> {}" if "j \<in> used_exts h'" for j
  proof (cases "j = ei")
    case False
    then have "j \<in> used_exts h - {ei}" using that elsewhere_used_exts [OF els cd(1,2)] by blast
    moreover from this have "used_slots h' j = used_slots h j"
      using elsewhere_ext(6) [OF els cd(1)] cd(2) by (auto simp: used_exts_def)
    ultimately show ?thesis using busy by auto
  qed (simp add: us)
  ultimately have "heap_inv (h'\<lparr>g_slot_bytes := u64 (g_slot_bytes h' + ?z)\<rparr>)"
    using heap_inv_slot_bytes [OF core'] bytes sb by (simp add: u64_small)
  then show thesis
    using that tk map' \<open>heap_map h ?g = None\<close> e'(2) grain_bound [OF cd(1) ei(1) cv sn(1)] els
    by (auto simp: elsewhere_def)
qed

definition heap_exhausted :: "heap \<Rightarrow> nat \<Rightarrow> bool" where
  "heap_exhausted h nbytes \<longleftrightarrow>
     (\<forall>ei < g_n_extents h. e_used (g_ext h ! ei) \<and>
        (nbytes \<le> slot_size h ei \<longrightarrow> free_slots h ei = {}))"

text \<open>A fresh extent changes no reservation.\<close>

lemma commit_step:
  assumes inv: "heap_inv h" and cv: "c < NCLASS" and fh: "g_free_head h \<noteq> EXT_NONE"
  obtains h1 where "ext_commit c h = (g_free_head h, h1)" "g_free_head h \<in> members h1 (ClassHead c)" "heap_core h1"
    "g_slot_bytes h1 = heap_bytes h1" "\<forall>j \<in> used_exts h1 - {g_free_head h}. used_slots h1 j \<noteq> {}"
    "heap_map h1 = heap_map h" "ext_shift h1 = ext_shift h" "g_n_extents h1 = g_n_extents h"
proof -
  from inv have core: "heap_core h" and bytes: "g_slot_bytes h = heap_bytes h"
    and busy: "\<forall>ei \<in> used_exts h. used_slots h ei \<noteq> {}" by (auto simp: heap_inv_def)
  note cd = heap_coreD [OF core]
  obtain ei h1 where cm: "ext_commit c h = (ei, h1)" and m: "ei \<in> members h1 (ClassHead c)"
    and fr: "\<not> e_used (g_ext h ! ei)" "ei < g_n_extents h" and els: "elsewhere h h1 ei"
    and us: "used_slots h1 ei = {}" and core1: "heap_core h1"
    and sb: "g_slot_bytes h1 = g_slot_bytes h" and eh: "ei = g_free_head h"
    using ext_commit_core [OF core cv fh] by metis
  have "heap_map h1 g = heap_map h g" for g
    using elsewhere_heap_map [OF els cd(1,2)] heap_map_no_slots [of g h ei] heap_map_no_slots [of g h1 ei]
      fr us elsewhere_geometry(2) [OF els] by (cases "g div EXT_GRAINS h = ei") auto
  then have map1: "heap_map h1 = heap_map h" by blast
  have b1: "g_slot_bytes h1 = heap_bytes h1"
    using elsewhere_bytes [OF els cd(1,2) fr(2)] fr us sb bytes by (simp add: ext_bytes_def)
  have busy1: "used_slots h1 j \<noteq> {}" if "j \<in> used_exts h1 - {ei}" for j
  proof -
    have j: "j \<in> used_exts h - {ei}" using that elsewhere_used_exts [OF els cd(1,2)] by simp
    then have "used_slots h1 j = used_slots h j"
      using elsewhere_ext(6) [OF els cd(1)] cd(2) by (auto simp: used_exts_def)
    with j busy show ?thesis by auto
  qed
  show thesis
    by (rule that [of h1]) (use cm m core1 b1 busy1 map1 els in \<open>auto simp: eh elsewhere_def simp del: members.simps\<close>)
qed

text \<open>The choice of the extent: own class, else a fresh extent, else the next larger class.\<close>

lemma slot_alloc_choice:
  assumes inv: "heap_inv h" and nb: "1 \<le> nbytes" "nbytes \<le> 4096"
  defines "c \<equiv> (nbytes - 1) div ALLOC_GRAIN"
  obtains
    (room) ei d h1 where
      "slot_alloc nbytes h =
         (let (grain, h2) = ext_take ei h1
          in if grain \<noteq> SLOT_NONE
             then (let sb = u32 ((e_cls (g_ext h2 ! ei) + 1) * ALLOC_GRAIN)
                   in (grain, sb, h2\<lparr>g_slot_bytes := u64 (g_slot_bytes h2 + sb)\<rparr>))
             else (SLOT_NONE, 0, h2))"
      "heap_core h1" "ei \<in> members h1 (ClassHead d)" "c \<le> d" "d < NCLASS"
      "g_slot_bytes h1 = heap_bytes h1" "\<forall>j \<in> used_exts h1 - {ei}. used_slots h1 j \<noteq> {}"
      "heap_map h1 = heap_map h" "ext_shift h1 = ext_shift h" "g_n_extents h1 = g_n_extents h"
  | (full) "slot_alloc nbytes h = (SLOT_NONE, 0, h)" "members h FreeHead = {}"
      "\<forall>d. c \<le> d \<longrightarrow> d < NCLASS \<longrightarrow> members h (ClassHead d) = {}"
proof -
  from inv have core: "heap_core h" and bytes: "g_slot_bytes h = heap_bytes h"
    and busy: "\<forall>ei \<in> used_exts h. used_slots h ei \<noteq> {}" by (auto simp: heap_inv_def)
  note cd = heap_coreD [OF core]
  have cv: "c < NCLASS" using nb by (simp add: c_def ALLOC_GRAIN_def)
  have cdef: "sub32 nbytes 1 div ALLOC_GRAIN = c"
    unfolding c_def using nb by (subst sub32_exact) simp_all
  note alloc = slot_alloc_def [of nbytes h, unfolded cdef]
  consider (own) "g_class_head h ! c \<noteq> EXT_NONE"
    | (fresh) "g_class_head h ! c = EXT_NONE" "g_free_head h \<noteq> EXT_NONE"
    | (none) "g_class_head h ! c = EXT_NONE" "g_free_head h = EXT_NONE" by blast
  then show thesis
  proof cases
    case own
    then have "g_class_head h ! c \<in> members h (ClassHead c)"
      using lists_are_head(1) [OF cd(3), of "ClassHead c"] cv by simp
    then show thesis
      using own core cv bytes busy
      by (intro room [of "g_class_head h ! c" h c]) (simp_all add: alloc Let_def)
  next
    case fresh
    obtain h1 where "ext_commit c h = (g_free_head h, h1)" "g_free_head h \<in> members h1 (ClassHead c)" "heap_core h1"
      "g_slot_bytes h1 = heap_bytes h1" "\<forall>j \<in> used_exts h1 - {g_free_head h}. used_slots h1 j \<noteq> {}"
      "heap_map h1 = heap_map h" "ext_shift h1 = ext_shift h" "g_n_extents h1 = g_n_extents h"
      by (rule commit_step [OF inv cv fresh(2)])
    then show thesis
      using fresh cv by (intro room [of "g_free_head h" h1 c]) (simp_all add: alloc Let_def)
  next
    case none
    have free: "members h FreeHead = {}"
      using lists_are_head(2) [OF cd(3), of FreeHead] none(2) by simp
    have own: "members h (ClassHead c) = {}"
      using lists_are_head(2) [OF cd(3), of "ClassHead c"] none(1) cv by simp
    let ?P = "\<lambda>d. g_class_head h ! d \<noteq> EXT_NONE"
    show thesis
    proof (cases "List.find ?P [c + 1..<NCLASS]")
      case None
      have "members h (ClassHead d) = {}" if "c \<le> d" "d < NCLASS" for d
      proof (cases "d = c")
        case False
        with that None have "g_class_head h ! d = EXT_NONE" by (auto simp: find_None_iff)
        then show ?thesis using lists_are_head(2) [OF cd(3), of "ClassHead d"] that by simp
      qed (use own in simp)
      then show thesis using none None free by (intro full) (simp_all add: alloc Let_def)
    next
      case (Some d)
      then have d: "?P d" "c \<le> d" "d < NCLASS" by (auto simp: find_Some_iff nth_append)
      then have "g_class_head h ! d \<in> members h (ClassHead d)"
        using lists_are_head(1) [OF cd(3), of "ClassHead d"] by simp
      then show thesis
        using none Some d core bytes busy
        by (intro room [of "g_class_head h ! d" h d])
          (simp_all add: alloc Let_def cong: if_cong prod.case_cong)
    qed
  qed
qed

lemma slot_alloc_success:
  assumes inv: "heap_inv h" and nb: "1 \<le> nbytes" "nbytes \<le> 4096"
    and al: "slot_alloc nbytes h = (g, sb, h')" and g: "g \<noteq> SLOT_NONE"
  shows "heap_inv h' \<and> heap_map h g = None \<and> heap_map h' = (heap_map h)(g \<mapsto> sb) \<and>
    nbytes \<le> sb \<and> sb \<le> 4096 \<and> g * ALLOC_GRAIN + sb \<le> g_n_extents h * EXTENT_SIZE h \<and> g < 2 ^ 30 \<and>
    ext_shift h' = ext_shift h \<and> g_n_extents h' = g_n_extents h"
  using inv nb
proof (cases rule: slot_alloc_choice)
  case (room ei d h1)
  obtain g' h2 where tk: "ext_take ei h1 = (g', h2)" "g' < 2 ^ 30" "heap_map h1 g' = None"
    "heap_map h2 = (heap_map h1)(g' \<mapsto> (d + 1) * ALLOC_GRAIN)"
    "heap_inv (h2\<lparr>g_slot_bytes := u64 (g_slot_bytes h2 + (d + 1) * ALLOC_GRAIN)\<rparr>)"
    "e_cls (g_ext h2 ! ei) = d" "g' + (d + 1) \<le> g_n_extents h1 * EXT_GRAINS h1"
    "ext_shift h2 = ext_shift h1" "g_n_extents h2 = g_n_extents h1"
    using take_step [OF room(2,3,5,6,7)] by metis
  have "u32 ((d + 1) * ALLOC_GRAIN) = (d + 1) * ALLOC_GRAIN"
    using room(5) by (simp add: ALLOC_GRAIN_def u32_small)
  with room(1) tk al have r: "g = g'" "sb = (d + 1) * ALLOC_GRAIN"
      "h' = h2\<lparr>g_slot_bytes := u64 (g_slot_bytes h2 + sb)\<rparr>"
    by (auto simp: Let_def SLOT_NONE_def split: if_splits)
  have "nbytes = 64 * ((nbytes - 1) div 64) + (nbytes - 1) mod 64 + 1" using nb by simp
  moreover have "(nbytes - 1) mod 64 < 64" by simp
  ultimately have "nbytes \<le> 64 * ((nbytes - 1) div 64) + 64" by linarith
  then have "nbytes \<le> sb" using room(4) by (simp add: r ALLOC_GRAIN_def)
  moreover have "sb \<le> 4096" using room(5) by (simp add: r ALLOC_GRAIN_def)
  moreover have "EXTENT_SIZE h = 64 * EXT_GRAINS h1"
    using extent_grains(5) [OF heap_coreD(1) [OF room(2)]] room(9) by (simp add: EXTENT_SIZE_def)
  then have "g * ALLOC_GRAIN + sb \<le> g_n_extents h * EXTENT_SIZE h"
    using mult_le_mono2 [OF tk(7), of 64] room(10) by (simp add: r ALLOC_GRAIN_def algebra_simps)
  ultimately show ?thesis
    using tk r room by (simp add: slot_bytes_update)
qed (use al g in simp)

lemma slot_alloc_failure:
  assumes inv: "heap_inv h" and nb: "1 \<le> nbytes" "nbytes \<le> 4096"
    and al: "slot_alloc nbytes h = (SLOT_NONE, sb, h')"
  shows "h' = h" "heap_exhausted h nbytes"
proof -
  have "h' = h \<and> members h FreeHead = {} \<and>
      (\<forall>d. (nbytes - 1) div ALLOC_GRAIN \<le> d \<longrightarrow> d < NCLASS \<longrightarrow> members h (ClassHead d) = {})"
    using inv nb
  proof (cases rule: slot_alloc_choice)
    case (room ei d h1)
    obtain g' h2 where "ext_take ei h1 = (g', h2)" "g' < 2 ^ 30"
      using take_step [OF room(2,3,5,6,7)] by metis
    with room(1) al have False by (auto simp: Let_def SLOT_NONE_def split: if_splits)
    then show ?thesis ..
  qed (use al in auto)
  then have h: "h' = h" and fr: "members h FreeHead = {}"
    and cl: "\<And>d. (nbytes - 1) div ALLOC_GRAIN \<le> d \<Longrightarrow> d < NCLASS \<Longrightarrow> members h (ClassHead d) = {}"
    by blast+
  show "h' = h" by (rule h)
  show "heap_exhausted h nbytes"
    unfolding heap_exhausted_def
  proof (intro allI impI conjI)
    fix ei assume ei: "ei < g_n_extents h"
    with fr show u: "e_used (g_ext h ! ei)" by auto
    assume le: "nbytes \<le> slot_size h ei"
    from inv ei u have e: "e_cls (g_ext h ! ei) < NCLASS" "e_nfree (g_ext h ! ei) = card (free_slots h ei)"
      by (auto simp: heap_inv_def heap_core_def ext_ok_def Let_def)
    have "(nbytes - 1) div ALLOC_GRAIN \<le> e_cls (g_ext h ! ei)"
      using le nb less_mult_imp_div_less [of "nbytes - 1" "e_cls (g_ext h ! ei) + 1" 64]
      by (simp add: slot_size_def ALLOC_GRAIN_def)
    with cl e(1) have "ei \<notin> members h (ClassHead (e_cls (g_ext h ! ei)))" by blast
    with ei u e(2) show "free_slots h ei = {}" by simp
  qed
qed

section \<open>Release\<close>

text \<open>Clearing one bit of an extent's row, before the lists are looked at.\<close>

lemma free_bit_row:
  assumes core: "heap_core h" and ei: "ei < g_n_extents h" "e_used (g_ext h ! ei)" "e_cls (g_ext h ! ei) = c"
    and s: "s \<in> used_slots h ei"
  defines "h' \<equiv> free_bit ei s c h"
  shows "elsewhere h h' ei" "e_used (g_ext h' ! ei)" "e_cls (g_ext h' ! ei) = c"
    "e_nslots (g_ext h' ! ei) = ext_nslots h c" "e_nfree (g_ext h' ! ei) = e_nfree (g_ext h ! ei) + 1"
    "used_slots h' ei = used_slots h ei - {s}" "ext_ok h' ei"
proof -
  note cd = heap_coreD [OF core] and uf = used_ext_facts [OF core ei] and ns = used_ext_facts(3) [OF core ei]
    and tail = used_ext_facts(6) [OF core ei]
  note nsb = ext_nslots_bounds [OF cd(1) uf(2)]
  from s ns have sn: "s < ext_nslots h c" "slot_bit h ei s" by (auto simp: used_slots_def)
  with nsb(2) have s64: "s < 64 * EXT_BMWORDS h" by simp
  then have sw: "s div 64 < EXT_BMWORDS h" by (simp add: less_mult_imp_div_less mult.commute)
  define h1 where "h1 = set_bm ei (s div 64) (bm_word h ei (s div 64) AND NOT (push_bit (s mod 64) 1)) h"
  define h2 where "h2 = (if e_nfree (g_ext h1 ! ei) = 0 then lst_push (ClassHead c) ei h1 else h1)"
  have e2: "ecore (g_ext h2 ! j) = ecore (g_ext h ! j)" "length (g_ext h2) = length (g_ext h)" for j
    by (simp_all add: h2_def h1_def)
  note f2 = ecore_eqD [OF e2(1)] and h' = free_bit_def [of ei s c h, unfolded Let_def, folded h'_def h1_def, folded h2_def]
  have "s \<notin> free_slots h ei" using sn by (simp add: free_slots_def)
  then have nfc: "card (insert s (free_slots h ei)) = e_nfree (g_ext h ! ei) + 1" by (simp add: uf(4))
  have "card (insert s (free_slots h ei)) \<le> card {..<ext_nslots h c}"
    by (rule card_mono) (use sn ns in \<open>auto simp: free_slots_def\<close>)
  with nfc nsb(3) have nf16: "u16 (e_nfree (g_ext h ! ei) + 1) = e_nfree (g_ext h ! ei) + 1" by (simp add: u16_small)
  have w16: "u16 (s div 64) = s div 64" using sw extent_grains(3) [OF cd(1)] by (simp add: u16_small)
  have f': "e_nfree (g_ext h' ! ei) = e_nfree (g_ext h ! ei) + 1 \<and> e_nslots (g_ext h' ! ei) = ext_nslots h c \<and>
      e_cls (g_ext h' ! ei) = c \<and> e_used (g_ext h' ! ei) \<and> e_hint (g_ext h' ! ei) < EXT_BMWORDS h"
    using uf(1,5) f2 [of ei] ei ns nf16 w16 sw by (auto simp: h' g_ext_upd_ext e2(2))
  then show fs: "e_used (g_ext h' ! ei)" "e_cls (g_ext h' ! ei) = c" "e_nslots (g_ext h' ! ei) = ext_nslots h c"
    "e_nfree (g_ext h' ! ei) = e_nfree (g_ext h ! ei) + 1" by simp_all
  have bm': "bm_word h' = bm_word h1" by (rule bm_word_cong) (simp_all add: h' h2_def)
  have "slot_bit h1 j t = (if j = ei \<and> t = s then False else slot_bit h j t)" if t: "t < 64 * EXT_BMWORDS h" for j t
    unfolding h1_def by (rule slot_bit_set_bm [OF cd(1) ei(1) s64 t]) (auto simp: bit_simps)
  with bm' have bits: "slot_bit h' j t = (if j = ei \<and> t = s then False else slot_bit h j t)"
    if "t < 64 * EXT_BMWORDS h" for j t using that by (simp add: slot_bit_def)
  show els: "elsewhere h h' ei"
    unfolding elsewhere_def using bits e2 by (auto simp: h' g_ext_upd_ext) (simp_all add: h2_def h1_def)
  show "used_slots h' ei = used_slots h ei - {s}"
    using bits fs ns nsb(2) by (auto simp: used_slots_def split: if_splits)
  have "free_slots h' ei = insert s (free_slots h ei)"
    using bits fs ns nsb(2) sn by (auto simp: free_slots_def split: if_splits)
  then show "ext_ok h' ei"
    using f' nfc uf(2) elsewhere_geometry [OF els] bits tail sn(1) by (auto simp: ext_ok_def Let_def)
qed

lemma free_bit_core:
  assumes core: "heap_core h" and ei: "ei < g_n_extents h" "e_used (g_ext h ! ei)" "e_cls (g_ext h ! ei) = c"
    and s: "s \<in> used_slots h ei"
  defines "h' \<equiv> free_bit ei s c h"
  shows "heap_core h'" "g_slot_bytes h' = g_slot_bytes h"
proof -
  note cd = heap_coreD [OF core] and uf = used_ext_facts [OF core ei] and fb = free_bit_row [OF core ei s, folded h'_def]
  note els = fb(1) and geo = elsewhere_geometry [OF fb(1)]
  define h1 where "h1 = set_bm ei (s div 64) (bm_word h ei (s div 64) AND NOT (push_bit (s mod 64) 1)) h"
  define h2 where "h2 = (if e_nfree (g_ext h1 ! ei) = 0 then lst_push (ClassHead c) ei h1 else h1)"
  note h' = free_bit_def [of ei s c h, unfolded Let_def, folded h'_def h1_def, folded h2_def]
  have meme: "ei \<in> members h' hr \<longleftrightarrow> hr = ClassHead c" for hr
    using fb ei geo(5) by (cases hr) auto
  have l1: "lists_are h1 (members h)" by (rule lists_are_cong [OF _ _ _ _ _ cd(3)]) (simp_all add: h1_def)
  have "lists_are h2 (members h')"
  proof (cases "e_nfree (g_ext h ! ei) = 0")
    case True
    have "members h hr - {ei} = members h hr" for hr using True ei by (cases hr) auto
    then have "lists_are h1 (\<lambda>hr. members h hr - {ei})" using l1 by simp
    then show ?thesis
      using lists_after_push [OF core els ei(1) _ _ _ meme, of h1] True uf(1,2) by (simp add: h2_def h1_def)
  next
    case False
    have "ei \<in> members h hr \<longleftrightarrow> hr = ClassHead c" for hr using False ei by (cases hr) auto
    then have "members h' hr = members h hr" for hr using elsewhere_members [OF els cd(1,2), of hr] meme [of hr] by blast
    then show ?thesis using l1 False by (simp add: lists_are_def h2_def h1_def)
  qed
  moreover have "ei < length (g_ext h2)" using uf(1) by (simp add: h2_def h1_def)
  then have "e_next (g_ext h' ! i) = e_next (g_ext h2 ! i) \<and> e_prev (g_ext h' ! i) = e_prev (g_ext h2 ! i)" for i
    by (cases "i = ei") (auto simp: h' g_ext_upd_ext)
  moreover have "get_head hr h' = get_head hr h2" for hr by (simp add: h')
  ultimately have lists: "lists_are h' (members h')"
    by (intro lists_are_cong [where h' = h' and h = h2]) (simp_all add: h')
  have "used_exts h' = used_exts h"
    using elsewhere_used_exts [OF els cd(1,2)] fb(2) ei geo by (auto simp: used_exts_def)
  then show "heap_core h'"
    using heap_core_elsewhere [OF core els fb(7) lists] cd(4-6) by (simp add: h' h2_def h1_def)
  show "g_slot_bytes h' = g_slot_bytes h" by (simp add: h' h2_def h1_def)
qed

lemma ext_recycle_core:
  assumes core: "heap_core h" and ei: "ei < g_n_extents h" "e_used (g_ext h ! ei)" "e_cls (g_ext h ! ei) = c"
    and nf: "0 < e_nfree (g_ext h ! ei)"
  defines "h' \<equiv> ext_recycle ei c h"
  shows "heap_core h'" "elsewhere h h' ei" "\<not> e_used (g_ext h' ! ei)" "g_slot_bytes h' = g_slot_bytes h"
proof -
  note cd = heap_coreD [OF core]
  from cd(2) ei have cv: "c < NCLASS" by (auto simp: ext_ok_def Let_def)
  have eil: "ei < length (g_ext h)" using ei(1) cd(1) by (simp add: shape_ok_def)
  define k1 where "k1 = lst_remove (ClassHead c) ei h"
  define k2 where "k2 = upd_ext ei (\<lambda>e. e\<lparr>e_used := False\<rparr>) k1"
  define k3 where "k3 = lst_push FreeHead ei k2"
  have h': "h' = k3\<lparr>g_extents_used := sub32 (g_extents_used k3) 1\<rparr>"
    unfolding h'_def ext_recycle_def Let_def k1_def [symmetric] k2_def [symmetric] k3_def [symmetric] ..
  have eil1: "ei < length (g_ext k1)" using eil by (simp add: k1_def)
  have e': "ecore (g_ext h' ! j) = ecore (g_ext k2 ! j)" for j by (simp add: h' k3_def)
  show u': "\<not> e_used (g_ext h' ! ei)"
    using ecore_eqD(4) [OF e' [of ei]] eil1 by (simp add: k2_def g_ext_upd_ext)
  have bm': "bm_word h' = bm_word h" by (rule bm_word_cong) (simp_all add: h' k3_def k2_def k1_def)
  have ej: "ecore (g_ext h' ! j) = ecore (g_ext h ! j)" if "j \<noteq> ei" for j
    using e' [of j] that by (simp add: k2_def g_ext_upd_ext) (simp add: k1_def)
  show els: "elsewhere h h' ei"
    unfolding elsewhere_def using ej by (auto simp: slot_bit_def bm') (simp_all add: h' k3_def k2_def k1_def)
  note geo = elsewhere_geometry [OF els]
  have ok: "ext_ok h' ei" using u' by (simp add: ext_ok_def Let_def)
  have meme: "ei \<in> members h' hr \<longleftrightarrow> hr = FreeHead" for hr
    using u' ei geo(5) by (cases hr) auto
  have "lists_are k1 (\<lambda>hr. members h hr - {ei})"
    unfolding k1_def using cd(3) ei nf cv by (intro lists_are_remove) auto
  moreover have "e_next (g_ext k2 ! i) = e_next (g_ext k1 ! i) \<and> e_prev (g_ext k2 ! i) = e_prev (g_ext k1 ! i)" for i
    using eil1 by (cases "i = ei") (simp_all add: k2_def g_ext_upd_ext)
  ultimately have l2: "lists_are k2 (\<lambda>hr. members h hr - {ei})"
    by (intro lists_are_cong [where h' = k2 and h = k1]) (simp_all add: k2_def del: members.simps)
  have "lists_are k3 (members h')"
    unfolding k3_def by (rule lists_after_push [OF core els ei(1) _ _ l2 meme]) (use eil1 in \<open>simp_all add: k2_def\<close>)
  moreover have "get_head hr h' = get_head hr k3" for hr by (cases hr) (simp_all add: h')
  ultimately have lists: "lists_are h' (members h')"
    by (intro lists_are_cong [where h' = h' and h = k3]) (simp_all add: h')
  have ue: "used_exts h' = used_exts h - {ei}" "ei \<in> used_exts h"
    using elsewhere_used_exts [OF els cd(1,2)] u' ei by (auto simp: used_exts_def)
  have card: "0 < card (used_exts h)" using ue(2) by (metis card_gt_0_iff empty_iff finite_used_exts)
  have "card (used_exts h) < 2 ^ 32" using cd(4-6) n_extents_bound [OF cd(1)] by simp
  with card have "g_extents_used h' = card (used_exts h')" "g_extents_used h' \<le> g_extents_used h"
    using cd(4) ue by (simp_all add: h' k3_def k2_def k1_def sub32_exact)
  then show "heap_core h'"
    using heap_core_elsewhere [OF core els ok lists] cd(4-6) by (simp add: h' k3_def k2_def k1_def)
  show "g_slot_bytes h' = g_slot_bytes h" by (simp add: h' k3_def k2_def k1_def)
qed

text \<open>
  What a release does after the bit is cleared: an extent without reservations goes back to the free list,
  and no reservation changes.
\<close>

lemma recycle_if_empty:
  assumes core: "heap_core k" and ei: "ei < g_n_extents k" "e_used (g_ext k ! ei)" "e_cls (g_ext k ! ei) = c"
    and nf: "0 < e_nfree (g_ext k ! ei)"
  defines "k' \<equiv> if e_nfree (g_ext k ! ei) = e_nslots (g_ext k ! ei) then ext_recycle ei c k else k"
  shows "heap_core k'" "elsewhere k k' ei" "g_slot_bytes k' = g_slot_bytes k" "heap_map k' = heap_map k"
    "ext_bytes k' ei = ext_bytes k ei" "ei \<in> used_exts k' \<Longrightarrow> used_slots k' ei \<noteq> {}"
proof -
  note kd = heap_coreD [OF core]
  have empty: "e_nfree (g_ext k ! ei) = e_nslots (g_ext k ! ei) \<longleftrightarrow> used_slots k ei = {}"
    using slots_partition [of k ei] used_ext_facts(4) [OF core ei]
    by (metis add_cancel_left_right card_0_eq finite_slots(2))
  have "heap_core k' \<and> elsewhere k k' ei \<and> g_slot_bytes k' = g_slot_bytes k \<and> heap_map k' = heap_map k \<and>
      ext_bytes k' ei = ext_bytes k ei \<and> (ei \<in> used_exts k' \<longrightarrow> used_slots k' ei \<noteq> {})"
  proof (cases "used_slots k ei = {}")
    case True
    then have k': "k' = ext_recycle ei c k" using empty by (simp add: k'_def)
    note rc = ext_recycle_core [OF core ei nf, folded k']
    have "heap_map k' x = heap_map k x" for x
    proof (cases "x div EXT_GRAINS k = ei")
      case True
      then show ?thesis
        using heap_map_no_slots [of x k ei] heap_map_no_slots [of x k' ei] \<open>used_slots k ei = {}\<close> rc(3)
          elsewhere_geometry(2) [OF rc(2)] by simp
    qed (use elsewhere_heap_map [OF rc(2) kd(1,2)] in simp)
    then show ?thesis using rc True by (auto simp: ext_bytes_def used_exts_def)
  next
    case False
    then have "k' = k" using empty by (simp add: k'_def)
    then show ?thesis using False core by (simp add: elsewhere_def)
  qed
  then show "heap_core k'" "elsewhere k k' ei" "g_slot_bytes k' = g_slot_bytes k" "heap_map k' = heap_map k"
    "ext_bytes k' ei = ext_bytes k ei" "ei \<in> used_exts k' \<Longrightarrow> used_slots k' ei \<noteq> {}" by simp_all
qed

lemma slot_free_success:
  assumes inv: "heap_inv h" and live: "heap_map h g = Some sb"
    and fr: "slot_free g h = (r, h')"
  shows "r = sb \<and> heap_inv h' \<and> heap_map h' = (heap_map h)(g := None) \<and>
    ext_shift h' = ext_shift h \<and> g_n_extents h' = g_n_extents h"
proof -
  from inv have core: "heap_core h" and bytes: "g_slot_bytes h = heap_bytes h"
    and busy: "\<forall>ei \<in> used_exts h. used_slots h ei \<noteq> {}" by (auto simp: heap_inv_def)
  note cd = heap_coreD [OF core]
  obtain ei s c where ei: "ei < g_n_extents h" "e_used (g_ext h ! ei)" "e_cls (g_ext h ! ei) = c"
    and cv: "c < NCLASS" and s: "s \<in> used_slots h ei" "s < ext_nslots h c"
    and g: "g = ei * EXT_GRAINS h + s * (c + 1)" and sb: "sb = (c + 1) * ALLOC_GRAIN"
    using heap_map_SomeE [OF core live] by metis
  note dec = grain_decode(1,2) [OF cd(1) cv s(2), of ei, folded g] grain_decode(3) [OF cd(1) cv s(2)]
  define k where "k = free_bit ei s c h"
  note fb = free_bit_row [OF core ei s(1), folded k_def] and fc = free_bit_core [OF core ei s(1), folded k_def]
  have eik: "ei < g_n_extents k" "0 < e_nfree (g_ext k ! ei)" using ei(1) elsewhere_geometry(5) [OF fb(1)] fb(5) by simp_all
  define k5 where "k5 = (if e_nfree (g_ext k ! ei) = e_nslots (g_ext k ! ei) then ext_recycle ei c k else k)"
  have z: "u32 ((c + 1) * ALLOC_GRAIN) = sb" using cv by (simp add: sb ALLOC_GRAIN_def u32_small)
  have r: "r = sb" "h' = k5\<lparr>g_slot_bytes := sub64 (g_slot_bytes k5) sb\<rparr>"
    using fr unfolding slot_free_def Let_def dec(1,2) ei(3) dec(3) z k_def [symmetric] k5_def [symmetric]
    by auto
  have mapk: "heap_map k = (heap_map h)(g := None)"
    using heap_map_flip [OF core fb(1) ei(1,2) fb(2) ei(3) fb(3) cv s(2)] fb(6) g by simp
  note rec = recycle_if_empty [OF fc(1) eik(1) fb(2,3) eik(2), folded k5_def]
  have els: "elsewhere h k5 ei" using fb(1) rec(2) by (blast intro: elsewhere_trans)
  have "card (used_slots h ei) = card (used_slots k ei) + 1"
    using s(1) fb(6) by (metis Suc_eq_plus1 card_Suc_Diff1 finite_slots(2))
  then have "ext_bytes h ei = ext_bytes k ei + sb" using ei fb(2,3) by (simp add: ext_bytes_def slot_size_def sb)
  with elsewhere_bytes [OF els cd(1,2) ei(1)] have hb: "heap_bytes h = heap_bytes k5 + sb" using rec(5) by simp
  have "sub64 (g_slot_bytes k5) sb = heap_bytes k5"
    using rec(3) fc(2) bytes hb heap_bytes_bound [OF cd(1,2)] by (simp add: sub64_exact)
  moreover have "used_slots k5 j \<noteq> {}" if "j \<in> used_exts k5" for j
  proof (cases "j = ei")
    case False
    then have "j \<in> used_exts h" using that elsewhere_used_exts [OF els cd(1,2)] by blast
    moreover from this have "used_slots k5 j = used_slots h j"
      using elsewhere_ext(6) [OF els cd(1)] cd(2) False by (auto simp: used_exts_def)
    ultimately show ?thesis using busy by auto
  qed (use rec(6) that in simp)
  ultimately have "heap_inv h'" using heap_inv_slot_bytes rec(1) r(2) by simp
  then show ?thesis using r rec(4) mapk els by (simp add: slot_bytes_update elsewhere_def)
qed

section \<open>Initialisation\<close>

fun initial_lists :: "nat \<Rightarrow> nat \<Rightarrow> headref \<Rightarrow> nat set" where
  "initial_lists k n FreeHead = {k..<n}"
| "initial_lists k n (ClassHead c) = {}"

lemma heap_blank_linked: "lists_are (heap_blank sh n) (initial_lists n n)"
proof -
  have "linked (heap_blank sh n) (\<lambda>_. [])"
    unfolding linked_def by (auto simp: heap_blank_def elim!: valid_head.elims)
  moreover have "set [] = initial_lists n n hr" for hr by (cases hr) auto
  ultimately show ?thesis unfolding lists_are_def by (metis (no_types))
qed

lemma heap_push_free_props:
  "ext_shift (heap_push_free i h) = ext_shift h" "g_extbm (heap_push_free i h) = g_extbm h"
  "g_n_extents (heap_push_free i h) = g_n_extents h" "g_extents_used (heap_push_free i h) = g_extents_used h"
  "g_extents_peak (heap_push_free i h) = g_extents_peak h" "g_slot_bytes (heap_push_free i h) = g_slot_bytes h"
  "length (g_ext (heap_push_free i h)) = length (g_ext h)"
  "length (g_class_head (heap_push_free i h)) = length (g_class_head h)"
  "ecore (g_ext (heap_push_free i h) ! j) = ecore (g_ext h ! j)"
proof -
  show "ecore (g_ext (heap_push_free i h) ! j) = ecore (g_ext h ! j)"
    by (simp add: heap_push_free_def) (rule upd_ext_ecore, simp add: ecore_def)
qed (simp_all add: heap_push_free_def)

lemma heap_push_free_fold:
  fixes h
  defines "h' is \<equiv> fold heap_push_free is h"
  shows "ext_shift (h' is) = ext_shift h \<and> g_extbm (h' is) = g_extbm h \<and>
    g_n_extents (h' is) = g_n_extents h \<and> g_extents_used (h' is) = g_extents_used h \<and>
    g_extents_peak (h' is) = g_extents_peak h \<and> g_slot_bytes (h' is) = g_slot_bytes h \<and>
    length (g_ext (h' is)) = length (g_ext h) \<and> length (g_class_head (h' is)) = length (g_class_head h) \<and>
    (\<forall>j. ecore (g_ext (h' is) ! j) = ecore (g_ext h ! j))"
  unfolding h'_def by (induction "is" arbitrary: h) (simp_all add: heap_push_free_props)

lemma heap_push_free_lists:
  assumes "lists_are h (initial_lists (Suc k) n)" "k < n" "length (g_ext h) = n" "n < 2 ^ 24"
  shows "lists_are (heap_push_free k h) (initial_lists k n)"
proof -
  let ?h = "upd_ext k (\<lambda>x. x\<lparr>e_next := EXT_NONE, e_prev := EXT_NONE\<rparr>) h"
  from assms(1) obtain L where L: "linked h L" "\<And>hr. valid_head hr \<Longrightarrow> set (L hr) = initial_lists (Suc k) n hr"
    by (auto simp: lists_are_def)
  have "dll (g_ext ?h) (get_head hr h) (L hr)" if v: "valid_head hr" for hr
  proof -
    have "k \<notin> set (L hr)" using L(2) [OF v] by (cases hr) auto
    then show ?thesis
      using linkedD(1) [OF L(1) v] by (subst dlseg_cong) (auto simp: g_ext_upd_ext nth_list_update_mem)
  qed
  with L(1) have "linked ?h L" by (simp add: linked_def)
  with L(2) have "lists_are ?h (initial_lists (Suc k) n)" by (auto simp: lists_are_def)
  then have "lists_are (lst_push FreeHead k ?h)
      ((initial_lists (Suc k) n)(FreeHead := insert k (initial_lists (Suc k) n FreeHead)))"
  proof (rule lists_are_push)
    show "\<And>hr'. valid_head hr' \<Longrightarrow> k \<notin> initial_lists (Suc k) n hr'" by (metis atLeastLessThan_iff empty_iff initial_lists.elims not_less_eq_eq order_refl)
  qed (use assms in \<open>simp_all add: EXT_NONE_def\<close>)
  moreover have "(initial_lists (Suc k) n)(FreeHead := insert k (initial_lists (Suc k) n FreeHead)) = initial_lists k n"
  proof
    fix hr show "((initial_lists (Suc k) n)(FreeHead := insert k (initial_lists (Suc k) n FreeHead))) hr = initial_lists k n hr"
      using assms(2) by (cases hr) auto
  qed
  ultimately show ?thesis by (simp add: heap_push_free_def)
qed

lemma heap_init_lists:
  assumes "n < 2 ^ 24" "k \<le> n"
  shows "lists_are (fold heap_push_free (rev [k..<n]) (heap_blank sh n)) (initial_lists k n)"
  using assms(2)
proof (induction k rule: inc_induct)
  case base
  then show ?case by (simp add: heap_blank_linked)
next
  case (step k)
  have "lists_are (heap_push_free k (fold heap_push_free (rev [Suc k..<n]) (heap_blank sh n))) (initial_lists k n)"
    using step assms(1) heap_push_free_fold [of "rev [Suc k..<n]" "heap_blank sh n"]
    by (intro heap_push_free_lists) (simp_all add: heap_blank_def)
  moreover have "rev [k..<n] = rev [Suc k..<n] @ [k]" using step(2) by (simp add: upt_conv_Cons)
  ultimately show ?case by simp
qed

lemma heap_init_success:
  assumes sh: "12 \<le> sh" "sh \<le> 20" and vs: "vram_size div 64 < 2 ^ 30" and one: "2 ^ sh \<le> vram_size"
  obtains h where "heap_init sh vram_size = Some h" "heap_inv h" "heap_map h = Map.empty"
    "ext_shift h = sh" "g_n_extents h = vram_size div 2 ^ sh"
proof -
  define n where "n = vram_size div 2 ^ sh"
  define h where "h = fold heap_push_free (rev [0..<n]) (heap_blank sh n)"
  have p: "(2::nat) ^ sh = 64 * (2 ^ sh div 64)"
    using le_imp_power_dvd [of 6 sh "2::nat"] sh by simp
  have "n * (2 ^ sh div 64) \<le> vram_size div 64"
  proof -
    have "n * (2 ^ sh div 64) * 64 \<le> vram_size"
      using div_times_less_eq_dividend [of vram_size "2 ^ sh"] p unfolding n_def by (simp add: mult.assoc mult.commute [of 64])
    then show ?thesis by (simp add: less_eq_div_iff_mult_less_eq)
  qed
  with vs have g: "n * (2 ^ sh div 64) < 2 ^ 30" by simp
  have "(2::nat) ^ 12 \<le> 2 ^ sh" using sh by (intro power_increasing) simp_all
  then have "n * 64 \<le> n * (2 ^ sh div 64)" by (intro mult_le_mono) simp_all
  then have "n * 64 < 2 ^ 30" using g by (rule le_less_trans)
  then have n24: "n < 2 ^ 24" by simp
  have "0 < n" using one by (simp add: n_def div_greater_zero_iff)
  then have init: "heap_init sh vram_size = Some h"
    using n24 by (simp add: heap_init_def Let_def u32_small n_def [symmetric] h_def)
  note f = heap_push_free_fold [of "rev [0..<n]" "heap_blank sh n", folded h_def]
  have z: "g_ext (heap_blank sh n) ! j = zero_extent" if "j < n" for j
    using that by (simp add: heap_blank_def)
  have un: "\<not> e_used (g_ext h ! j)" if "j < n" for j
    using ecore_eqD(4) [of "g_ext h ! j" "g_ext (heap_blank sh n) ! j"] f z [OF that] by (simp add: zero_extent_def)
  have proj: "ext_shift h = sh" "g_n_extents h = n" "g_extents_used h = 0" "g_extents_peak h = 0"
      "g_slot_bytes h = 0" "length (g_ext h) = n" "length (g_class_head h) = NCLASS"
      "length (g_extbm h) = n * (2 ^ sh div 64 div 64)"
    using f by (simp_all add: heap_blank_def)
  have ue: "used_exts h = {}" using un proj by (auto simp: used_exts_def)
  have "shape_ok h"
    using sh g proj by (simp add: shape_ok_def EXT_BMWORDS_def EXT_GRAINS_def EXTENT_SIZE_def ALLOC_GRAIN_def)
  moreover have "ext_ok h j" if "j < n" for j using un [OF that] by (simp add: ext_ok_def Let_def)
  moreover have "members h = initial_lists 0 n"
  proof
    fix hr show "members h hr = initial_lists 0 n hr" using un proj by (cases hr) auto
  qed
  then have "lists_are h (members h)" using heap_init_lists [OF n24, of 0 sh] by (simp add: h_def)
  moreover have "heap_bytes h = 0" using un proj by (simp add: heap_bytes_def ext_bytes_def)
  ultimately have inv: "heap_inv h" using proj ue by (simp add: heap_inv_def heap_core_def)
  have "heap_map h g = None" for g using un proj by (auto simp: heap_map_def Let_def)
  then show thesis using that [OF init inv] proj n_def by auto
qed

section \<open>Disjointness\<close>

lemma reservations_disjoint:
  assumes inv: "heap_inv h" and a: "heap_map h g = Some sb" "heap_map h g' = Some sb'" and lt: "g < g'"
  shows "g * ALLOC_GRAIN + sb \<le> g' * ALLOC_GRAIN"
proof -
  from inv have core: "heap_core h" by (simp add: heap_inv_def)
  note sh = heap_coreD(1) [OF core]
  obtain ei s c where e: "ei < g_n_extents h" "e_cls (g_ext h ! ei) = c" "c < NCLASS" "s < ext_nslots h c"
    "g = ei * EXT_GRAINS h + s * (c + 1)" "sb = (c + 1) * ALLOC_GRAIN"
    using heap_map_SomeE [OF core a(1)] by metis
  obtain ej t d where f: "ej < g_n_extents h" "e_cls (g_ext h ! ej) = d" "d < NCLASS" "t < ext_nslots h d"
    "g' = ej * EXT_GRAINS h + t * (d + 1)"
    using heap_map_SomeE [OF core a(2)] by metis
  have "g + (c + 1) \<le> g'"
  proof (cases "ei = ej")
    case True
    with e f have "c = d" by simp
    with True lt e(5) f(5) have "s * (d + 1) < t * (d + 1)" by simp
    then have "s < t" by (rule mult_less_cancel2 [THEN iffD1, THEN conjunct2])
    then have "Suc s * (c + 1) \<le> t * (c + 1)" by (intro mult_le_mono1) simp
    with e(5) f(5) True \<open>c = d\<close> show ?thesis by simp
  next
    case False
    have "ei \<le> ej"
      using div_le_mono [of g g' "EXT_GRAINS h"] lt e(5) f(5) grain_decode(1) [OF sh e(3,4)]
        grain_decode(1) [OF sh f(3,4)] by simp
    with False have "Suc ei * EXT_GRAINS h \<le> ej * EXT_GRAINS h" by (intro mult_le_mono1) simp
    then show ?thesis using slot_inside [OF sh e(3,4)] e(5) f(5) by simp
  qed
  then have "(g + (c + 1)) * ALLOC_GRAIN \<le> g' * ALLOC_GRAIN" by (rule mult_le_mono1)
  then show ?thesis by (simp add: e(6) algebra_simps)
qed

lemma reservation_in_heap:
  assumes "heap_inv h" "heap_map h g = Some sb"
  shows "g * ALLOC_GRAIN + sb \<le> g_n_extents h * EXTENT_SIZE h" "g < 2 ^ 30" "0 < sb" "sb \<le> 4096"
proof -
  from assms have core: "heap_core h" by (simp add: heap_inv_def)
  note sh = heap_coreD(1) [OF core]
  obtain ei s c where e: "ei < g_n_extents h" "c < NCLASS" "s < ext_nslots h c"
    "g = ei * EXT_GRAINS h + s * (c + 1)" "sb = (c + 1) * ALLOC_GRAIN"
    using heap_map_SomeE [OF core assms(2)] by metis
  note b = grain_bound [OF sh e(1,2,3), folded e(4)]
  show "g < 2 ^ 30" by (rule b)
  show "0 < sb" "sb \<le> 4096" using e(2,5) by (simp_all add: ALLOC_GRAIN_def)
  show "g * ALLOC_GRAIN + sb \<le> g_n_extents h * EXTENT_SIZE h"
    using mult_le_mono2 [OF b(2), of 64] extent_grains(5) [OF sh] e(5)
    by (simp add: ALLOC_GRAIN_def algebra_simps)
qed

end
