(* ===== verification/Slot_Heap.thy ===== *)
theory Slot_Heap
  imports Allocator_Refinement
begin

text \<open>
  The contract between the slot allocator and the block store, as a locale: what a client
  may rely on when it reserves and releases slots, and what follows for every sequence of
  such calls. The extent allocator interprets it. The theory closes with the allocator's
  properties as they are stated of the program.
\<close>

section \<open>The contract\<close>

locale slot_heap =
  fixes alloc :: "nat \<Rightarrow> 'h \<Rightarrow> nat \<times> nat \<times> 'h"
    and release :: "nat \<Rightarrow> 'h \<Rightarrow> nat \<times> 'h"
    and resv :: "'h \<Rightarrow> nat \<Rightarrow> nat option"
    and inv :: "'h \<Rightarrow> bool"
    and geom :: "'h \<Rightarrow> 'g" and capacity :: "'g \<Rightarrow> nat"
  assumes alloc_some:
      "inv h \<Longrightarrow> 1 \<le> n \<Longrightarrow> n \<le> 4096 \<Longrightarrow> alloc n h = (g, sb, h') \<Longrightarrow> g \<noteq> SLOT_NONE \<Longrightarrow>
       inv h' \<and> resv h g = None \<and> resv h' = (resv h)(g \<mapsto> sb) \<and> n \<le> sb \<and> geom h' = geom h"
    and alloc_none:
      "inv h \<Longrightarrow> 1 \<le> n \<Longrightarrow> n \<le> 4096 \<Longrightarrow> alloc n h = (SLOT_NONE, sb, h') \<Longrightarrow> h' = h"
    and release_resv:
      "inv h \<Longrightarrow> resv h g = Some sb \<Longrightarrow> release g h = (r, h') \<Longrightarrow>
       r = sb \<and> inv h' \<and> resv h' = (resv h)(g := None) \<and> geom h' = geom h"
    and resv_disjoint:
      "inv h \<Longrightarrow> resv h g = Some sb \<Longrightarrow> resv h g' = Some sb' \<Longrightarrow> g < g' \<Longrightarrow> g * 64 + sb \<le> g' * 64"
    and resv_bounds:
      "inv h \<Longrightarrow> resv h g = Some sb \<Longrightarrow> g * 64 + sb \<le> capacity (geom h) \<and> g < 2 ^ 30 \<and> 0 < sb \<and> sb \<le> 4096"
begin

text \<open>The bytes of two different reservations are disjoint, whichever comes first.\<close>

lemma resv_ranges_disjoint:
  assumes "inv h" "resv h g = Some sb" "resv h g' = Some sb'" "g \<noteq> g'" "n \<le> sb" "n' \<le> sb'"
  shows "{g * 64..<g * 64 + n} \<inter> {g' * 64..<g' * 64 + n'} = {}"
proof (cases "g < g'")
  case True
  then have "g * 64 + sb \<le> g' * 64" using assms resv_disjoint by blast
  with assms(5) show ?thesis by auto
next
  case False
  then have "g' * 64 + sb' \<le> g * 64" using assms resv_disjoint [of h g' sb' g sb] by simp
  with assms(6) show ?thesis by auto
qed

text \<open>A reservation that is given back at once leaves the reservations as they were.\<close>

lemma release_alloc:
  assumes "inv h" "1 \<le> n" "n \<le> 4096" "alloc n h = (g, sb, h1)" "g \<noteq> SLOT_NONE" "release g h1 = (r, h2)"
  shows "r = sb \<and> inv h2 \<and> resv h2 = resv h"
proof -
  from alloc_some [OF assms(1-5)] have 1: "inv h1" "resv h g = None" "resv h1 = (resv h)(g \<mapsto> sb)" by auto
  then have "resv h1 g = Some sb" by simp
  from release_resv [OF 1(1) this assms(6)] 1(2,3) show ?thesis by (auto simp: fun_eq_iff)
qed

text \<open>A slot that was live before an allocation is not the one handed out.\<close>

lemma alloc_fresh:
  assumes "inv h" "1 \<le> n" "n \<le> 4096" "alloc n h = (g, sb, h1)" "g \<noteq> SLOT_NONE" "resv h g' = Some sb'"
  shows "g' \<noteq> g" and "resv h1 g' = Some sb'"
  using alloc_some [OF assms(1-5)] assms(6) by auto

end

text \<open>The geometry of the slab heap: the extent size and the number of extents, both fixed at startup.\<close>

definition heap_geom :: "heap \<Rightarrow> nat \<times> nat" where
  "heap_geom h = (ext_shift h, g_n_extents h)"

definition geom_bytes :: "nat \<times> nat \<Rightarrow> nat" where
  "geom_bytes gm = snd gm * 2 ^ fst gm"

lemma geom_bytes_heap: "geom_bytes (heap_geom h) = g_n_extents h * EXTENT_SIZE h"
  by (simp add: geom_bytes_def heap_geom_def EXTENT_SIZE_def)

interpretation slab: slot_heap slot_alloc slot_free heap_map heap_inv heap_geom geom_bytes
proof (unfold_locales, goal_cases)
  case (1 h n g sb h')
  then show ?case using slot_alloc_success [of h n g sb h'] by (simp add: heap_geom_def)
next
  case (2 h n sb h')
  then show ?case by (rule slot_alloc_failure(1))
next
  case (3 h g sb r h')
  then show ?case using slot_free_success [of h g sb r h'] by (simp add: heap_geom_def)
next
  case (4 h g sb g' sb')
  then show ?case using reservations_disjoint [of h g sb g' sb'] by (simp add: ALLOC_GRAIN_def)
next
  case (5 h g sb)
  then show ?case using reservation_in_heap [of h g sb] by (simp add: ALLOC_GRAIN_def geom_bytes_heap)
qed

section \<open>Runs of the allocator\<close>

text \<open>
  Every state a client can bring a heap into: it starts from @heap_init@ on the VRAM
  obtained, reserves slots for one compressed block at a time, and releases slots that are
  reserved.
\<close>

inductive heap_reachable :: "nat \<Rightarrow> nat \<Rightarrow> heap \<Rightarrow> bool" for sh vram_size where
  start: "heap_init sh vram_size = Some h \<Longrightarrow> heap_reachable sh vram_size h"
| alloc: "heap_reachable sh vram_size h \<Longrightarrow> 1 \<le> n \<Longrightarrow> n \<le> CBLK_SIZE \<Longrightarrow>
    slot_alloc n h = (g, sb, h') \<Longrightarrow> heap_reachable sh vram_size h'"
| free: "heap_reachable sh vram_size h \<Longrightarrow> heap_map h g = Some sb \<Longrightarrow>
    slot_free g h = (r, h') \<Longrightarrow> heap_reachable sh vram_size h'"

lemma heap_reachable_inv:
  assumes "heap_reachable sh vram_size h" "12 \<le> sh" "sh \<le> 20" "vram_size div 64 < 2 ^ 30"
  shows "heap_inv h \<and> geom_bytes (heap_geom h) \<le> vram_size"
  using assms(1)
proof (induction rule: heap_reachable.induct)
  case (start h)
  then have "2 ^ sh \<le> vram_size"
    by (auto simp: heap_init_def Let_def u32_def split: if_splits intro: ccontr)
  then obtain h0 where "heap_init sh vram_size = Some h0" "heap_inv h0" "ext_shift h0 = sh"
      "g_n_extents h0 = vram_size div 2 ^ sh"
    using heap_init_success [OF assms(2-4)] by metis
  with start show ?case by (simp add: geom_bytes_def heap_geom_def)
next
  case (alloc h n g sb h')
  then show ?case
    using slab.alloc_none [of h n sb h'] slab.alloc_some [of h n g sb h'] by (cases "g = SLOT_NONE") auto
next
  case (free h g sb r h')
  then show ?case using slab.release_resv [of h g sb r h'] by auto
qed

section \<open>Free room is found\<close>

text \<open>Every extent in use holds a reservation, so there are no more of them than reservations.\<close>

lemma used_exts_le_reservations:
  assumes "heap_inv h"
  shows "finite (dom (heap_map h))" "card (used_exts h) \<le> card (dom (heap_map h))"
proof -
  have "dom (heap_map h) \<subseteq> {..<2 ^ 30}" using slab.resv_bounds [OF assms] by (auto simp: dom_def)
  then show fin: "finite (dom (heap_map h))" by (rule finite_subset) simp
  from assms have core: "heap_core h" and busy: "\<And>ei. ei \<in> used_exts h \<Longrightarrow> \<exists>s. s \<in> used_slots h ei"
    by (auto simp: heap_inv_def)
  note cd = heap_coreD [OF core]
  define f where "f ei = ei * EXT_GRAINS h + (LEAST s. s \<in> used_slots h ei) * (e_cls (g_ext h ! ei) + 1)" for ei
  have f: "f ei div EXT_GRAINS h = ei \<and> f ei \<in> dom (heap_map h)" if "ei \<in> used_exts h" for ei
  proof -
    let ?s = "LEAST s. s \<in> used_slots h ei" and ?c = "e_cls (g_ext h ! ei)"
    have s: "?s \<in> used_slots h ei" using busy [OF that] by (metis LeastI)
    from that cd(2) have e: "ei < g_n_extents h" "e_used (g_ext h ! ei)" "?c < NCLASS" "?s < ext_nslots h ?c"
      using s by (auto simp: used_exts_def used_slots_def ext_ok_def Let_def)
    note dec = grain_decode [OF cd(1) e(3,4)]
    show ?thesis using heap_map_eq [OF dec(1) e(1)] dec e s by (simp add: f_def dom_def)
  qed
  then have "inj_on f (used_exts h)" by (metis inj_onI)
  moreover have "f ` used_exts h \<subseteq> dom (heap_map h)" using f by auto
  ultimately show "card (used_exts h) \<le> card (dom (heap_map h))" using fin by (rule card_inj_on_le)
qed

lemma slot_alloc_succeeds:
  assumes "heap_inv h" "1 \<le> n" "n \<le> 4096" "card (dom (heap_map h)) < g_n_extents h"
  shows "fst (slot_alloc n h) \<noteq> SLOT_NONE"
proof
  assume "fst (slot_alloc n h) = SLOT_NONE"
  then obtain sb h' where "slot_alloc n h = (SLOT_NONE, sb, h')" by (metis prod.collapse)
  from slot_alloc_failure(2) [OF assms(1-3) this] have "used_exts h = {..<g_n_extents h}"
    by (auto simp: heap_exhausted_def used_exts_def)
  then have "card (used_exts h) = g_n_extents h" by simp
  with used_exts_le_reservations(2) [OF assms(1)] assms(4) show False by simp
qed

section \<open>Properties of the allocator\<close>

text \<open>
  C18. @slot_alloc@ refines insertion into the reservation map. On a well-formed heap and a
  compressed length between 1 and 4096 it either hands out a slot that was not reserved, is
  large enough and lies inside the heap, adds exactly that reservation and keeps the heap
  well-formed; or it returns SLOT_NONE, changes nothing, and then every extent is in use and
  every extent whose slots are large enough is full.
\<close>

theorem slot_alloc_refines_map:
  assumes "heap_inv h" "1 \<le> nbytes" "nbytes \<le> 4096" "slot_alloc nbytes h = (g, sb, h')"
  shows "heap_inv h' \<and>
    (if g = SLOT_NONE then h' = h \<and> heap_exhausted h nbytes
     else heap_map h g = None \<and> heap_map h' = (heap_map h)(g \<mapsto> sb) \<and> nbytes \<le> sb \<and>
          g * ALLOC_GRAIN + sb \<le> g_n_extents h * EXTENT_SIZE h)"
  using assms slot_alloc_success [OF assms(1-4)] slot_alloc_failure [OF assms(1-3), of sb h']
  by (cases "g = SLOT_NONE") auto

text \<open>A well-formed heap exists: the one built over 64 KiB of VRAM with 16 KiB extents.\<close>

lemma small_heap:
  "\<exists>h. heap_init 14 (2 ^ 16) = Some h \<and> heap_inv h \<and> heap_map h = Map.empty \<and> g_n_extents h = 4"
proof -
  obtain h where "heap_init 14 (2 ^ 16) = Some h" "heap_inv h" "heap_map h = Map.empty"
    "g_n_extents h = 2 ^ 16 div 2 ^ 14"
    using heap_init_success [of 14 "2 ^ 16"] by auto
  then show ?thesis by auto
qed

definition heap64k :: heap where
  "heap64k = the (heap_init 14 (2 ^ 16))"

lemma heap64k: "heap_init 14 (2 ^ 16) = Some heap64k" "heap_inv heap64k" "heap_map heap64k = Map.empty"
    "g_n_extents heap64k = 4"
  using small_heap by (auto simp: heap64k_def)

theorem slot_alloc_refines_map_witness:
  "heap_inv heap64k \<and>
   (case slot_alloc 100 heap64k of (g, sb, h') \<Rightarrow> heap_inv h' \<and>
      (if g = SLOT_NONE then h' = heap64k \<and> heap_exhausted heap64k 100
       else heap_map heap64k g = None \<and> heap_map h' = (heap_map heap64k)(g \<mapsto> sb) \<and> 100 \<le> sb \<and>
            g * ALLOC_GRAIN + sb \<le> g_n_extents heap64k * EXTENT_SIZE heap64k))"
  using heap64k(2) slot_alloc_refines_map [OF heap64k(2), of 100] by (auto split: prod.splits)

text \<open>
  C19. @slot_free@ refines deletion: given a reserved slot it returns the size of that
  reservation, removes exactly it, and keeps the heap well-formed, so a slot rounded up into
  a larger class returns to the place it came from.
\<close>

theorem slot_free_refines_map:
  assumes "heap_inv h" "heap_map h g = Some sb"
  shows "fst (slot_free g h) = sb \<and> heap_inv (snd (slot_free g h)) \<and>
    heap_map (snd (slot_free g h)) = (heap_map h)(g := None)"
  using slot_free_success [OF assms, of "fst (slot_free g h)" "snd (slot_free g h)"] by simp

text \<open>
  C5. In every state the allocator can be brought into, two different reservations never share
  a byte and every reservation lies inside the VRAM that was obtained.
\<close>

theorem reservations_never_overlap:
  assumes "heap_reachable sh vram_size h" "12 \<le> sh" "sh \<le> 20" "vram_size div ALLOC_GRAIN < 2 ^ 30"
    and "heap_map h g = Some sb" "heap_map h g' = Some sb'" "g \<noteq> g'"
  shows "{g * ALLOC_GRAIN..<g * ALLOC_GRAIN + sb} \<inter> {g' * ALLOC_GRAIN..<g' * ALLOC_GRAIN + sb'} = {} \<and>
    g * ALLOC_GRAIN + sb \<le> vram_size"
proof -
  have inv: "heap_inv h" "geom_bytes (heap_geom h) \<le> vram_size"
    using heap_reachable_inv [OF assms(1-3)] assms(4) by (auto simp: ALLOC_GRAIN_def)
  have "{g * 64..<g * 64 + sb} \<inter> {g' * 64..<g' * 64 + sb'} = {}"
    using slab.resv_ranges_disjoint [OF inv(1) assms(5-7) order_refl order_refl] .
  moreover have "g * 64 + sb \<le> vram_size" using slab.resv_bounds [OF inv(1) assms(5)] inv(2) by simp
  ultimately show ?thesis by (simp add: ALLOC_GRAIN_def)
qed

text \<open>Two slots reserved one after the other in the small heap.\<close>

definition heap64k_1 :: heap where "heap64k_1 = snd (snd (slot_alloc 100 heap64k))"
definition heap64k_2 :: heap where "heap64k_2 = snd (snd (slot_alloc 4096 heap64k_1))"

lemma heap64k_reserved:
  obtains g1 sb1 g2 sb2 where "slot_alloc 100 heap64k = (g1, sb1, heap64k_1)" "g1 \<noteq> SLOT_NONE"
    "slot_alloc 4096 heap64k_1 = (g2, sb2, heap64k_2)" "g2 \<noteq> SLOT_NONE"
    "heap_inv heap64k_1" "heap_map heap64k_1 = [g1 \<mapsto> sb1]"
    "heap_inv heap64k_2" "heap_map heap64k_2 = [g1 \<mapsto> sb1, g2 \<mapsto> sb2]" "g1 \<noteq> g2"
proof -
  obtain g1 sb1 where 1: "slot_alloc 100 heap64k = (g1, sb1, heap64k_1)"
    by (metis heap64k_1_def prod.collapse)
  have n1: "g1 \<noteq> SLOT_NONE" using slot_alloc_succeeds [OF heap64k(2), of 100] 1 heap64k(3,4) by simp
  note s1 = slot_alloc_success [OF heap64k(2) _ _ 1 n1]
  then have i1: "heap_inv heap64k_1" "heap_map heap64k_1 = [g1 \<mapsto> sb1]" "g_n_extents heap64k_1 = 4"
    using heap64k(3,4) by auto
  obtain g2 sb2 where 2: "slot_alloc 4096 heap64k_1 = (g2, sb2, heap64k_2)"
    by (metis heap64k_2_def prod.collapse)
  have n2: "g2 \<noteq> SLOT_NONE" using slot_alloc_succeeds [OF i1(1), of 4096] 2 i1(2,3) by simp
  note s2 = slot_alloc_success [OF i1(1) _ _ 2 n2]
  then have i2: "heap_inv heap64k_2" "heap_map heap64k_2 = (heap_map heap64k_1)(g2 \<mapsto> sb2)"
      "heap_map heap64k_1 g2 = None"
    by auto
  then have "g1 \<noteq> g2" "heap_map heap64k_2 = [g1 \<mapsto> sb1, g2 \<mapsto> sb2]" using i1(2) by auto
  then show thesis using that 1 n1 2 n2 i1 i2 by blast
qed

theorem slot_free_refines_map_witness:
  "\<exists>g sb. heap_map heap64k_2 g = Some sb \<and> fst (slot_free g heap64k_2) = sb \<and>
     heap_map (snd (slot_free g heap64k_2)) = (heap_map heap64k_2)(g := None)"
proof (rule heap64k_reserved)
  fix g1 sb1 g2 sb2
  assume h: "heap_inv heap64k_2" "heap_map heap64k_2 = [g1 \<mapsto> sb1, g2 \<mapsto> sb2]" "g1 \<noteq> g2"
  then have "heap_map heap64k_2 g1 = Some sb1" by simp
  with slot_free_refines_map [OF h(1) this] show ?thesis by blast
qed

theorem reservations_never_overlap_witness:
  "\<exists>g sb g' sb'. heap_reachable 14 (2 ^ 16) heap64k_2 \<and> heap_map heap64k_2 g = Some sb \<and>
     heap_map heap64k_2 g' = Some sb' \<and> g \<noteq> g' \<and>
     {g * ALLOC_GRAIN..<g * ALLOC_GRAIN + sb} \<inter> {g' * ALLOC_GRAIN..<g' * ALLOC_GRAIN + sb'} = {}"
proof (rule heap64k_reserved)
  fix g1 sb1 g2 sb2
  assume h: "slot_alloc 100 heap64k = (g1, sb1, heap64k_1)" "slot_alloc 4096 heap64k_1 = (g2, sb2, heap64k_2)"
    "heap_map heap64k_2 = [g1 \<mapsto> sb1, g2 \<mapsto> sb2]" "g1 \<noteq> g2"
  have "heap_reachable 14 (2 ^ 16) heap64k_1"
    by (rule heap_reachable.alloc [OF heap_reachable.start [OF heap64k(1)] _ _ h(1)]) simp_all
  then have r: "heap_reachable 14 (2 ^ 16) heap64k_2"
    by (rule heap_reachable.alloc [OF _ _ _ h(2)]) simp_all
  moreover have "heap_map heap64k_2 g1 = Some sb1" "heap_map heap64k_2 g2 = Some sb2" using h by auto
  ultimately show ?thesis
    using reservations_never_overlap [OF r _ _ _ _ _ h(4), of sb1 sb2] h(4) by (auto simp: ALLOC_GRAIN_def)
qed

text \<open>
  C26. Allocation cannot fail while there are fewer live blocks than extents: @slot_alloc@ then
  returns a slot, whatever the mix of sizes, because an extent is committed only for a
  reservation and is recycled with its last one.
\<close>

theorem slot_alloc_progress:
  assumes "heap_inv h" "1 \<le> nbytes" "nbytes \<le> 4096" "card (dom (heap_map h)) < g_n_extents h"
  shows "fst (slot_alloc nbytes h) \<noteq> SLOT_NONE"
  using assms by (rule slot_alloc_succeeds)

theorem slot_alloc_progress_witness:
  "card (dom (heap_map heap64k)) < g_n_extents heap64k \<and> fst (slot_alloc 4096 heap64k) \<noteq> SLOT_NONE"
  using slot_alloc_progress [OF heap64k(2), of 4096] heap64k(3,4) by simp

end
