(* ===== verification/Allocator_Types.thy ===== *)
theory Allocator_Types
  imports Slot_Heap
begin

text \<open>
  The allocator's fields as the C types declare them. The model keeps them as natural numbers and writes out the
  truncation of every store to a narrower type; here every operation is shown to leave
  each field a value of its declared type, in descriptors of extents in use and in stale ones
  alike, and so do the results the callers receive.
\<close>

section \<open>Typing\<close>

text \<open>struct extent: uint32_t next and prev, uint16_t nfree, nslots and hint, uint8_t cls.\<close>

definition extent_typed :: "extent \<Rightarrow> bool" where
  "extent_typed e \<longleftrightarrow> e_next e < 2 ^ 32 \<and> e_prev e < 2 ^ 32 \<and> e_nfree e < 2 ^ 16 \<and> e_nslots e < 2 ^ 16 \<and>
     e_cls e < 2 ^ 8 \<and> e_hint e < 2 ^ 16"

text \<open>The globals: uint32_t list heads and extent counters, uint64_t g_slot_bytes.\<close>

definition heap_typed :: "heap \<Rightarrow> bool" where
  "heap_typed h \<longleftrightarrow> list_all extent_typed (g_ext h) \<and> list_all (\<lambda>e. e < 2 ^ 32) (g_class_head h) \<and> g_free_head h < 2 ^ 32 \<and>
     g_n_extents h < 2 ^ 32 \<and> g_extents_used h < 2 ^ 32 \<and> g_extents_peak h < 2 ^ 32 \<and> g_slot_bytes h < 2 ^ 64"

named_theorems typed_intros \<open>operations that keep every field within its C type\<close>

lemma truncated_lt: "u8 n < 2 ^ 8" "u16 n < 2 ^ 16" "u32 n < 2 ^ 32" "u64 n < 2 ^ 64"
    "sub16 n k < 2 ^ 16" "sub32 n k < 2 ^ 32" "sub64 n k < 2 ^ 64"
  by (simp_all add: u8_def u16_def u32_def u64_def sub16_def sub32_def sub64_def)

lemmas truncated = truncated_lt [simplified]

lemma list_all_update: "list_all P xs \<Longrightarrow> (i < length xs \<Longrightarrow> P x) \<Longrightarrow> list_all P (xs[i := x])"
  by (cases "i < length xs") (auto simp: list_all_length nth_list_update)

lemma typed_nth: "heap_typed h \<Longrightarrow> e < length (g_ext h) \<Longrightarrow> extent_typed (g_ext h ! e)"
  by (simp add: heap_typed_def list_all_length)

lemma typed_head: "heap_typed h \<Longrightarrow> c < length (g_class_head h) \<Longrightarrow> g_class_head h ! c < 2 ^ 32"
  by (simp add: heap_typed_def list_all_length)

lemma typed_upd_ext [typed_intros]:
  "heap_typed h \<Longrightarrow> (\<And>x. extent_typed x \<Longrightarrow> extent_typed (f x)) \<Longrightarrow> heap_typed (upd_ext e f h)"
  using typed_nth [of h e] by (auto simp: heap_typed_def upd_ext_def intro: list_all_update)

lemma typed_set_head [typed_intros]: "heap_typed h \<Longrightarrow> e < 2 ^ 32 \<Longrightarrow> heap_typed (set_head hr e h)"
  by (cases hr) (auto simp: heap_typed_def intro: list_all_update)

lemma typed_set_bm [typed_intros]: "heap_typed h \<Longrightarrow> heap_typed (set_bm ei w v h)"
  by (simp add: heap_typed_def set_bm_def)

lemma typed_set_row [typed_intros]: "heap_typed h \<Longrightarrow> heap_typed (set_row ei row h)"
proof -
  have "heap_typed h \<Longrightarrow> heap_typed (fold (\<lambda>w. set_bm ei w (row w)) ws h)" for ws
    by (induction ws arbitrary: h) (simp_all add: typed_set_bm)
  then show "heap_typed h \<Longrightarrow> ?thesis" by (simp add: set_row_def)
qed

lemma EXT_NONE_typed: "EXT_NONE < 2 ^ 32"
  by (simp add: EXT_NONE_def)

section \<open>Operations\<close>

lemma typed_get_head:
  assumes "heap_typed h" "hr = FreeHead \<or> (\<exists>c < length (g_class_head h). hr = ClassHead c)"
  shows "get_head hr h < 2 ^ 32"
  using assms typed_head by (auto simp: heap_typed_def)

lemma typed_lst_push [typed_intros]:
  assumes h: "heap_typed h" and e: "e < 2 ^ 32" and hr: "hr = FreeHead \<or> (\<exists>c < length (g_class_head h). hr = ClassHead c)"
  shows "heap_typed (lst_push hr e h)"
proof -
  define h1 where "h1 = upd_ext e (\<lambda>x. x\<lparr>e_prev := EXT_NONE\<rparr>) h"
  define h2 where "h2 = upd_ext e (\<lambda>x. x\<lparr>e_next := get_head hr h1\<rparr>) h1"
  have t1: "heap_typed h1" unfolding h1_def using h EXT_NONE_typed by (intro typed_upd_ext) (simp_all add: extent_typed_def)
  have "g_class_head h1 = g_class_head h" by (simp add: h1_def upd_ext_def)
  with t1 hr have g: "get_head hr h1 < 2 ^ 32" by (intro typed_get_head) auto
  have t2: "heap_typed h2" unfolding h2_def using t1 g by (intro typed_upd_ext) (simp_all add: extent_typed_def)
  have "lst_push hr e h = set_head hr e (if get_head hr h2 \<noteq> EXT_NONE then upd_ext (get_head hr h2) (\<lambda>x. x\<lparr>e_prev := e\<rparr>) h2 else h2)"
    by (simp add: lst_push_def Let_def h1_def h2_def)
  moreover have "heap_typed (upd_ext k (\<lambda>x. x\<lparr>e_prev := e\<rparr>) h2)" for k
    using t2 e by (intro typed_upd_ext) (simp_all add: extent_typed_def)
  ultimately show ?thesis using t2 e by (auto intro: typed_set_head)
qed

lemma typed_lst_remove [typed_intros]:
  assumes h: "heap_typed h" and e: "e < length (g_ext h)"
  shows "heap_typed (lst_remove hr e h)"
proof -
  define h1 where "h1 = (if e_prev (g_ext h ! e) \<noteq> EXT_NONE
      then upd_ext (e_prev (g_ext h ! e)) (\<lambda>x. x\<lparr>e_next := e_next (g_ext h ! e)\<rparr>) h else set_head hr (e_next (g_ext h ! e)) h)"
  define h2 where "h2 = (if e_next (g_ext h1 ! e) \<noteq> EXT_NONE
      then upd_ext (e_next (g_ext h1 ! e)) (\<lambda>x. x\<lparr>e_prev := e_prev (g_ext h1 ! e)\<rparr>) h1 else h1)"
  have n: "e_next (g_ext h ! e) < 2 ^ 32" using typed_nth [OF h e] by (simp add: extent_typed_def)
  have t1: "heap_typed h1" unfolding h1_def using h n by (auto intro!: typed_intros simp: extent_typed_def)
  have "length (g_ext h1) = length (g_ext h)" by (cases hr) (simp_all add: h1_def upd_ext_def)
  with e have p: "e_prev (g_ext h1 ! e) < 2 ^ 32" using typed_nth [OF t1, of e] by (simp add: extent_typed_def)
  have t2: "heap_typed h2" unfolding h2_def using t1 p by (auto intro!: typed_intros simp: extent_typed_def)
  have "lst_remove hr e h = upd_ext e (\<lambda>x. x\<lparr>e_next := EXT_NONE, e_prev := EXT_NONE\<rparr>) h2"
    by (simp add: lst_remove_def Let_def h1_def h2_def)
  then show ?thesis using t2 EXT_NONE_typed by (auto intro!: typed_intros simp: extent_typed_def)
qed

lemma typed_ext_init [typed_intros]: "heap_typed h \<Longrightarrow> heap_typed (ext_init ei c h)"
  unfolding ext_init_def Let_def using truncated_lt by (intro typed_intros) (auto simp: extent_typed_def)

lemma typed_globals:
  "heap_typed h \<Longrightarrow> n < 2 ^ 32 \<Longrightarrow> heap_typed (h\<lparr>g_extents_used := n\<rparr>)"
  "heap_typed h \<Longrightarrow> n < 2 ^ 32 \<Longrightarrow> heap_typed (h\<lparr>g_extents_peak := n\<rparr>)"
  "heap_typed h \<Longrightarrow> b < 2 ^ 64 \<Longrightarrow> heap_typed (h\<lparr>g_slot_bytes := b\<rparr>)"
  by (simp_all add: heap_typed_def)

lemma typed_ext_take:
  assumes "heap_typed h" "ei < length (g_ext h)"
  shows "heap_typed (snd (ext_take ei h))" "fst (ext_take ei h) < 2 ^ 32" "length (g_ext (snd (ext_take ei h))) = length (g_ext h)"
proof -
  have "heap_typed (upd_ext ei (\<lambda>e. e\<lparr>e_hint := u16 w, e_nfree := sub16 (e_nfree e) 1\<rparr>) (set_bm ei w v h))" for w v
    using assms(1) truncated_lt by (intro typed_intros) (auto simp: extent_typed_def)
  then show "heap_typed (snd (ext_take ei h))" "fst (ext_take ei h) < 2 ^ 32" "length (g_ext (snd (ext_take ei h))) = length (g_ext h)"
    using assms by (auto simp: ext_take_def Let_def truncated SLOT_NONE_def intro!: typed_lst_remove split: option.split)
qed

lemma typed_ext_commit:
  assumes "heap_typed h" "g_free_head h < length (g_ext h)" "c < length (g_class_head h)"
  shows "heap_typed (snd (ext_commit c h))"
proof -
  define k where "k = lst_push (ClassHead c) (g_free_head h) (ext_init (g_free_head h) c (lst_remove FreeHead (g_free_head h) h))"
  have "length (g_class_head (ext_init (g_free_head h) c (lst_remove FreeHead (g_free_head h) h))) = length (g_class_head h)"
    by (simp add: ext_init_def set_row_def Let_def set_row_props)
  then have k: "heap_typed k" unfolding k_def using assms by (intro typed_intros) (auto simp: heap_typed_def)
  then have "heap_typed (k\<lparr>g_extents_used := u32 (g_extents_used k + 1)\<rparr>)" by (intro typed_globals truncated_lt)
  then show ?thesis using truncated_lt by (auto simp: ext_commit_def Let_def k_def [symmetric] intro!: typed_globals(2))
qed

lemma length_ext_commit: "length (g_ext (snd (ext_commit c h))) = length (g_ext h)"
  by (simp add: ext_commit_def ext_init_def set_row_def Let_def set_row_props)

text \<open>An extent at the head of a list is a descriptor of the array.\<close>

lemma head_in_array:
  assumes "heap_inv h" "get_head hr h \<noteq> EXT_NONE" "valid_head hr"
  shows "get_head hr h < length (g_ext h)"
proof -
  from assms(1) have core: "heap_core h" by (simp add: heap_inv_def)
  note cd = heap_coreD [OF core]
  have "get_head hr h \<in> members h hr" using lists_are_head(1) [OF cd(3) assms(3)] assms(2) by simp
  then have "get_head hr h < g_n_extents h" by (cases hr) auto
  with cd(1) show ?thesis by (simp add: shape_ok_def)
qed

lemma typed_slot_alloc:
  assumes inv: "heap_inv h" and t: "heap_typed h" and n: "1 \<le> n" "n \<le> 4096" and r: "slot_alloc n h = (g, sb, h')"
  shows "heap_typed h'" "g < 2 ^ 32" "sb < 2 ^ 32"
proof -
  define c where "c = sub32 n 1 div ALLOC_GRAIN"
  have "sub32 n 1 = n - 1" using n by (simp add: sub32_exact)
  then have c: "c < NCLASS" using n by (simp add: c_def NCLASS_def ALLOC_GRAIN_def CBLK_SIZE_def)
  have len: "length (g_class_head h) = NCLASS" using inv by (simp add: heap_inv_def heap_core_def shape_ok_def)
  define fresh where "fresh \<longleftrightarrow> g_class_head h ! c = EXT_NONE \<and> g_free_head h \<noteq> EXT_NONE"
  define h1 where "h1 = (if fresh then snd (ext_commit c h) else h)"
  define ei where "ei = (if fresh then g_free_head h else g_class_head h ! c)"
  define ei2 where "ei2 = (if ei = EXT_NONE then (case List.find (\<lambda>d. g_class_head h1 ! d \<noteq> EXT_NONE) [c + 1..<NCLASS] of
      None \<Rightarrow> EXT_NONE | Some d \<Rightarrow> g_class_head h1 ! d) else ei)"
  have cls: "g_class_head h ! d < length (g_ext h)" if "d < NCLASS" "g_class_head h ! d \<noteq> EXT_NONE" for d
    using head_in_array [OF inv, of "ClassHead d"] that by simp
  have free: "g_free_head h < length (g_ext h)" if "g_free_head h \<noteq> EXT_NONE"
    using head_in_array [OF inv, of FreeHead] that by simp
  have t1: "heap_typed h1" "length (g_ext h1) = length (g_ext h)"
    using t typed_ext_commit [OF t free, of c] c len by (auto simp: h1_def fresh_def length_ext_commit)
  have e2: "ei2 < length (g_ext h1)" if "ei2 \<noteq> EXT_NONE"
  proof (cases "ei = EXT_NONE")
    case True
    with that obtain d where d: "List.find (\<lambda>d. g_class_head h1 ! d \<noteq> EXT_NONE) [c + 1..<NCLASS] = Some d" "ei2 = g_class_head h1 ! d"
      by (auto simp: ei2_def split: option.splits)
    have "h1 = h" using True by (auto simp: h1_def ei_def fresh_def)
    moreover from d(1) have "d < NCLASS" by (auto simp: find_Some_iff)
    ultimately show ?thesis using cls that d(2) by simp
  next
    case False
    then show ?thesis using cls [OF c] free t1(2) by (auto simp: ei2_def ei_def fresh_def split: if_splits)
  qed
  have "fst (ext_commit c h) = g_free_head h" by (simp add: ext_commit_def Let_def)
  then have com: "ext_commit c h = (g_free_head h, snd (ext_commit c h))" by (metis prod.collapse)
  have "slot_alloc n h = (if ei2 \<noteq> EXT_NONE then (let (grain, h2) = ext_take ei2 h1 in if grain \<noteq> SLOT_NONE
      then (let sb = u32 ((e_cls (g_ext h2 ! ei2) + 1) * ALLOC_GRAIN) in (grain, sb, h2\<lparr>g_slot_bytes := u64 (g_slot_bytes h2 + sb)\<rparr>))
      else (SLOT_NONE, 0, h2)) else (SLOT_NONE, 0, h1))"
    unfolding slot_alloc_def c_def [symmetric] ei2_def ei_def h1_def fresh_def Let_def by (subst com) (simp split: if_split)
  with r t1(1) e2 typed_ext_take [OF t1(1), of ei2] show "heap_typed h'" "g < 2 ^ 32" "sb < 2 ^ 32"
    by (auto simp: Let_def truncated SLOT_NONE_def intro!: typed_globals split: if_splits prod.splits)
qed

lemma typed_free_bit:
  assumes "heap_typed h" "ei < 2 ^ 32" "c < length (g_class_head h)"
  shows "heap_typed (free_bit ei s c h)" "length (g_ext (free_bit ei s c h)) = length (g_ext h)"
    "length (g_class_head (free_bit ei s c h)) = length (g_class_head h)"
proof -
  define h1 where "h1 = set_bm ei (s div 64) (bm_word h ei (s div 64) AND NOT (push_bit (s mod 64) 1)) h"
  define h2 where "h2 = (if e_nfree (g_ext h1 ! ei) = 0 then lst_push (ClassHead c) ei h1 else h1)"
  note fb = free_bit_def [of ei s c h, unfolded Let_def, folded h1_def, folded h2_def]
  have t1: "heap_typed h1" unfolding h1_def using assms(1) by (rule typed_set_bm)
  moreover have "g_class_head h1 = g_class_head h" by (simp add: h1_def set_bm_def)
  ultimately have t2: "heap_typed h2" unfolding h2_def using assms by (auto intro!: typed_lst_push)
  show "heap_typed (free_bit ei s c h)"
    unfolding fb using t2 by (auto intro!: typed_upd_ext simp: extent_typed_def truncated)
  show "length (g_ext (free_bit ei s c h)) = length (g_ext h)"
    "length (g_class_head (free_bit ei s c h)) = length (g_class_head h)" by (simp_all add: fb h2_def h1_def)
qed

lemma typed_ext_recycle:
  assumes "heap_typed h" "ei < 2 ^ 32" "ei < length (g_ext h)"
  shows "heap_typed (ext_recycle ei c h)"
proof -
  have "heap_typed (lst_push FreeHead ei (upd_ext ei (\<lambda>e. e\<lparr>e_used := False\<rparr>) (lst_remove (ClassHead c) ei h)))"
    using assms by (intro typed_intros) (auto simp: extent_typed_def)
  then show ?thesis unfolding ext_recycle_def Let_def by (intro typed_globals truncated_lt)
qed

lemma typed_slot_free:
  assumes inv: "heap_inv h" and t: "heap_typed h" and live: "heap_map h g = Some sb"
  shows "heap_typed (snd (slot_free g h))" "fst (slot_free g h) < 2 ^ 32"
proof -
  from inv have core: "heap_core h" by (simp add: heap_inv_def)
  note cd = heap_coreD [OF core]
  obtain ei s c where e: "ei < g_n_extents h" "e_cls (g_ext h ! ei) = c" "c < NCLASS" "s < ext_nslots h c"
    and g: "g = ei * EXT_GRAINS h + s * (c + 1)" using heap_map_SomeE [OF core live] by metis
  have dec: "g div EXT_GRAINS h = ei" unfolding g by (rule grain_decode(1) [OF cd(1) e(3,4)])
  have ei: "ei < length (g_ext h)" "ei < 2 ^ 32" "c < length (g_class_head h)"
    using e cd(1) t by (auto simp: shape_ok_def heap_typed_def)
  define k where "k = free_bit ei (g mod EXT_GRAINS h div (c + 1)) c h"
  have k: "heap_typed k" "length (g_ext k) = length (g_ext h)"
    unfolding k_def using typed_free_bit [OF t ei(2,3)] by auto
  have "heap_typed (if e_nfree (g_ext k ! ei) = e_nslots (g_ext k ! ei) then ext_recycle ei c k else k)"
    using k ei(1,2) by (auto intro: typed_ext_recycle)
  then show "heap_typed (snd (slot_free g h))"
    unfolding slot_free_def Let_def dec e(2) k_def [symmetric] snd_conv by (intro typed_globals(3) truncated_lt)
  show "fst (slot_free g h) < 2 ^ 32" by (simp add: slot_free_def Let_def truncated)
qed

lemma typed_heap_init:
  assumes "heap_init sh vram = Some h"
  shows "heap_typed h"
proof -
  define n where "n = u32 (vram div 2 ^ sh)"
  have n: "n < 2 ^ 32" by (simp add: n_def truncated)
  have blank: "heap_typed (heap_blank sh n)"
    using n EXT_NONE_typed by (simp add: heap_typed_def heap_blank_def zero_extent_def extent_typed_def list_all_length)
  have push: "heap_typed (heap_push_free i k)" if "heap_typed k" "i < 2 ^ 32" for i k
    unfolding heap_push_free_def using that EXT_NONE_typed by (intro typed_intros) (auto simp: extent_typed_def)
  have "heap_typed (fold heap_push_free is k)" if "heap_typed k" "\<forall>i \<in> set is. i < 2 ^ 32" for "is" k
    using that push by (induction "is" arbitrary: k) auto
  from this [OF blank, of "rev [0..<n]"] n assms show ?thesis
    by (auto simp: heap_init_def Let_def n_def [symmetric] split: if_splits)
qed

section \<open>Every reachable state is typed\<close>

lemma heap_reachable_typed:
  assumes "heap_reachable sh vram_size h" "12 \<le> sh" "sh \<le> 20" "vram_size div 64 < 2 ^ 30"
  shows "heap_typed h"
  using assms(1)
proof (induction rule: heap_reachable.induct)
  case (start h)
  then show ?case by (rule typed_heap_init)
next
  case (alloc h n g sb h')
  then show ?case using typed_slot_alloc(1) [of h n g sb h'] heap_reachable_inv [OF alloc(1) assms(2-4)] by simp
next
  case (free h g sb r h')
  then show ?case using typed_slot_free(1) [of h g sb] heap_reachable_inv [OF free(1) assms(2-4)] by simp
qed



end
