(* ===== verification/Block_Index.thy ===== *)
theory Block_Index
  imports Nbd_Prelude
begin

text \<open>
  The block index entry (the section @Block index@ of nbd-vram.c): one 64-bit word per
  logical block that packs the device offset in 64-byte grains, the stored length and a
  generation. The theory holds the packing functions and the facts that make the packing an
  encoding: each field reads back what was packed, and a republished entry differs from the
  one it replaces.
\<close>

definition ENT_GRAIN_BITS :: nat where "ENT_GRAIN_BITS = 30"
definition ENT_CLEN_BITS :: nat where "ENT_CLEN_BITS = 13"
definition ENT_GEN_MASK :: "32 word" where "ENT_GEN_MASK = 0x1FFFFF"

definition ent_grain :: "64 word \<Rightarrow> 32 word" where
  "ent_grain e = ucast (e AND (push_bit ENT_GRAIN_BITS 1 - 1))"

definition ent_clen :: "64 word \<Rightarrow> 32 word" where
  "ent_clen e = ucast (drop_bit ENT_GRAIN_BITS e AND (push_bit ENT_CLEN_BITS 1 - 1))"

definition ent_make :: "32 word \<Rightarrow> 32 word \<Rightarrow> 32 word \<Rightarrow> 64 word" where
  "ent_make grain clen gen =
     ucast grain
     OR push_bit ENT_GRAIN_BITS (ucast clen)
     OR push_bit (ENT_GRAIN_BITS + ENT_CLEN_BITS) (ucast (gen AND ENT_GEN_MASK))"

definition ent_gen :: "64 word \<Rightarrow> 32 word" where
  "ent_gen e = ucast (drop_bit (ENT_GRAIN_BITS + ENT_CLEN_BITS) e) AND ENT_GEN_MASK"

lemmas ent_defs = ent_grain_def ent_clen_def ent_gen_def ent_make_def ENT_GRAIN_BITS_def
  ENT_CLEN_BITS_def ENT_GEN_MASK_def

section \<open>Bits of the fields\<close>

lemma mask30: "(push_bit 30 1 - 1 :: 64 word) = mask 30"
  by (simp add: mask_eq_exp_minus_1)

lemma mask13: "(push_bit 13 1 - 1 :: 64 word) = mask 13"
  by (simp add: mask_eq_exp_minus_1)

lemma mask21: "(0x1FFFFF :: 32 word) = mask 21"
  by (simp add: mask_eq_exp_minus_1)

lemma bit_ent_grain: "bit (ent_grain e) n \<longleftrightarrow> n < 30 \<and> bit e n"
  unfolding ent_defs mask30 by (auto simp: bit_simps)

lemma bit_ent_clen: "bit (ent_clen e) n \<longleftrightarrow> n < 13 \<and> bit e (30 + n)"
  unfolding ent_defs mask13 by (auto simp: bit_simps add.commute)

lemma bit_ent_gen: "bit (ent_gen e) n \<longleftrightarrow> n < 21 \<and> bit e (43 + n)"
  unfolding ent_defs mask21 by (auto simp: bit_simps add.commute)

lemma bit_ent_make:
  "bit (ent_make g c n) i \<longleftrightarrow>
     i < 64 \<and> (bit g i \<or> (30 \<le> i \<and> bit c (i - 30)) \<or> (43 \<le> i \<and> i - 43 < 21 \<and> bit n (i - 43)))"
  unfolding ent_defs mask21 by (auto simp: bit_simps dest: bit_imp_le_length)

lemma small_word_bit:
  fixes x :: "32 word"
  assumes "unat x < 2 ^ k" "bit x i"
  shows "i < k"
proof -
  from assms(1) have "take_bit k x = x"
    by (simp add: word_unat_eq_iff unsigned_take_bit_eq take_bit_nat_eq_self)
  with assms(2) show ?thesis by (metis bit_take_bit_iff)
qed

section \<open>The packing is an encoding\<close>

lemma ent_grain_make:
  assumes "unat g < 2 ^ 30" "unat c < 2 ^ 13"
  shows "ent_grain (ent_make g c n) = g"
proof (rule bit_word_eqI)
  fix i assume "i < LENGTH(32)"
  then show "bit (ent_grain (ent_make g c n)) i = bit g i"
    by (auto simp: bit_ent_grain bit_ent_make dest: small_word_bit [OF assms(1)])
qed

lemma ent_clen_make:
  assumes "unat g < 2 ^ 30" "unat c < 2 ^ 13"
  shows "ent_clen (ent_make g c n) = c"
proof (rule bit_word_eqI)
  fix i assume "i < LENGTH(32)"
  then show "bit (ent_clen (ent_make g c n)) i = bit c i"
    by (auto simp: bit_ent_clen bit_ent_make dest: small_word_bit [OF assms(1)]
        small_word_bit [OF assms(2)])
qed

lemma ent_gen_make:
  assumes "unat g < 2 ^ 30" "unat c < 2 ^ 13"
  shows "ent_gen (ent_make g c n) = n AND ENT_GEN_MASK"
proof (rule bit_word_eqI)
  fix i assume "i < LENGTH(32)"
  then show "bit (ent_gen (ent_make g c n)) i = bit (n AND ENT_GEN_MASK) i"
    by (auto simp: bit_ent_gen bit_ent_make ENT_GEN_MASK_def mask21 bit_simps
        dest: small_word_bit [OF assms(1)] small_word_bit [OF assms(2)])
qed

section \<open>Generations\<close>

lemma unat_gen_mask: "unat (x AND ENT_GEN_MASK) = unat x mod 2 ^ 21"
proof -
  have "x AND ENT_GEN_MASK = take_bit 21 x"
    unfolding ENT_GEN_MASK_def mask21 by (simp add: take_bit_eq_mask)
  then show ?thesis by (simp add: unsigned_take_bit_eq take_bit_nat_def)
qed

lemma unat_ent_gen_bound: "unat (ent_gen e) < 2 ^ 21"
proof -
  have "ent_gen e = ent_gen e AND ENT_GEN_MASK" by (simp add: ent_gen_def and.assoc)
  then have "unat (ent_gen e) = unat (ent_gen e) mod 2 ^ 21" by (metis unat_gen_mask)
  then show ?thesis by (metis mod_less_divisor zero_less_numeral zero_less_power)
qed

lemma unat_ent_fields: "unat (ent_grain e) < 2 ^ 30" "unat (ent_clen e) < 2 ^ 13"
proof -
  have "ent_grain e = take_bit 30 (ent_grain e)" "ent_clen e = take_bit 13 (ent_clen e)"
    by (rule bit_word_eqI, simp add: bit_take_bit_iff bit_ent_grain bit_ent_clen)+
  then have "unat (ent_grain e) = take_bit 30 (unat (ent_grain e))"
    "unat (ent_clen e) = take_bit 13 (unat (ent_clen e))"
    by (metis unsigned_take_bit_eq)+
  then show "unat (ent_grain e) < 2 ^ 30" "unat (ent_clen e) < 2 ^ 13"
    by (metis take_bit_nat_less_exp)+
qed

text \<open>
  One publish of a block, as wr_publish, rmw_block and trim_range all do it: the new entry
  carries the generation of the entry it replaces plus one.
\<close>

definition ent_publish :: "nat \<times> nat \<Rightarrow> 64 word \<Rightarrow> 64 word" where
  "ent_publish gc old = ent_make (of_nat (fst gc)) (of_nat (snd gc)) (ent_gen old + 1)"

lemma unat_of_nat32: "n < 2 ^ 32 \<Longrightarrow> unat (of_nat n :: 32 word) = n"
  by (simp add: unat_of_nat)

lemma ent_publish_fields:
  assumes "g < 2 ^ 30" "c < 2 ^ 13"
  shows "unat (ent_grain (ent_publish (g, c) e)) = g" "unat (ent_clen (ent_publish (g, c) e)) = c"
    "unat (ent_gen (ent_publish (g, c) e)) = (unat (ent_gen e) + 1) mod 2 ^ 21"
proof -
  have gc: "unat (of_nat g :: 32 word) = g" "unat (of_nat c :: 32 word) = c"
    using assms by (auto intro!: unat_of_nat32)
  with assms have b: "unat (of_nat g :: 32 word) < 2 ^ 30" "unat (of_nat c :: 32 word) < 2 ^ 13" by auto
  show "unat (ent_grain (ent_publish (g, c) e)) = g" "unat (ent_clen (ent_publish (g, c) e)) = c"
    using ent_grain_make [OF b] ent_clen_make [OF b] gc by (simp_all add: ent_publish_def)
  have "unat (ent_gen e + 1) = unat (ent_gen e) + 1"
    using unat_ent_gen_bound [of e] by (simp add: unat_word_ariths)
  then show "unat (ent_gen (ent_publish (g, c) e)) = (unat (ent_gen e) + 1) mod 2 ^ 21"
    using ent_gen_make [OF b, of "ent_gen e + 1"] by (simp add: ent_publish_def unat_gen_mask)
qed

lemma ent_publish_all_gen:
  assumes "\<forall>(g, c) \<in> set ps. g < 2 ^ 30 \<and> c < 2 ^ 13"
  shows "unat (ent_gen (fold ent_publish ps e)) = (unat (ent_gen e) + length ps) mod 2 ^ 21"
  using assms
proof (induction ps arbitrary: e)
  case Nil
  then show ?case using unat_ent_gen_bound [of e] by simp
next
  case (Cons p ps)
  then obtain g c where p: "p = (g, c)" "g < 2 ^ 30" "c < 2 ^ 13" by auto
  have "unat (ent_gen (fold ent_publish ps (ent_publish p e))) =
      (unat (ent_gen (ent_publish p e)) + length ps) mod 2 ^ 21"
    using Cons by auto
  also have "\<dots> = (unat (ent_gen e) + 1 + length ps) mod 2 ^ 21"
    unfolding p(1) ent_publish_fields(3) [OF p(2,3)] by (rule mod_add_left_eq)
  finally show ?case by (simp add: ac_simps)
qed

section \<open>Properties of the entry\<close>

text \<open>
  Packing is lossless on the values the daemon packs: a grain offset below 2^30, a stored
  length of at most 4096 bytes (0 for an unwritten block) and a generation modulo 2^21 all
  read back from the entry.
\<close>

lemma ent_roundtrip:
  assumes "unat grain < 2 ^ 30" "unat clen \<le> 4096"
  shows "ent_grain (ent_make grain clen gen) = grain \<and> ent_clen (ent_make grain clen gen) = clen \<and>
    ent_gen (ent_make grain clen gen) = gen AND ENT_GEN_MASK"
  using ent_grain_make [OF assms(1)] ent_clen_make [OF assms(1)] ent_gen_make [OF assms(1)] assms(2)
  by simp

text \<open>
  C21. An entry cannot come back unnoticed: after any number of publishes of a block from 1 to
  2^21 - 1, whatever slots and lengths they carry, the entry differs from the one a reader
  took its snapshot of, so the validation in rd_finish detects every one of them.
\<close>

theorem republished_entry_differs:
  assumes "\<forall>(g, c) \<in> set ps. g < 2 ^ 30 \<and> c \<le> 4096" "ps \<noteq> []" "length ps < 2 ^ 21"
  shows "fold ent_publish ps e \<noteq> e"
proof
  assume eq: "fold ent_publish ps e = e"
  have "unat (ent_gen (fold ent_publish ps e)) = (unat (ent_gen e) + length ps) mod 2 ^ 21"
    by (rule ent_publish_all_gen) (use assms(1) in auto)
  with eq have "unat (ent_gen e) = (unat (ent_gen e) + length ps) mod 2 ^ 21" by simp
  then have "length ps = 0" using unat_ent_gen_bound assms(3) by (intro mod_add_fixed)
  with assms(2) show False by simp
qed

theorem republished_entry_differs_witness:
  "fold ent_publish [(5, 100), (9, 4096)] (ent_make 5 100 3) \<noteq> ent_make 5 100 3"
  using republished_entry_differs [of "[(5, 100), (9, 4096)]" "ent_make 5 100 3"] by simp

end
