(* ===== verification/Codec.thy ===== *)
theory Codec
  imports Nbd_Prelude
begin

text \<open>
  The compression backend of nbd-vram.c: the choice of the codec at startup
  (@try_zstd@, @try_lz4@, @load_libcompress@), the per-worker codec context, @comp_block@,
  @decomp_block@ and @comp_selftest@. libzstd, liblz4 and the dynamic loader are not part of
  the program: they are the functions of the record @codec_lib@ and the argument @dl@,
  and what the daemon relies on of them is the predicate @codec_lib_ok@ (a compressed
  block decompresses to the block it was made from).
\<close>

section \<open>The libraries as parameters\<close>

text \<open>
  A compression call gets the source bytes, the room at the destination (and for zstd the
  level) and gives its result code and what it left in the destination buffer.
\<close>

record codec_lib =
  ZSTD_compressCCtx :: "byte list \<Rightarrow> nat \<Rightarrow> int \<Rightarrow> nat \<times> byte list"
  ZSTD_decompressDCtx :: "byte list \<Rightarrow> nat \<Rightarrow> nat \<times> byte list"
  ZSTD_isError :: "nat \<Rightarrow> bool"
  ZSTD_estimateCCtxSize :: "int \<Rightarrow> nat"
  ZSTD_estimateDCtxSize :: nat
  ZSTD_newCCtx_ok :: "bool \<Rightarrow> bool"
  ZSTD_newDCtx_ok :: "bool \<Rightarrow> bool"
  LZ4_compress_fast_extState :: "byte list \<Rightarrow> nat \<Rightarrow> int \<times> byte list"
  LZ4_compress_default :: "byte list \<Rightarrow> nat \<Rightarrow> int \<times> byte list"
  LZ4_decompress_safe :: "byte list \<Rightarrow> nat \<Rightarrow> int \<times> byte list"
  LZ4_sizeofState :: nat

datatype codec = CODEC_NONE | CODEC_ZSTD | CODEC_LZ4

text \<open>The globals @g_codec@, @g_zstd_level@ and @g_static_ctx@.\<close>

record codec_state =
  g_codec :: codec
  g_zstd_level :: int
  g_static_ctx :: bool

definition codec_boot :: codec_state where
  "codec_boot = \<lparr>g_codec = CODEC_NONE, g_zstd_level = 1, g_static_ctx = False\<rparr>"

fun codec_name :: "codec \<Rightarrow> string" where
  "codec_name CODEC_ZSTD = ''zstd''"
| "codec_name CODEC_LZ4 = ''lz4''"
| "codec_name CODEC_NONE = ''none''"

section \<open>Choosing the codec\<close>

text \<open>
  The loader @dl@ tells for a library whether dlopen fails, else which symbols dlsym finds. Each attempt
  returns whether it succeeded and the new globals; the failing branches close the handle and
  leave the globals alone.
\<close>

definition zstd_symbols :: "string list" where
  "zstd_symbols = [''ZSTD_createCCtx'', ''ZSTD_freeCCtx'', ''ZSTD_compressCCtx'', ''ZSTD_createDCtx'',
                   ''ZSTD_freeDCtx'', ''ZSTD_decompressDCtx'', ''ZSTD_isError'']"

definition zstd_static_symbols :: "string list" where
  "zstd_static_symbols = [''ZSTD_estimateCCtxSize'', ''ZSTD_estimateDCtxSize'',
                          ''ZSTD_initStaticCCtx'', ''ZSTD_initStaticDCtx'']"

definition try_zstd :: "dl \<Rightarrow> codec_state \<Rightarrow> bool \<times> codec_state" where
  "try_zstd dl st =
     (case dl ''libzstd.so.1'' of
        None \<Rightarrow> (False, st)
      | Some found \<Rightarrow>
          if \<not> list_all found zstd_symbols then (False, st)
          else (True, st\<lparr>g_static_ctx := list_all found zstd_static_symbols, g_codec := CODEC_ZSTD\<rparr>))"

definition try_lz4 :: "dl \<Rightarrow> codec_state \<Rightarrow> bool \<times> codec_state" where
  "try_lz4 dl st =
     (case dl ''liblz4.so.1'' of
        None \<Rightarrow> (False, st)
      | Some found \<Rightarrow>
          if \<not> (found ''LZ4_compress_default'' \<and> found ''LZ4_decompress_safe'') then (False, st)
          else (True, st\<lparr>g_static_ctx := found ''LZ4_sizeofState'' \<and> found ''LZ4_compress_fast_extState'',
                         g_codec := CODEC_LZ4\<rparr>))"

text \<open>C's atoi: leading blanks, an optional sign, then digits up to the first other character.\<close>

definition is_space :: "char \<Rightarrow> bool" where
  "is_space c \<longleftrightarrow> c = CHR '' '' \<or> (9 \<le> (of_char c :: nat) \<and> (of_char c :: nat) \<le> 13)"

definition is_digit :: "char \<Rightarrow> bool" where
  "is_digit c \<longleftrightarrow> 48 \<le> (of_char c :: nat) \<and> (of_char c :: nat) \<le> 57"

definition digits_value :: "string \<Rightarrow> int" where
  "digits_value s = foldl (\<lambda>v c. 10 * v + (of_char c - 48)) 0 (takeWhile is_digit s)"

definition atoi :: "string \<Rightarrow> int" where
  "atoi s =
     (case dropWhile is_space s of
        [] \<Rightarrow> 0
      | c # cs \<Rightarrow>
          if c = CHR ''-'' then - digits_value cs
          else if c = CHR ''+'' then digits_value cs
          else digits_value (c # cs))"

definition clamp :: "int \<Rightarrow> int \<Rightarrow> int \<Rightarrow> int" where
  "clamp lo hi v = (let v1 = (if v < lo then lo else v) in if v1 > hi then hi else v1)"

text \<open>@load_libcompress@, from the environment variables and the loader to the globals.\<close>

definition load_libcompress :: "(string \<Rightarrow> string option) \<Rightarrow> dl \<Rightarrow> codec_state \<Rightarrow> codec_state" where
  "load_libcompress getenv dl st0 =
     (let want = getenv ''VRAM_COMPRESS'';
          st = (case getenv ''VRAM_COMPRESS_LEVEL'' of
                  None \<Rightarrow> st0
                | Some lvl \<Rightarrow> if lvl = [] then st0 else st0\<lparr>g_zstd_level := clamp 1 19 (atoi lvl)\<rparr>)
      in if want \<in> {Some ''none'', Some ''0'', Some ''off''} then st
         else let (ok1, st1) = (if want = Some ''lz4'' then try_lz4 dl st else (False, st))
              in if ok1 then st1
                 else let (ok2, st2) =
                        (if want \<in> {None, Some ''zstd'', Some ''lz4''} \<and> g_codec st1 = CODEC_NONE
                         then try_zstd dl st1 else (False, st1))
                      in if ok2 then st2
                         else if g_codec st2 = CODEC_NONE then snd (try_lz4 dl st2) else st2)"

section \<open>Contexts\<close>

text \<open>Which of the three pointers of @struct comp_ctx@ are set.\<close>

record comp_ctx =
  cc_cctx :: bool
  cc_dctx :: bool
  cc_lz4_state :: bool

definition comp_cws_bytes :: "codec_lib \<Rightarrow> codec_state \<Rightarrow> nat" where
  "comp_cws_bytes lib st =
     (if g_codec st = CODEC_ZSTD \<and> g_static_ctx st then ZSTD_estimateCCtxSize lib (g_zstd_level st)
      else if g_codec st = CODEC_LZ4 \<and> g_static_ctx st then LZ4_sizeofState lib
      else 0)"

definition comp_dws_bytes :: "codec_lib \<Rightarrow> codec_state \<Rightarrow> nat" where
  "comp_dws_bytes lib st =
     (if g_codec st = CODEC_ZSTD \<and> g_static_ctx st then ZSTD_estimateDCtxSize lib else 0)"

text \<open>
  @cws@ is the workspace pointer being non-null. The zstd constructors, ZSTD_initStatic...Ctx
  when the workspaces are ours and ZSTD_create...Ctx otherwise, may each fail.
\<close>

definition comp_ctx_init :: "codec_lib \<Rightarrow> codec_state \<Rightarrow> bool \<Rightarrow> bool \<times> comp_ctx" where
  "comp_ctx_init lib st cws =
     (let z = \<lparr>cc_cctx = False, cc_dctx = False, cc_lz4_state = False\<rparr>
      in if g_codec st = CODEC_ZSTD
         then (let c = z\<lparr>cc_cctx := ZSTD_newCCtx_ok lib (g_static_ctx st),
                         cc_dctx := ZSTD_newDCtx_ok lib (g_static_ctx st)\<rparr>
               in (cc_cctx c \<and> cc_dctx c, c))
         else (True, if g_codec st = CODEC_LZ4 \<and> g_static_ctx st then z\<lparr>cc_lz4_state := cws\<rparr> else z))"

text \<open>@comp_ctx_fini@: which contexts go back to libzstd, and the zeroed structure.\<close>

definition comp_ctx_fini :: "codec_state \<Rightarrow> comp_ctx \<Rightarrow> string list \<times> comp_ctx" where
  "comp_ctx_fini st c =
     ((if g_codec st = CODEC_ZSTD \<and> \<not> g_static_ctx st
       then (if cc_cctx c then [''ZSTD_freeCCtx''] else []) @ (if cc_dctx c then [''ZSTD_freeDCtx''] else [])
       else []),
      \<lparr>cc_cctx = False, cc_dctx = False, cc_lz4_state = False\<rparr>)"

section \<open>One block\<close>

text \<open>
  @comp_block@ returns the number of bytes to store and the staging slot. A result that
  is an error, empty or not shorter than the block makes it store the block verbatim.
\<close>

definition codec_try :: "codec_lib \<Rightarrow> codec_state \<Rightarrow> comp_ctx \<Rightarrow> byte list \<Rightarrow> nat \<times> byte list" where
  "codec_try lib st c src =
     (case g_codec st of
        CODEC_ZSTD \<Rightarrow>
          (let (r, dst) = ZSTD_compressCCtx lib src CSLOT_SIZE (g_zstd_level st)
           in (if \<not> ZSTD_isError lib r \<and> r > 0 \<and> r < CBLK_SIZE then r else 0, dst))
      | CODEC_LZ4 \<Rightarrow>
          (let (r, dst) = (if cc_lz4_state c then LZ4_compress_fast_extState lib src CSLOT_SIZE
                           else LZ4_compress_default lib src CSLOT_SIZE)
           in (if r > 0 \<and> r < int CBLK_SIZE then nat r else 0, dst))
      | CODEC_NONE \<Rightarrow> (0, []))"

definition comp_block :: "codec_lib \<Rightarrow> codec_state \<Rightarrow> comp_ctx \<Rightarrow> byte list \<Rightarrow> nat \<times> byte list" where
  "comp_block lib st c src =
     (let (n, dst) = codec_try lib st c src
      in if n = 0 then (CBLK_SIZE, take CBLK_SIZE src @ drop CBLK_SIZE dst) else (n, dst))"

text \<open>@decomp_block@ reads @clen@ bytes of the slot; @None@ is its return value -1.\<close>

definition decomp_block :: "codec_lib \<Rightarrow> codec_state \<Rightarrow> byte list \<Rightarrow> nat \<Rightarrow> byte list option" where
  "decomp_block lib st src clen =
     (if clen = CBLK_SIZE then Some (take CBLK_SIZE src)
      else case g_codec st of
             CODEC_ZSTD \<Rightarrow>
               (let (r, dst) = ZSTD_decompressDCtx lib (take clen src) CBLK_SIZE
                in if ZSTD_isError lib r \<or> r \<noteq> CBLK_SIZE then None else Some (take CBLK_SIZE dst))
           | CODEC_LZ4 \<Rightarrow>
               (let (r, dst) = LZ4_decompress_safe lib (take clen src) CBLK_SIZE
                in if r \<noteq> int CBLK_SIZE then None else Some (take CBLK_SIZE dst))
           | CODEC_NONE \<Rightarrow> None)"

text \<open>The three self-test pages: zeros, 0xAA, and a byte ramp.\<close>

definition selftest_page :: "nat \<Rightarrow> byte list" where
  "selftest_page p =
     map (\<lambda>i. if p = 0 then 0 else if p = 1 then 0xAA else of_nat (i * 31 + p)) [0..<CBLK_SIZE]"

definition comp_selftest :: "codec_lib \<Rightarrow> codec_state \<Rightarrow> comp_ctx \<Rightarrow> bool" where
  "comp_selftest lib st c =
     list_all (\<lambda>p. let page = selftest_page p; (n, slot) = comp_block lib st c page
                   in decomp_block lib st slot n = Some page) [0, 1, 2]"

section \<open>What the libraries promise\<close>

text \<open>
  Documented behaviour: a successful compression leaves a frame of the returned length in the
  destination, and decompressing a frame into a buffer that is large enough returns the size of
  the original and restores its bytes.
\<close>

definition zstd_ok :: "codec_lib \<Rightarrow> bool" where
  "zstd_ok lib \<longleftrightarrow>
     (\<forall>src cap lvl r dst. ZSTD_compressCCtx lib src cap lvl = (r, dst) \<longrightarrow> \<not> ZSTD_isError lib r \<longrightarrow>
        r \<le> length dst \<and>
        (\<forall>room. length src \<le> room \<longrightarrow>
           (\<exists>out. ZSTD_decompressDCtx lib (take r dst) room = (length src, out) \<and> take (length src) out = src))) \<and>
     (\<forall>n \<le> CBLK_SIZE. \<not> ZSTD_isError lib n)"

definition lz4_ok :: "codec_lib \<Rightarrow> bool" where
  "lz4_ok lib \<longleftrightarrow>
     (\<forall>src cap r dst. LZ4_compress_fast_extState lib src cap = (r, dst) \<or> LZ4_compress_default lib src cap = (r, dst) \<longrightarrow>
        r > 0 \<longrightarrow> nat r \<le> length dst \<and>
        (\<forall>room. length src \<le> room \<longrightarrow>
           (\<exists>out. LZ4_decompress_safe lib (take (nat r) dst) room = (int (length src), out) \<and>
                  take (length src) out = src)))"

definition codec_lib_ok :: "codec_lib \<Rightarrow> bool" where
  "codec_lib_ok lib \<longleftrightarrow> zstd_ok lib \<and> lz4_ok lib"

section \<open>Facts about blocks\<close>

lemma codec_try_length: "fst (codec_try lib st c src) < CBLK_SIZE"
  by (cases "g_codec st") (auto simp: codec_try_def case_prod_unfold Let_def)

lemma comp_block_length:
  assumes "comp_block lib st c src = (n, dst)"
  shows "1 \<le> n" "n \<le> CBLK_SIZE"
  using assms codec_try_length [of lib st c src]
  by (auto simp: comp_block_def case_prod_unfold Let_def split: if_splits)

lemma zstd_okD:
  assumes "zstd_ok lib" "ZSTD_compressCCtx lib src cap lvl = (r, dst)" "\<not> ZSTD_isError lib r"
    and "length src \<le> room"
  obtains out where "r \<le> length dst" "ZSTD_decompressDCtx lib (take r dst) room = (length src, out)"
    "take (length src) out = src"
  using assms unfolding zstd_ok_def by metis

lemma lz4_okD:
  assumes "lz4_ok lib"
    "LZ4_compress_fast_extState lib src cap = (r, dst) \<or> LZ4_compress_default lib src cap = (r, dst)"
    "r > 0" "length src \<le> room"
  obtains out where "nat r \<le> length dst"
    "LZ4_decompress_safe lib (take (nat r) dst) room = (int (length src), out)" "take (length src) out = src"
  using assms unfolding lz4_ok_def by metis

lemma codec_try_roundtrip:
  assumes ok: "codec_lib_ok lib" and len: "length src = CBLK_SIZE"
    and ct: "codec_try lib st c src = (n, dst)" and n: "0 < n"
  shows "n \<le> length dst \<and> decomp_block lib st (take n dst) n = Some src"
proof -
  have "n \<noteq> CBLK_SIZE" using codec_try_length [of lib st c src] ct by simp
  then have dec: "decomp_block lib st (take n dst) n =
      (case g_codec st of
         CODEC_ZSTD \<Rightarrow> (let (r, out) = ZSTD_decompressDCtx lib (take n dst) CBLK_SIZE
            in if ZSTD_isError lib r \<or> r \<noteq> CBLK_SIZE then None else Some (take CBLK_SIZE out))
       | CODEC_LZ4 \<Rightarrow> (let (r, out) = LZ4_decompress_safe lib (take n dst) CBLK_SIZE
            in if r \<noteq> int CBLK_SIZE then None else Some (take CBLK_SIZE out))
       | CODEC_NONE \<Rightarrow> None)"
    by (cases "g_codec st") (simp_all add: decomp_block_def)
  show ?thesis
  proof (cases "g_codec st")
    case CODEC_NONE
    with ct n show ?thesis by (simp add: codec_try_def)
  next
    case CODEC_ZSTD
    obtain r d where z: "ZSTD_compressCCtx lib src CSLOT_SIZE (g_zstd_level st) = (r, d)" by fastforce
    with ct n CODEC_ZSTD have r: "\<not> ZSTD_isError lib r" "n = r" "dst = d"
      by (auto simp: codec_try_def split: if_splits)
    from ok have zok: "zstd_ok lib" by (simp add: codec_lib_ok_def)
    obtain out where "r \<le> length d" "ZSTD_decompressDCtx lib (take r d) CBLK_SIZE = (length src, out)"
        "take (length src) out = src"
      using zstd_okD [OF zok z r(1), of CBLK_SIZE] len by auto
    moreover have "\<not> ZSTD_isError lib CBLK_SIZE" using zok by (simp add: zstd_ok_def)
    ultimately show ?thesis using r CODEC_ZSTD len dec by simp
  next
    case CODEC_LZ4
    obtain r d where z: "(if cc_lz4_state c then LZ4_compress_fast_extState lib src CSLOT_SIZE
        else LZ4_compress_default lib src CSLOT_SIZE) = (r, d)" by fastforce
    with ct n CODEC_LZ4 have r: "0 < r" "n = nat r" "dst = d"
      by (auto simp: codec_try_def split: if_splits)
    from ok have zok: "lz4_ok lib" by (simp add: codec_lib_ok_def)
    from z have "LZ4_compress_fast_extState lib src CSLOT_SIZE = (r, d) \<or> LZ4_compress_default lib src CSLOT_SIZE = (r, d)"
      by (auto split: if_splits)
    then obtain out where "nat r \<le> length d"
        "LZ4_decompress_safe lib (take (nat r) d) CBLK_SIZE = (int (length src), out)" "take (length src) out = src"
      using lz4_okD [OF zok _ r(1), of src CSLOT_SIZE d CBLK_SIZE] len by auto
    then show ?thesis using r CODEC_LZ4 len dec by simp
  qed
qed

text \<open>
  A slot is stored and read back by its first @n@ bytes only, so the round trip is stated for
  any buffer that starts with them.
\<close>

lemma comp_block_restores:
  assumes ok: "codec_lib_ok lib" and len: "length src = CBLK_SIZE"
    and cb: "comp_block lib st c src = (n, dst)"
  shows "n \<le> length dst \<and> decomp_block lib st (take n dst) n = Some src"
proof (cases "fst (codec_try lib st c src) = 0")
  case True
  with cb have "n = CBLK_SIZE" "take CBLK_SIZE dst = take CBLK_SIZE src" "CBLK_SIZE \<le> length dst"
    using len by (auto simp: comp_block_def case_prod_unfold)
  then show ?thesis using len by (simp add: decomp_block_def)
next
  case False
  with cb have "codec_try lib st c src = (n, dst)"
    by (auto simp: comp_block_def case_prod_unfold Let_def prod_eq_iff)
  then show ?thesis using False ok len by (intro codec_try_roundtrip) auto
qed

lemma decomp_block_prefix: "decomp_block lib st (take n slot @ rest) n = decomp_block lib st (take n slot) n"
  if "n \<le> length slot"
  using that by (cases "g_codec st") (auto simp: decomp_block_def)

lemma decomp_block_take: "decomp_block lib st (take n slot) n = decomp_block lib st slot n"
  by (cases "g_codec st") (simp_all add: decomp_block_def)

text \<open>A page read back is 4096 bytes long, provided the libraries fill the buffer they report on.\<close>

definition codec_fills :: "codec_lib \<Rightarrow> bool" where
  "codec_fills lib \<longleftrightarrow>
     (\<forall>src r dst. ZSTD_decompressDCtx lib src CBLK_SIZE = (r, dst) \<longrightarrow> r \<le> CBLK_SIZE \<longrightarrow> r \<le> length dst) \<and>
     (\<forall>src r dst. LZ4_decompress_safe lib src CBLK_SIZE = (r, dst) \<longrightarrow> r \<le> int CBLK_SIZE \<longrightarrow> nat r \<le> length dst)"

lemma length_selftest_page [simp]: "length (selftest_page p) = CBLK_SIZE"
  by (simp add: selftest_page_def)

section \<open>A small codec\<close>

text \<open>
  An instance of the libraries that compresses a page of equal bytes to a single byte and
  reports an error for everything else. It shows that the laws above can hold of a codec that
  does compress.
\<close>

definition run_page :: "byte list \<Rightarrow> bool" where
  "run_page src \<longleftrightarrow> src = replicate CBLK_SIZE (src ! 0)"

definition run_codec :: codec_lib where
  "run_codec =
     \<lparr>ZSTD_compressCCtx = (\<lambda>src cap lvl. if run_page src \<and> 0 < cap then (1, [src ! 0]) else (CBLK_SIZE + 1, [])),
      ZSTD_decompressDCtx = (\<lambda>src room. case src of
         [b] \<Rightarrow> if CBLK_SIZE \<le> room then (CBLK_SIZE, replicate CBLK_SIZE b) else (CBLK_SIZE + 1, [])
       | _ \<Rightarrow> (CBLK_SIZE + 1, [])),
      ZSTD_isError = (\<lambda>r. CBLK_SIZE < r),
      ZSTD_estimateCCtxSize = (\<lambda>lvl. 64), ZSTD_estimateDCtxSize = 32,
      ZSTD_newCCtx_ok = (\<lambda>s. True), ZSTD_newDCtx_ok = (\<lambda>s. True),
      LZ4_compress_fast_extState = (\<lambda>src cap. if run_page src \<and> 0 < cap then (1, [src ! 0]) else (0, [])),
      LZ4_compress_default = (\<lambda>src cap. if run_page src \<and> 0 < cap then (1, [src ! 0]) else (0, [])),
      LZ4_decompress_safe = (\<lambda>src room. case src of
         [b] \<Rightarrow> if CBLK_SIZE \<le> room then (int CBLK_SIZE, replicate CBLK_SIZE b) else (-1, [])
       | _ \<Rightarrow> (-1, [])),
      LZ4_sizeofState = 16\<rparr>"

lemma run_page_length: "run_page src \<Longrightarrow> length src = CBLK_SIZE"
  unfolding run_page_def by (metis length_replicate)

lemma run_codec_ok: "codec_lib_ok run_codec"
  unfolding codec_lib_ok_def zstd_ok_def lz4_ok_def
  by (auto simp: run_codec_def run_page_length split: if_splits) (auto simp: run_page_def)

section \<open>The choice of the codec\<close>

lemma try_zstd_cases:
  "try_zstd dl st = (False, st) \<or> (\<exists>s. try_zstd dl st = (True, st\<lparr>g_static_ctx := s, g_codec := CODEC_ZSTD\<rparr>))"
  by (auto simp: try_zstd_def split: option.splits)

lemma try_lz4_cases:
  "try_lz4 dl st = (False, st) \<or> (\<exists>s. try_lz4 dl st = (True, st\<lparr>g_static_ctx := s, g_codec := CODEC_LZ4\<rparr>))"
  by (auto simp: try_lz4_def split: option.splits)

lemma try_same_answer: "fst (try_zstd dl st) = fst (try_zstd dl st')" "fst (try_lz4 dl st) = fst (try_lz4 dl st')"
  by (auto simp: try_zstd_def try_lz4_def split: option.splits)

lemma clamp_bounds: "lo \<le> hi \<Longrightarrow> lo \<le> clamp lo hi v \<and> clamp lo hi v \<le> hi"
  by (simp add: clamp_def Let_def)

text \<open>The globals when the libraries are first tried: no codec yet and the level already clamped.\<close>

definition level_set :: "(string \<Rightarrow> string option) \<Rightarrow> codec_state \<Rightarrow> codec_state" where
  "level_set getenv st0 =
     (case getenv ''VRAM_COMPRESS_LEVEL'' of
        None \<Rightarrow> st0
      | Some lvl \<Rightarrow> if lvl = [] then st0 else st0\<lparr>g_zstd_level := clamp 1 19 (atoi lvl)\<rparr>)"

lemma level_set_boot:
  "g_codec (level_set getenv codec_boot) = CODEC_NONE"
  "1 \<le> g_zstd_level (level_set getenv codec_boot)" "g_zstd_level (level_set getenv codec_boot) \<le> 19"
  using clamp_bounds [of 1 19] by (auto simp: level_set_def codec_boot_def split: option.splits)


text \<open>
  C20. A block survives the codec: what comp_block stores is between 1 and 4096 bytes, fits
  the index entry's length field, and decomp_block of those bytes, whatever follows them in
  the slot, restores the block, for every codec that keeps its documented promise.
\<close>

theorem comp_block_roundtrip:
  assumes "codec_lib_ok lib" and "length src = CBLK_SIZE"
  shows "1 \<le> fst (comp_block lib st c src) \<and> fst (comp_block lib st c src) \<le> CBLK_SIZE \<and>
    decomp_block lib st (take (fst (comp_block lib st c src)) (snd (comp_block lib st c src)) @ rest)
      (fst (comp_block lib st c src)) = Some src"
proof -
  obtain n dst where cb: "comp_block lib st c src = (n, dst)" by fastforce
  with comp_block_restores [OF assms cb] comp_block_length [OF cb] show ?thesis
    by (simp add: decomp_block_prefix)
qed

definition plain_ctx :: comp_ctx where
  "plain_ctx = \<lparr>cc_cctx = False, cc_dctx = False, cc_lz4_state = False\<rparr>"

theorem comp_block_roundtrip_witness:
  "decomp_block run_codec \<lparr>g_codec = CODEC_ZSTD, g_zstd_level = 1, g_static_ctx = False\<rparr>
     (take (fst (comp_block run_codec \<lparr>g_codec = CODEC_ZSTD, g_zstd_level = 1, g_static_ctx = False\<rparr> plain_ctx
              (replicate CBLK_SIZE 7)))
        (snd (comp_block run_codec \<lparr>g_codec = CODEC_ZSTD, g_zstd_level = 1, g_static_ctx = False\<rparr> plain_ctx
              (replicate CBLK_SIZE 7))) @ [1, 2, 3])
     (fst (comp_block run_codec \<lparr>g_codec = CODEC_ZSTD, g_zstd_level = 1, g_static_ctx = False\<rparr> plain_ctx
              (replicate CBLK_SIZE 7))) = Some (replicate CBLK_SIZE 7) \<and>
   fst (comp_block run_codec \<lparr>g_codec = CODEC_ZSTD, g_zstd_level = 1, g_static_ctx = False\<rparr> plain_ctx
          (replicate CBLK_SIZE 7)) = 1"
proof
  show "fst (comp_block run_codec \<lparr>g_codec = CODEC_ZSTD, g_zstd_level = 1, g_static_ctx = False\<rparr> plain_ctx
          (replicate CBLK_SIZE 7)) = 1"
    by (simp add: comp_block_def codec_try_def run_codec_def run_page_def CSLOT_SIZE_def)
qed (use comp_block_roundtrip [OF run_codec_ok, of "replicate CBLK_SIZE 7"] in simp)

lemma comp_selftest_all: "codec_lib_ok lib \<Longrightarrow> comp_selftest lib st c"
  using comp_block_restores [of lib "selftest_page p" st c for p]
  by (auto simp: comp_selftest_def Let_def case_prod_unfold list_all_iff decomp_block_take)

text \<open>
  The startup self-test passes with every codec that keeps its documented promise and
  every context, so a failing self-test is evidence against the library.
\<close>

theorem comp_selftest_passes: "codec_lib_ok lib \<Longrightarrow> comp_selftest lib st c"
  by (rule comp_selftest_all)

theorem comp_selftest_passes_witness: "comp_selftest run_codec codec_boot plain_ctx"
  using comp_selftest_passes [OF run_codec_ok] by blast

end
