(* ===== verification/Cuda.thy ===== *)
theory Cuda
  imports Nbd_Prelude
begin

text \<open>
  The CUDA driver as the daemon uses it. libcuda is not part of the program: the copies and
  the synchronise are the functions of the record @cuda@ over an abstract driver state, and
  the locale @cuda_device@ states what their documentation promises of the device memory.
  A copy is modelled at the moment it is issued; every place where another worker may run
  before or after that moment is explicit in the block store, so no interleaving of a copy
  with other workers is lost. The test stub src/test-harness/fakecuda.c, which keeps the
  device memory in host memory, is modelled too and interprets the locale.
\<close>

section \<open>The driver\<close>

text \<open>A copy to the device gets the address and the bytes; a copy from the device gets the address
  and a length, and gives the bytes it left in the host buffer. The first component is the
  CUresult, 0 for CUDA_SUCCESS.\<close>

record 'd cuda =
  cuMemcpyHtoDAsync :: "nat \<Rightarrow> byte list \<Rightarrow> 'd \<Rightarrow> int \<times> 'd"
  cuMemcpyDtoHAsync :: "nat \<Rightarrow> nat \<Rightarrow> 'd \<Rightarrow> int \<times> byte list \<times> 'd"
  cuStreamSynchronize :: "'d \<Rightarrow> int \<times> 'd"

definition CUDA_SUCCESS :: int where "CUDA_SUCCESS = 0"

section \<open>Loading libcuda\<close>

definition libcuda_paths :: "string list" where
  "libcuda_paths = [''libcuda.so.1'', ''/usr/lib/x86_64-linux-gnu/libcuda.so.1'', ''/usr/lib64/libcuda.so.1'']"

definition libcuda_symbols :: "string list" where
  "libcuda_symbols =
     [''cuInit'', ''cuDeviceGet'', ''cuCtxCreate_v2'', ''cuCtxDestroy_v2'', ''cuCtxSetCurrent'', ''cuMemAlloc_v2'',
      ''cuMemFree_v2'', ''cuMemcpyHtoDAsync_v2'', ''cuMemcpyDtoHAsync_v2'', ''cuStreamCreate'', ''cuStreamDestroy_v2'',
      ''cuStreamSynchronize'', ''cuMemAllocHost_v2'', ''cuMemFreeHost'', ''cuGetErrorString'']"

text \<open>The first path that opens is taken, and every symbol must then be found in it.\<close>

fun first_opening :: "dl \<Rightarrow> string list \<Rightarrow> (string \<times> (string \<Rightarrow> bool)) option" where
  "first_opening dl [] = None"
| "first_opening dl (p # ps) = (case dl p of None \<Rightarrow> first_opening dl ps | Some found \<Rightarrow> Some (p, found))"

definition load_libcuda :: "dl \<Rightarrow> bool" where
  "load_libcuda dl =
     (case first_opening dl libcuda_paths of
        None \<Rightarrow> False
      | Some (p, found) \<Rightarrow> list_all found libcuda_symbols)"

section \<open>What the driver promises\<close>

text \<open>
  @mem d@ is the device memory in driver state @d@ and [lo, hi) the allocation the daemon
  holds. A successful copy to the device replaces exactly its range and a failed one touches
  nothing outside it; a copy from the device changes no memory and, when it succeeds,
  delivers the bytes of its range; a successful synchronise leaves the copies as they are.
\<close>

locale cuda_device =
  fixes cu :: "'d cuda" and mem :: "'d \<Rightarrow> nat \<Rightarrow> byte" and lo hi :: nat
  assumes HtoD_ok:
      "lo \<le> a \<Longrightarrow> a + length bs \<le> hi \<Longrightarrow> cuMemcpyHtoDAsync cu a bs d = (CUDA_SUCCESS, d') \<Longrightarrow>
       mem d' = (\<lambda>x. if a \<le> x \<and> x < a + length bs then bs ! (x - a) else mem d x)"
    and HtoD_fail:
      "lo \<le> a \<Longrightarrow> a + length bs \<le> hi \<Longrightarrow> cuMemcpyHtoDAsync cu a bs d = (r, d') \<Longrightarrow>
       \<not> (a \<le> x \<and> x < a + length bs) \<Longrightarrow> mem d' x = mem d x"
    and DtoH_mem:
      "lo \<le> a \<Longrightarrow> a + n \<le> hi \<Longrightarrow> cuMemcpyDtoHAsync cu a n d = (r, out, d') \<Longrightarrow> mem d' = mem d"
    and DtoH_ok:
      "lo \<le> a \<Longrightarrow> a + n \<le> hi \<Longrightarrow> cuMemcpyDtoHAsync cu a n d = (CUDA_SUCCESS, out, d') \<Longrightarrow>
       out = map (mem d) [a..<a + n]"
    and sync_mem: "cuStreamSynchronize cu d = (CUDA_SUCCESS, d') \<Longrightarrow> mem d' = mem d"
begin

text \<open>A range that a copy does not meet keeps its bytes.\<close>

lemma HtoD_frame:
  assumes "lo \<le> a" "a + length bs \<le> hi" "cuMemcpyHtoDAsync cu a bs d = (r, d')"
    and "{a..<a + length bs} \<inter> {x..<x + n} = {}"
  shows "map (mem d') [x..<x + n] = map (mem d) [x..<x + n]"
proof -
  have "mem d' y = mem d y" if "y \<in> {x..<x + n}" for y
    using HtoD_fail [OF assms(1-3), of y] that assms(4) by fastforce
  then show ?thesis by auto
qed

lemma HtoD_readback:
  assumes "lo \<le> a" "a + length bs \<le> hi" "cuMemcpyHtoDAsync cu a bs d = (CUDA_SUCCESS, d')"
  shows "map (mem d') [a..<a + length bs] = bs"
  by (rule nth_equalityI) (simp_all add: HtoD_ok [OF assms])

end

text \<open>A driver whose synchronise reports no error, the one case the daemon is written for: it never
  looks at the result.\<close>

locale cuda_sync = cuda_device +
  assumes sync_ok: "fst (cuStreamSynchronize cu d) = CUDA_SUCCESS"
begin

lemma sync_keeps: "mem (snd (cuStreamSynchronize cu d)) = mem d"
  using sync_mem [of d "snd (cuStreamSynchronize cu d)"] sync_ok [of d] by (metis prod.collapse)

end

section \<open>The test stub\<close>

text \<open>The device memory is host memory and every call succeeds.\<close>

definition fake_HtoD :: "nat \<Rightarrow> byte list \<Rightarrow> (nat \<Rightarrow> byte) \<Rightarrow> int \<times> (nat \<Rightarrow> byte)" where
  "fake_HtoD a bs m = (0, \<lambda>x. if a \<le> x \<and> x < a + length bs then bs ! (x - a) else m x)"

definition fake_DtoH :: "nat \<Rightarrow> nat \<Rightarrow> (nat \<Rightarrow> byte) \<Rightarrow> int \<times> byte list \<times> (nat \<Rightarrow> byte)" where
  "fake_DtoH a n m = (0, map m [a..<a + n], m)"

definition fake_sync :: "(nat \<Rightarrow> byte) \<Rightarrow> int \<times> (nat \<Rightarrow> byte)" where
  "fake_sync m = (0, m)"

definition fakecuda :: "(nat \<Rightarrow> byte) cuda" where
  "fakecuda = \<lparr>cuMemcpyHtoDAsync = fake_HtoD, cuMemcpyDtoHAsync = fake_DtoH, cuStreamSynchronize = fake_sync\<rparr>"

interpretation fake: cuda_sync fakecuda "\<lambda>m. m" lo hi for lo hi
  by unfold_locales
    (auto simp: fakecuda_def fake_HtoD_def fake_DtoH_def fake_sync_def CUDA_SUCCESS_def)

end
