(* ===== verification/Block_Store.thy ===== *)
theory Block_Store
  imports Block_Index Extent_Allocator Codec Cuda
begin

text \<open>
  The block store of nbd-vram.c: the block primitives (@wr_prepare@, @wr_publish@,
  @wr_abort@, @rd_prepare@, @rd_finish@, @rd_block_locked@), the phase structure of
  @do_blocks@, whole-block runs, the read-modify-write of a partial block, byte ranges and
  TRIM.

  The state the worker threads share is the record @world@. One worker is modelled in full;
  what the others do between two of its atomic actions is the function @others@ of the
  record @env@, applied by @yield@ before every access to shared state: an index load, an
  allocator call, a copy, a synchronise, a lock acquisition. While the worker holds a stripe
  lock, @others@ is told so. The unsigned long counters wrap at 2^64.
\<close>

section \<open>Shared state and environment\<close>

record 'd world =
  w_heap :: heap
  g_index :: "64 word list"
  w_dev :: 'd
  g_blocks_live :: nat
  g_codec_bytes :: nat
  g_raw_blocks :: nat
  g_enospc :: nat
  g_trim_blocks :: nat
  g_read_retry :: nat
  w_tick :: nat

text \<open>
  The libraries, the codec chosen and this worker's context, the build's EXTENT_SHIFT, the allocation, the sizes and the
  batch depth, all fixed once the daemon serves; and the other workers.
\<close>

record 'd env =
  en_cuda :: "'d cuda"
  en_lib :: codec_lib
  en_codec :: codec_state
  en_cc :: comp_ctx
  en_ext_shift :: nat
  g_vram_ptr :: nat
  g_vram_size :: nat
  g_disk_size :: nat
  g_batch_depth :: nat
  others :: "nat \<Rightarrow> nat option \<Rightarrow> 'd world \<Rightarrow> 'd world"

definition IDX_LOCKS :: nat where "IDX_LOCKS = 4096"
definition BATCH_SLOT :: nat where "BATCH_SLOT = 64 * 1024"
definition BATCH_BLOCKS :: nat where "BATCH_BLOCKS = BATCH_SLOT div CBLK_SIZE"
definition LEGACY_WINDOW_BLOCKS :: nat where "LEGACY_WINDOW_BLOCKS = 64"
definition IO_BUF_SIZE :: nat where "IO_BUF_SIZE = LEGACY_WINDOW_BLOCKS * CBLK_SIZE"

definition g_nblocks :: "'d env \<Rightarrow> nat" where
  "g_nblocks en = g_disk_size en div 2 ^ CBLK_SHIFT"

text \<open>The number of block operations a worker has room for, as worker_init sizes it.\<close>

definition maxops :: "'d env \<Rightarrow> nat" where
  "maxops en =
     (let m = u32 (g_batch_depth en * BATCH_BLOCKS)
      in if m < LEGACY_WINDOW_BLOCKS then LEGACY_WINDOW_BLOCKS else m)"

text \<open>The stripe lock of a block, @IDXL@.\<close>

definition IDXL :: "nat \<Rightarrow> nat" where "IDXL blk = blk mod IDX_LOCKS"

definition yield :: "'d env \<Rightarrow> nat option \<Rightarrow> 'd world \<Rightarrow> 'd world" where
  "yield en held w = (others en (w_tick w) held w)\<lparr>w_tick := Suc (w_tick w)\<rparr>"

section \<open>One block operation\<close>

text \<open>
  @bo_cslot@ and @bo_page@ are the bytes of the operation's staging slot and of its page.
  What an earlier operation left in a staging slot is never read, so the slot starts empty.
\<close>

record blkop =
  bo_blk :: nat
  bo_ent :: "64 word"
  bo_grain :: nat
  bo_clen :: nat
  bo_req :: nat
  bo_cmd :: nat
  bo_err :: nat
  bo_dma :: nat
  bo_cslot :: "byte list"
  bo_page :: "byte list"

definition blkop_set :: "nat \<Rightarrow> nat \<Rightarrow> byte list \<Rightarrow> nat \<Rightarrow> blkop" where
  "blkop_set blk cmd page req =
     \<lparr>bo_blk = blk, bo_ent = 0, bo_grain = SLOT_NONE, bo_clen = 0, bo_req = req, bo_cmd = cmd,
      bo_err = 0, bo_dma = 0, bo_cslot = [], bo_page = page\<rparr>"

definition zero_page :: "byte list" where "zero_page = replicate CBLK_SIZE 0"

definition idx_load :: "nat \<Rightarrow> 'd world \<Rightarrow> 64 word" where
  "idx_load blk w = g_index w ! blk"

definition dev_at :: "'d env \<Rightarrow> nat \<Rightarrow> nat" where
  "dev_at en grain = u64 (g_vram_ptr en + grain * ALLOC_GRAIN)"

definition oob :: "'d env \<Rightarrow> nat \<Rightarrow> nat \<Rightarrow> bool" where
  "oob en offset len \<longleftrightarrow> offset > g_disk_size en \<or> len > sub64 (g_disk_size en) offset"

definition note_enospc :: "'d world \<Rightarrow> 'd world" where
  "note_enospc w = w\<lparr>g_enospc := u64 (g_enospc w + 1)\<rparr>"

text \<open>Calls into the allocator and the driver, each after the others had their turn.\<close>

definition alloc_slot :: "'d env \<Rightarrow> nat option \<Rightarrow> nat \<Rightarrow> 'd world \<Rightarrow> nat \<times> 'd world" where
  "alloc_slot en held n w =
     (let w1 = yield en held w; (g, sb, h) = slot_alloc n (w_heap w1) in (g, w1\<lparr>w_heap := h\<rparr>))"

definition free_slot :: "'d env \<Rightarrow> nat option \<Rightarrow> nat \<Rightarrow> 'd world \<Rightarrow> 'd world" where
  "free_slot en held g w =
     (let w1 = yield en held w in w1\<lparr>w_heap := snd (slot_free g (w_heap w1))\<rparr>)"

definition copy_in :: "'d env \<Rightarrow> nat option \<Rightarrow> nat \<Rightarrow> byte list \<Rightarrow> 'd world \<Rightarrow> int \<times> 'd world" where
  "copy_in en held g bs w =
     (let w1 = yield en held w; (r, d) = cuMemcpyHtoDAsync (en_cuda en) (dev_at en g) bs (w_dev w1)
      in (r, w1\<lparr>w_dev := d\<rparr>))"

definition copy_out :: "'d env \<Rightarrow> nat option \<Rightarrow> nat \<Rightarrow> nat \<Rightarrow> 'd world \<Rightarrow> int \<times> byte list \<times> 'd world" where
  "copy_out en held g n w =
     (let w1 = yield en held w; (r, bs, d) = cuMemcpyDtoHAsync (en_cuda en) (dev_at en g) n (w_dev w1)
      in (r, bs, w1\<lparr>w_dev := d\<rparr>))"

definition sync :: "'d env \<Rightarrow> nat option \<Rightarrow> 'd world \<Rightarrow> 'd world" where
  "sync en held w =
     (let w1 = yield en held w in w1\<lparr>w_dev := snd (cuStreamSynchronize (en_cuda en) (w_dev w1))\<rparr>)"

section \<open>Block primitives\<close>

definition wr_prepare :: "'d env \<Rightarrow> blkop \<Rightarrow> 'd world \<Rightarrow> blkop \<times> 'd world" where
  "wr_prepare en bo w =
     (let (n, slot) = comp_block (en_lib en) (en_codec en) (en_cc en) (bo_page bo);
          (g, w1) = alloc_slot en None n w;
          bo1 = bo\<lparr>bo_clen := n, bo_cslot := slot, bo_grain := g\<rparr>
      in if g = SLOT_NONE then (bo1\<lparr>bo_err := ENOSPC, bo_dma := 0\<rparr>, note_enospc w1)
         else (bo1\<lparr>bo_dma := 1\<rparr>, w1))"

text \<open>
  The second half of a publish, once the new entry is in the index: the displaced slot is
  freed and the counters follow. wr_publish runs it after unlocking, rmw_block under the lock.
\<close>

definition release_old :: "'d env \<Rightarrow> nat option \<Rightarrow> 64 word \<Rightarrow> 'd world \<Rightarrow> 'd world" where
  "release_old en held old w =
     (let w1 = free_slot en held (unat (ent_grain old)) w;
          w2 = w1\<lparr>g_codec_bytes := sub64 (g_codec_bytes w1) (unat (ent_clen old))\<rparr>
      in if unat (ent_clen old) = CBLK_SIZE then w2\<lparr>g_raw_blocks := sub64 (g_raw_blocks w2) 1\<rparr> else w2)"

definition displace :: "'d env \<Rightarrow> nat option \<Rightarrow> 64 word \<Rightarrow> nat \<Rightarrow> 'd world \<Rightarrow> 'd world" where
  "displace en held old clen w =
     (let w1 = (if ent_clen old \<noteq> 0 then release_old en held old w
                else w\<lparr>g_blocks_live := u64 (g_blocks_live w + 1)\<rparr>);
          w2 = w1\<lparr>g_codec_bytes := u64 (g_codec_bytes w1 + clen)\<rparr>
      in if clen = CBLK_SIZE then w2\<lparr>g_raw_blocks := u64 (g_raw_blocks w2 + 1)\<rparr> else w2)"

definition idx_publish :: "nat \<Rightarrow> nat \<Rightarrow> nat \<Rightarrow> 'd world \<Rightarrow> 'd world" where
  "idx_publish blk grain clen w =
     w\<lparr>g_index := (g_index w)[blk := ent_publish (grain, clen) (idx_load blk w)]\<rparr>"

definition wr_publish :: "'d env \<Rightarrow> blkop \<Rightarrow> 'd world \<Rightarrow> 'd world" where
  "wr_publish en bo w =
     (let w1 = yield en None w;
          old = idx_load (bo_blk bo) w1;
          w2 = idx_publish (bo_blk bo) (bo_grain bo) (bo_clen bo) w1
      in displace en None old (bo_clen bo) w2)"

definition wr_abort :: "'d env \<Rightarrow> blkop \<Rightarrow> 'd world \<Rightarrow> blkop \<times> 'd world" where
  "wr_abort en bo w =
     (let w1 = (if bo_grain bo \<noteq> SLOT_NONE then free_slot en None (bo_grain bo) w else w)
      in (bo\<lparr>bo_grain := SLOT_NONE, bo_dma := 0\<rparr>, w1))"

definition rd_prepare :: "'d env \<Rightarrow> blkop \<Rightarrow> 'd world \<Rightarrow> blkop \<times> 'd world" where
  "rd_prepare en bo w =
     (let w1 = yield en None w; e = idx_load (bo_blk bo) w1
      in (bo\<lparr>bo_ent := e, bo_clen := unat (ent_clen e), bo_grain := unat (ent_grain e),
             bo_dma := (if ent_clen e \<noteq> 0 then 1 else 0)\<rparr>, w1))"

text \<open>
  The result of @rd_finish@: 0 done, 1 the block was rewritten and the read must be retried,
  -1 the stored bytes do not decompress.
\<close>

definition rd_finish :: "'d env \<Rightarrow> blkop \<Rightarrow> 'd world \<Rightarrow> int \<times> blkop \<times> 'd world" where
  "rd_finish en bo w =
     (if bo_clen bo = 0 then (0, bo\<lparr>bo_page := zero_page\<rparr>, w)
      else let w1 = yield en None w
           in if idx_load (bo_blk bo) w1 \<noteq> bo_ent bo then (1, bo, w1)
              else case decomp_block (en_lib en) (en_codec en) (bo_cslot bo) (bo_clen bo) of
                     None \<Rightarrow> (-1, bo, w1)
                   | Some page \<Rightarrow> (0, bo\<lparr>bo_page := page\<rparr>, w1))"

text \<open>A locked read or a read-modify-write fetches the block's page under the stripe lock.\<close>

definition fetch_locked :: "'d env \<Rightarrow> nat \<Rightarrow> 64 word \<Rightarrow> 'd world \<Rightarrow> byte list option \<times> 'd world" where
  "fetch_locked en blk e w =
     (if ent_clen e = 0 then (Some zero_page, w)
      else let (r, bs, w1) = copy_out en (Some (IDXL blk)) (unat (ent_grain e)) (unat (ent_clen e)) w
           in if r \<noteq> CUDA_SUCCESS then (None, w1)
              else (decomp_block (en_lib en) (en_codec en) bs (unat (ent_clen e)), sync en (Some (IDXL blk)) w1))"

definition rd_block_locked :: "'d env \<Rightarrow> nat \<Rightarrow> 'd world \<Rightarrow> byte list option \<times> 'd world" where
  "rd_block_locked en blk w = (let w1 = yield en None w in fetch_locked en blk (idx_load blk w1) w1)"

section \<open>A set of block operations\<close>

text \<open>Phase B: queue the copy of one operation. The state carries the number queued so far.\<close>

definition issue_copy :: "'d env \<Rightarrow> blkop \<Rightarrow> nat \<times> 'd world \<Rightarrow> blkop \<times> nat \<times> 'd world" where
  "issue_copy en bo s =
     (let (queued, w) = s in
      if bo_dma bo = 0 \<or> bo_err bo \<noteq> 0 then (bo, queued, w)
      else if bo_cmd bo = NBD_CMD_READ
           then let (r, bs, w1) = copy_out en None (bo_grain bo) (bo_clen bo) w
                in if r \<noteq> CUDA_SUCCESS then (bo\<lparr>bo_err := EIO, bo_dma := 0\<rparr>, queued, w1)
                   else (bo\<lparr>bo_cslot := bs @ drop (bo_clen bo) (bo_cslot bo)\<rparr>, queued + 1, w1)
           else let (r, w1) = copy_in en None (bo_grain bo) (take (bo_clen bo) (bo_cslot bo)) w
                in if r \<noteq> CUDA_SUCCESS then (bo\<lparr>bo_err := EIO, bo_dma := 0\<rparr>, queued, w1)
                   else (bo, queued + 1, w1))"

text \<open>A read that is neither failed nor done (dma 2) takes part in a validation round.\<close>

definition rd_pending :: "blkop \<Rightarrow> bool" where
  "rd_pending bo \<longleftrightarrow> bo_cmd bo = NBD_CMD_READ \<and> bo_err bo = 0 \<and> bo_dma bo \<noteq> 2"

definition finish_read :: "'d env \<Rightarrow> blkop \<Rightarrow> nat \<times> 'd world \<Rightarrow> blkop \<times> nat \<times> 'd world" where
  "finish_read en bo s =
     (let (again, w) = s in
      if \<not> rd_pending bo then (bo, again, w)
      else let (rc, bo1, w1) = rd_finish en bo w
           in if rc = 0 then (bo1\<lparr>bo_dma := 2\<rparr>, again, w1)
              else if rc < 0 then (bo1\<lparr>bo_err := EIO\<rparr>, again, w1)
              else (bo1, again + 1, w1))"

definition retry_read :: "'d env \<Rightarrow> blkop \<Rightarrow> nat \<times> 'd world \<Rightarrow> blkop \<times> nat \<times> 'd world" where
  "retry_read en bo s =
     (let (q, w) = s in
      if \<not> rd_pending bo then (bo, q, w)
      else let (bo1, w1) = rd_prepare en bo w
           in if bo_dma bo1 = 0 then (bo1, q, w1)
              else let (r, bs, w2) = copy_out en None (bo_grain bo1) (bo_clen bo1) w1
                   in if r \<noteq> CUDA_SUCCESS then (bo1\<lparr>bo_err := EIO, bo_dma := 0\<rparr>, q, w2)
                      else (bo1\<lparr>bo_cslot := bs @ drop (bo_clen bo1) (bo_cslot bo1)\<rparr>, q + 1, w2))"

text \<open>At most @k@ validation rounds; a round with no loser ends the loop.\<close>

fun read_rounds :: "'d env \<Rightarrow> nat \<Rightarrow> blkop list \<Rightarrow> 'd world \<Rightarrow> blkop list \<times> 'd world" where
  "read_rounds en 0 ops w = (ops, w)"
| "read_rounds en (Suc k) ops w =
     (let (ops1, again, w1) = map_state (finish_read en) ops (0, w)
      in if again = 0 then (ops1, w1)
         else let w2 = w1\<lparr>g_read_retry := u64 (g_read_retry w1 + again)\<rparr>;
                  (ops2, q, w3) = map_state (retry_read en) ops1 (0, w2);
                  w4 = (if q \<noteq> 0 then sync en None w3 else w3)
              in read_rounds en k ops2 w4)"

definition read_locked :: "'d env \<Rightarrow> blkop \<Rightarrow> 'd world \<Rightarrow> blkop \<times> 'd world" where
  "read_locked en bo w =
     (if \<not> rd_pending bo then (bo, w)
      else case rd_block_locked en (bo_blk bo) w of
             (None, w1) \<Rightarrow> (bo\<lparr>bo_err := EIO, bo_dma := 2\<rparr>, w1)
           | (Some page, w1) \<Rightarrow> (bo\<lparr>bo_page := page, bo_dma := 2\<rparr>, w1))"

definition publish_write :: "'d env \<Rightarrow> blkop \<Rightarrow> 'd world \<Rightarrow> blkop \<times> 'd world" where
  "publish_write en bo w =
     (if bo_cmd bo \<noteq> NBD_CMD_WRITE \<or> bo_err bo \<noteq> 0 \<or> bo_grain bo = SLOT_NONE then (bo, w)
      else (bo, wr_publish en bo w))"

definition do_blocks :: "'d env \<Rightarrow> blkop list \<Rightarrow> 'd world \<Rightarrow> blkop list \<times> 'd world" where
  "do_blocks en ops w =
     (let (ops1, queued, w1) = map_state (issue_copy en) ops (0, w);
          w2 = (if queued \<noteq> 0 then sync en None w1 else w1);
          (ops3, w3) = read_rounds en 4 ops1 w2;
          (ops4, w4) = map_state (read_locked en) ops3 w3
      in map_state (publish_write en) ops4 w4)"

section \<open>Runs of whole blocks\<close>

lemma maxops_ge: "64 \<le> maxops en"
  by (simp add: maxops_def LEGACY_WINDOW_BLOCKS_def Let_def)

lemma maxops_pos [simp]: "0 < maxops en"
  using maxops_ge [of en] by linarith

text \<open>@load_blocks@ returns the error number and the bytes read.\<close>

function load_blocks :: "'d env \<Rightarrow> nat \<Rightarrow> nat \<Rightarrow> 'd world \<Rightarrow> nat \<times> byte list \<times> 'd world" where
  "load_blocks en blk nblocks w =
     (if nblocks = 0 then (0, [], w)
      else let n = (if nblocks > maxops en then maxops en else nblocks);
               ops = map (\<lambda>i. blkop_set (blk + i) NBD_CMD_READ [] 0) [0..<n];
               (ops1, w1) = map_state (rd_prepare en) ops w;
               (ops2, w2) = do_blocks en ops1 w1
           in if \<exists>bo \<in> set ops2. bo_err bo \<noteq> 0 then (EIO, [], w2)
              else let (e, rest, w3) = load_blocks en (blk + n) (nblocks - n) w2
                   in (e, concat (map bo_page ops2) @ rest, w3))"
  by pat_completeness auto
termination
  by (relation "measure (\<lambda>(en, blk, nblocks, w). nblocks)") (auto simp: not_le intro!: diff_less)

text \<open>The error of a run: the first one seen, unless a later one is EIO.\<close>

definition note_err :: "nat \<Rightarrow> nat \<Rightarrow> nat" where
  "note_err err e = (if e \<noteq> 0 \<and> (err = 0 \<or> e = EIO) then e else err)"

function store_blocks :: "'d env \<Rightarrow> nat \<Rightarrow> byte list \<Rightarrow> nat \<Rightarrow> nat \<Rightarrow> 'd world \<Rightarrow> nat \<times> 'd world" where
  "store_blocks en blk src nblocks err w =
     (if nblocks = 0 then (err, w)
      else let n = (if nblocks > maxops en then maxops en else nblocks);
               ops = map (\<lambda>i. blkop_set (blk + i) NBD_CMD_WRITE (take CBLK_SIZE (drop (i * CBLK_SIZE) src)) 0) [0..<n];
               (ops1, w1) = map_state (wr_prepare en) ops w;
               (ops2, w2) = do_blocks en ops1 w1
           in store_blocks en (blk + n) (drop (n * CBLK_SIZE) src) (nblocks - n)
                (fold (\<lambda>bo e. note_err e (bo_err bo)) ops2 err) w2)"
  by pat_completeness auto
termination
  by (relation "measure (\<lambda>(en, blk, src, nblocks, err, w). nblocks)") (auto simp: not_le intro!: diff_less)

declare load_blocks.simps [simp del] store_blocks.simps [simp del]

section \<open>Partial blocks and byte ranges\<close>

definition overlay :: "byte list \<Rightarrow> nat \<Rightarrow> byte list \<Rightarrow> byte list" where
  "overlay page boff bs = take boff page @ bs @ drop (boff + length bs) page"

definition rmw_block :: "'d env \<Rightarrow> nat \<Rightarrow> nat \<Rightarrow> byte list \<Rightarrow> 'd world \<Rightarrow> nat \<times> 'd world" where
  "rmw_block en blk boff src w =
     (let held = Some (IDXL blk);
          w1 = yield en None w;
          old = idx_load blk w1;
          (page, w2) = fetch_locked en blk old w1
      in case page of
           None \<Rightarrow> (EIO, w2)
         | Some scratch \<Rightarrow>
             let (clen, cscratch) = comp_block (en_lib en) (en_codec en) (en_cc en) (overlay scratch boff src);
                 (grain, w3) = alloc_slot en held clen w2
             in if grain = SLOT_NONE then (ENOSPC, note_enospc w3)
                else let (r, w4) = copy_in en held grain (take clen cscratch) w3
                     in if r \<noteq> CUDA_SUCCESS then (EIO, free_slot en held grain w4)
                        else let w5 = sync en held w4;
                                 w6 = w5\<lparr>g_index := (g_index w5)[blk := ent_publish (grain, clen) old]\<rparr>
                             in (0, displace en held old clen w6))"

text \<open>
  @load_range@ and @store_range@ split a range into a partial head (when the offset is
  inside a block), the aligned middle and a partial tail: the byte count of the head, the
  whole blocks after it and the bytes left over.
\<close>

definition head_cnt :: "nat \<Rightarrow> nat \<Rightarrow> nat" where
  "head_cnt off n =
     (if off mod CBLK_SIZE \<noteq> 0
      then let cnt = CBLK_SIZE - off mod CBLK_SIZE in if cnt > n then n else cnt
      else 0)"

definition mid_cnt :: "nat \<Rightarrow> nat \<Rightarrow> nat" where
  "mid_cnt off n = (n - head_cnt off n) div 2 ^ CBLK_SHIFT"

definition tail_cnt :: "nat \<Rightarrow> nat \<Rightarrow> nat" where
  "tail_cnt off n = n - head_cnt off n - mid_cnt off n * CBLK_SIZE"

definition off_mid :: "nat \<Rightarrow> nat \<Rightarrow> nat" where
  "off_mid off n = u64 (off + head_cnt off n)"

definition off_tail :: "nat \<Rightarrow> nat \<Rightarrow> nat" where
  "off_tail off n = u64 (off_mid off n + mid_cnt off n * CBLK_SIZE)"

text \<open>A part is skipped when its condition does not hold.\<close>

definition load_part :: "'d env \<Rightarrow> bool \<Rightarrow> nat \<Rightarrow> nat \<Rightarrow> 'd world \<Rightarrow> nat \<times> byte list \<times> 'd world" where
  "load_part en c off k w = (if c then load_blocks en (off div 2 ^ CBLK_SHIFT) k w else (0, [], w))"

definition load_range :: "'d env \<Rightarrow> nat \<Rightarrow> nat \<Rightarrow> 'd world \<Rightarrow> nat \<times> byte list \<times> 'd world" where
  "load_range en off n w =
     (case load_part en (off mod CBLK_SIZE \<noteq> 0) off 1 w of (e1, head, w1) \<Rightarrow>
      if e1 \<noteq> 0 then (EIO, [], w1)
      else case load_part en (n - head_cnt off n \<ge> CBLK_SIZE) (off_mid off n) (mid_cnt off n) w1 of (e2, mid, w2) \<Rightarrow>
      if e2 \<noteq> 0 then (EIO, [], w2)
      else case load_part en (tail_cnt off n \<noteq> 0) (off_tail off n) 1 w2 of (e3, tail, w3) \<Rightarrow>
      if e3 \<noteq> 0 then (EIO, [], w3)
      else (0, take (head_cnt off n) (drop (off mod CBLK_SIZE) head) @ mid @ take (tail_cnt off n) tail, w3))"

definition rmw_part :: "'d env \<Rightarrow> bool \<Rightarrow> nat \<Rightarrow> nat \<Rightarrow> byte list \<Rightarrow> 'd world \<Rightarrow> nat \<times> 'd world" where
  "rmw_part en c off boff src w = (if c then rmw_block en (off div 2 ^ CBLK_SHIFT) boff src w else (0, w))"

definition store_part :: "'d env \<Rightarrow> bool \<Rightarrow> nat \<Rightarrow> byte list \<Rightarrow> nat \<Rightarrow> 'd world \<Rightarrow> nat \<times> 'd world" where
  "store_part en c off src k w = (if c then store_blocks en (off div 2 ^ CBLK_SHIFT) src k 0 w else (0, w))"

definition store_range :: "'d env \<Rightarrow> nat \<Rightarrow> byte list \<Rightarrow> 'd world \<Rightarrow> nat \<times> 'd world" where
  "store_range en off src w =
     (let n = length src;
          src1 = drop (head_cnt off n) src;
          src2 = drop (mid_cnt off n * CBLK_SIZE) src1
      in case rmw_part en (off mod CBLK_SIZE \<noteq> 0) off (off mod CBLK_SIZE) (take (head_cnt off n) src) w of (e1, w1) \<Rightarrow>
         case store_part en (n - head_cnt off n \<ge> CBLK_SIZE) (off_mid off n) src1 (mid_cnt off n) w1 of (e2, w2) \<Rightarrow>
         case rmw_part en (tail_cnt off n \<noteq> 0) (off_tail off n) 0 (take (tail_cnt off n) src2) w2 of (e3, w3) \<Rightarrow>
         (note_err (note_err e1 e2) e3, w3))"

section \<open>TRIM\<close>

definition trim_block :: "'d env \<Rightarrow> nat \<Rightarrow> 'd world \<Rightarrow> 'd world" where
  "trim_block en b w =
     (let w1 = yield en None w
      in if ent_clen (idx_load b w1) = 0 then w1
         else let w2 = yield en None w1; old = idx_load b w2
              in if ent_clen old = 0 then w2
                 else let w3 = release_old en None old (idx_publish b 0 0 w2)
                      in w3\<lparr>g_blocks_live := sub64 (g_blocks_live w3) 1, g_trim_blocks := u64 (g_trim_blocks w3 + 1)\<rparr>)"

definition trim_range :: "'d env \<Rightarrow> nat \<Rightarrow> nat \<Rightarrow> 'd world \<Rightarrow> 'd world" where
  "trim_range en off len w =
     (let b0 = u64 (off + CBLK_SIZE - 1) div 2 ^ CBLK_SHIFT;
          b1 = u64 (off + len) div 2 ^ CBLK_SHIFT;
          b1' = (if b1 > g_nblocks en then g_nblocks en else b1)
      in fold (trim_block en) [b0..<b1'] w)"

end
