(* ===== verification/Store_Invariant.thy ===== *)
theory Store_Invariant
  imports Block_Store Slot_Heap
begin

text \<open>
  What a worker knows of the shared store, and how each atomic action of the program changes it.

  @st_ok en mem foreign A R w@ says of a world: the heap and the index are well-formed, every
  written block has a slot of its own; the slots in @R@ are reserved by this worker and not
  yet in the index, with the first bytes of each known; the slots @foreign@ gives for this
  moment belong to other workers, and there are no further reservations, so nothing is
  leaked; and every block decodes to one of the pages @A@ allows it. An exact content is the case where
  @A b@ has one element.
\<close>

section \<open>The assertion\<close>

definition grain_of :: "64 word \<Rightarrow> nat" where "grain_of e = unat (ent_grain e)"
definition clen_of :: "64 word \<Rightarrow> nat" where "clen_of e = unat (ent_clen e)"

definition written :: "'d world \<Rightarrow> nat set" where
  "written w = {b. b < length (g_index w) \<and> clen_of (g_index w ! b) \<noteq> 0}"

definition live_grains :: "'d world \<Rightarrow> nat set" where
  "live_grains w = (\<lambda>b. grain_of (g_index w ! b)) ` written w"

definition slot_at :: "'d env \<Rightarrow> ('d \<Rightarrow> nat \<Rightarrow> byte) \<Rightarrow> 'd world \<Rightarrow> nat \<Rightarrow> nat \<Rightarrow> byte list" where
  "slot_at en mem w g n = map (mem (w_dev w)) [dev_at en g..<dev_at en g + n]"

text \<open>The page a reader of the block must see.\<close>

definition block_content :: "'d env \<Rightarrow> ('d \<Rightarrow> nat \<Rightarrow> byte) \<Rightarrow> 'd world \<Rightarrow> nat \<Rightarrow> byte list option" where
  "block_content en mem w b =
     (let e = g_index w ! b
      in if clen_of e = 0 then Some zero_page
         else decomp_block (en_lib en) (en_codec en) (slot_at en mem w (grain_of e) (clen_of e)) (clen_of e))"

definition slot_fits :: "'d world \<Rightarrow> nat \<Rightarrow> nat \<Rightarrow> bool" where
  "slot_fits w g n \<longleftrightarrow> (\<exists>sb. heap_map (w_heap w) g = Some sb \<and> n \<le> sb)"

definition store_wf :: "'d env \<Rightarrow> 'd world \<Rightarrow> bool" where
  "store_wf en w \<longleftrightarrow>
     heap_inv (w_heap w) \<and> heap_geom (w_heap w) = (en_ext_shift en, g_vram_size en div 2 ^ en_ext_shift en) \<and>
     length (g_index w) = g_nblocks en \<and>
     (\<forall>b \<in> written w. slot_fits w (grain_of (g_index w ! b)) (clen_of (g_index w ! b))) \<and>
     inj_on (\<lambda>b. grain_of (g_index w ! b)) (written w)"

type_synonym hold = "nat \<times> nat \<times> byte list"

definition hold_ok :: "'d env \<Rightarrow> ('d \<Rightarrow> nat \<Rightarrow> byte) \<Rightarrow> 'd world \<Rightarrow> hold \<Rightarrow> bool" where
  "hold_ok en mem w = (\<lambda>(g, n, bs). slot_fits w g n \<and> g \<notin> live_grains w \<and> length bs \<le> n \<and>
     slot_at en mem w g (length bs) = bs)"

definition holds :: "hold list \<Rightarrow> nat set" where
  "holds R = fst ` set R"

definition tight :: "(nat \<Rightarrow> nat set) \<Rightarrow> hold list \<Rightarrow> 'd world \<Rightarrow> bool" where
  "tight foreign R w \<longleftrightarrow>
     dom (heap_map (w_heap w)) = live_grains w \<union> holds R \<union> foreign (w_tick w) \<and>
     foreign (w_tick w) \<inter> (live_grains w \<union> holds R) = {}"

definition pages_in :: "'d env \<Rightarrow> ('d \<Rightarrow> nat \<Rightarrow> byte) \<Rightarrow> (nat \<Rightarrow> byte list set) \<Rightarrow> 'd world \<Rightarrow> bool" where
  "pages_in en mem A w \<longleftrightarrow>
     (\<forall>b < g_nblocks en. \<exists>p \<in> A b. block_content en mem w b = Some p \<and> length p = CBLK_SIZE)"

definition st_ok ::
  "'d env \<Rightarrow> ('d \<Rightarrow> nat \<Rightarrow> byte) \<Rightarrow> (nat \<Rightarrow> nat set) \<Rightarrow> (nat \<Rightarrow> byte list set) \<Rightarrow> hold list \<Rightarrow> 'd world \<Rightarrow> bool"
where
  "st_ok en mem foreign A R w \<longleftrightarrow>
     store_wf en w \<and> distinct (map fst R) \<and> (\<forall>r \<in> set R. hold_ok en mem w r) \<and> tight foreign R w \<and>
     pages_in en mem A w"

lemma st_okD:
  assumes "st_ok en mem foreign A R w"
  shows "store_wf en w" "distinct (map fst R)" "r \<in> set R \<Longrightarrow> hold_ok en mem w r" "tight foreign R w"
    "pages_in en mem A w"
  using assms by (auto simp: st_ok_def)

section \<open>Congruence\<close>

text \<open>The assertion reads only the heap, the index, the device memory and the moment.\<close>

lemma parts_cong:
  assumes "g_index w' = g_index w"
  shows "written w' = written w" "live_grains w' = live_grains w"
  using assms by (simp_all add: written_def live_grains_def)

lemma slot_fits_cong: "w_heap w' = w_heap w \<Longrightarrow> slot_fits w' = slot_fits w"
  by (simp add: slot_fits_def fun_eq_iff)

lemma slot_at_cong: "mem (w_dev w') = mem (w_dev w) \<Longrightarrow> slot_at en mem w' = slot_at en mem w"
  by (simp add: slot_at_def fun_eq_iff)

lemma block_content_cong:
  assumes "g_index w' ! b = g_index w ! b"
    and "clen_of (g_index w ! b) \<noteq> 0 \<Longrightarrow>
      slot_at en mem w' (grain_of (g_index w ! b)) (clen_of (g_index w ! b)) =
      slot_at en mem w (grain_of (g_index w ! b)) (clen_of (g_index w ! b))"
  shows "block_content en mem w' b = block_content en mem w b"
  using assms by (simp add: block_content_def Let_def)

lemma st_ok_cong:
  assumes "w_heap w' = w_heap w" "g_index w' = g_index w" "mem (w_dev w') = mem (w_dev w)"
    "foreign (w_tick w') = foreign (w_tick w)"
  shows "st_ok en mem foreign A R w' = st_ok en mem foreign A R w"
proof -
  have "block_content en mem w' b = block_content en mem w b" for b
    by (rule block_content_cong) (simp_all add: assms slot_at_cong [OF assms(3)])
  then show ?thesis
    by (simp add: st_ok_def store_wf_def hold_ok_def tight_def pages_in_def assms parts_cong [OF assms(2)]
        slot_fits_cong [OF assms(1)] slot_at_cong [OF assms(3)])
qed

lemma st_ok_counters [simp]:
  "st_ok en mem foreign A R (w\<lparr>g_blocks_live := x\<rparr>) = st_ok en mem foreign A R w"
  "st_ok en mem foreign A R (w\<lparr>g_codec_bytes := x\<rparr>) = st_ok en mem foreign A R w"
  "st_ok en mem foreign A R (w\<lparr>g_raw_blocks := x\<rparr>) = st_ok en mem foreign A R w"
  "st_ok en mem foreign A R (w\<lparr>g_enospc := x\<rparr>) = st_ok en mem foreign A R w"
  "st_ok en mem foreign A R (w\<lparr>g_trim_blocks := x\<rparr>) = st_ok en mem foreign A R w"
  "st_ok en mem foreign A R (w\<lparr>g_read_retry := x\<rparr>) = st_ok en mem foreign A R w"
  "st_ok en mem foreign A R (note_enospc w) = st_ok en mem foreign A R w"
  by (rule st_ok_cong; simp add: note_enospc_def)+

lemma st_ok_mono:
  assumes "st_ok en mem foreign A R w" "\<And>b. b < g_nblocks en \<Longrightarrow> A b \<subseteq> A' b"
  shows "st_ok en mem foreign A' R w"
  using assms unfolding st_ok_def pages_in_def by blast

text \<open>What is known of the reserved slots may be forgotten, and their order does not matter.\<close>

lemma st_ok_forget:
  assumes "st_ok en mem foreign A (L @ (g, n, bs) # R) w"
  shows "st_ok en mem foreign A (L @ (g, n, []) # R) w"
  using assms by (auto simp: st_ok_def hold_ok_def tight_def holds_def slot_at_def)

lemma st_ok_perm:
  assumes "st_ok en mem foreign A R w" "set R' = set R" "distinct (map fst R')"
  shows "st_ok en mem foreign A R' w"
  using assms by (simp add: st_ok_def tight_def holds_def)

lemma st_ok_swap:
  assumes "st_ok en mem foreign A (X @ Y @ R) w"
  shows "st_ok en mem foreign A (Y @ X @ R) w"
  by (rule st_ok_perm [OF assms]) (use st_okD(2) [OF assms] in auto)

section \<open>Entries and slots\<close>

text \<open>Every entry of a well-formed index, current or remembered, addresses bytes inside the VRAM.\<close>

definition ent_in_range :: "'d env \<Rightarrow> 64 word \<Rightarrow> bool" where
  "ent_in_range en e \<longleftrightarrow> (clen_of e \<noteq> 0 \<longrightarrow> grain_of e * ALLOC_GRAIN + clen_of e \<le> g_vram_size en)"

lemma slot_fits_bounds:
  assumes "store_wf en w" "slot_fits w g n"
  shows "g * 64 + n \<le> g_vram_size en" "n \<le> 4096" "g < 2 ^ 30"
proof -
  from assms(2) obtain sb where sb: "heap_map (w_heap w) g = Some sb" "n \<le> sb" by (auto simp: slot_fits_def)
  have "geom_bytes (heap_geom (w_heap w)) \<le> g_vram_size en"
    using assms(1) by (simp add: store_wf_def geom_bytes_def)
  moreover have "heap_inv (w_heap w)" using assms(1) by (simp add: store_wf_def)
  note slab.resv_bounds [OF this sb(1)]
  ultimately show "g * 64 + n \<le> g_vram_size en" "n \<le> 4096" "g < 2 ^ 30" using sb(2) by auto
qed

lemma idx_in_range:
  assumes "store_wf en w" "b < g_nblocks en"
  shows "ent_in_range en (g_index w ! b)"
proof (cases "clen_of (g_index w ! b) = 0")
  case False
  with assms have "b \<in> written w" by (simp add: written_def store_wf_def)
  with assms have "slot_fits w (grain_of (g_index w ! b)) (clen_of (g_index w ! b))"
    by (simp add: store_wf_def)
  with assms show ?thesis by (simp add: ent_in_range_def ALLOC_GRAIN_def slot_fits_bounds(1))
qed (simp add: ent_in_range_def)

text \<open>The slot an entry gives up when it is replaced.\<close>

definition displaced :: "64 word \<Rightarrow> hold list" where
  "displaced e = (if clen_of e = 0 then [] else [(grain_of e, clen_of e, [])])"

section \<open>The driver and the codec keep their promises\<close>

locale store_driver =
  fixes en :: "'d env" and mem :: "'d \<Rightarrow> nat \<Rightarrow> byte" and foreign :: "nat \<Rightarrow> nat set"
  assumes driver: "cuda_sync (en_cuda en) mem (g_vram_ptr en) (g_vram_ptr en + g_vram_size en)"
    and codec: "codec_lib_ok (en_lib en)"
    and vram_addr: "g_vram_ptr en + g_vram_size en \<le> 2 ^ 64"

sublocale store_driver \<subseteq> cu: cuda_sync "en_cuda en" mem "g_vram_ptr en" "g_vram_ptr en + g_vram_size en"
  by (rule driver)

context store_driver
begin

abbreviation ok :: "(nat \<Rightarrow> byte list set) \<Rightarrow> hold list \<Rightarrow> 'd world \<Rightarrow> bool" where
  "ok \<equiv> st_ok en mem foreign"

lemma dev_at_eq:
  assumes "g * 64 + n \<le> g_vram_size en" "0 < n"
  shows "dev_at en g = g_vram_ptr en + g * 64"
  using assms vram_addr by (simp add: dev_at_def ALLOC_GRAIN_def u64_small)

text \<open>Distinct reserved slots occupy disjoint device addresses.\<close>

lemma slots_apart:
  assumes "store_wf en w" "slot_fits w g n" "slot_fits w g' n'" "g \<noteq> g'"
  shows "{dev_at en g..<dev_at en g + n} \<inter> {dev_at en g'..<dev_at en g' + n'} = {}"
proof (cases "n = 0 \<or> n' = 0")
  case False
  from assms obtain sb sb' where sb: "heap_map (w_heap w) g = Some sb" "n \<le> sb"
      "heap_map (w_heap w) g' = Some sb'" "n' \<le> sb'" by (auto simp: slot_fits_def)
  have "{g * 64..<g * 64 + n} \<inter> {g' * 64..<g' * 64 + n'} = {}"
    using slab.resv_ranges_disjoint [OF _ sb(1,3) assms(4) sb(2,4)] assms(1) by (simp add: store_wf_def)
  moreover have "dev_at en g = g_vram_ptr en + g * 64" "dev_at en g' = g_vram_ptr en + g' * 64"
    using dev_at_eq slot_fits_bounds(1) [OF assms(1)] assms(2,3) False by auto
  ultimately show ?thesis using False by (auto simp: disjoint_iff)
qed auto

subsection \<open>Allocation and release\<close>

lemma ok_alloc:
  assumes ok: "ok A R w" and n: "1 \<le> n" "n \<le> CBLK_SIZE"
    and sa: "slot_alloc n (w_heap w) = (g, sb, h)" "g \<noteq> SLOT_NONE"
  shows "ok A ((g, n, []) # R) (w\<lparr>w_heap := h\<rparr>)"
proof -
  let ?w = "w\<lparr>w_heap := h\<rparr>"
  note d = st_okD [OF ok]
  have inv: "heap_inv (w_heap w)" using d(1) by (simp add: store_wf_def)
  from slab.alloc_some [OF inv n(1) _ sa] n have s: "heap_inv h" "heap_map (w_heap w) g = None"
      "heap_map h = (heap_map (w_heap w))(g \<mapsto> sb)" "n \<le> sb"
      "heap_geom h = heap_geom (w_heap w)"
    by auto
  then have new: "g \<notin> live_grains w" "g \<notin> holds R" "g \<notin> foreign (w_tick w)"
    using d(4) by (auto simp: tight_def)
  have parts: "written ?w = written w" "live_grains ?w = live_grains w" by (rule parts_cong; simp)+
  have fits: "slot_fits ?w g' n'" if "slot_fits w g' n'" for g' n'
    using that s(2,3) by (auto simp: slot_fits_def)
  have at: "slot_at en mem ?w = slot_at en mem w" by (simp add: slot_at_def fun_eq_iff)
  have "block_content en mem ?w b = block_content en mem w b" for b
    by (rule block_content_cong) (simp_all add: at)
  then have "pages_in en mem A ?w" using d(5) by (simp add: pages_in_def)
  moreover have "store_wf en ?w" using d(1) fits s by (simp add: store_wf_def parts)
  moreover have "hold_ok en mem ?w r" if "r \<in> set ((g, n, []) # R)" for r
    using that d(3) [of r] new(1) s(3,4) fits by (auto simp: hold_ok_def parts at) (auto simp: slot_fits_def slot_at_def)
  moreover have "tight foreign ((g, n, []) # R) ?w"
    using d(4) new s(3) by (auto simp: tight_def parts holds_def)
  moreover have "distinct (map fst ((g, n, []) # R))" using d(2) new(2) by (auto simp: holds_def image_iff)
  ultimately show ?thesis by (simp add: st_ok_def)
qed

lemma ok_alloc_none:
  assumes ok: "ok A R w" and n: "1 \<le> n" "n \<le> CBLK_SIZE"
    and sa: "slot_alloc n (w_heap w) = (SLOT_NONE, sb, h)"
  shows "ok A R (w\<lparr>w_heap := h\<rparr>)"
proof -
  have "heap_inv (w_heap w)" using st_okD(1) [OF ok] by (simp add: store_wf_def)
  with slab.alloc_none [OF _ n(1) _ sa] n have "h = w_heap w" by simp
  with ok show ?thesis by simp
qed

lemma ok_free:
  assumes ok: "ok A (L @ (g, n, bs) # R) w"
  shows "ok A (L @ R) (w\<lparr>w_heap := snd (slot_free g (w_heap w))\<rparr>)"
proof -
  let ?h = "snd (slot_free g (w_heap w))" and ?w = "w\<lparr>w_heap := snd (slot_free g (w_heap w))\<rparr>"
  note d = st_okD [OF ok]
  have inv: "heap_inv (w_heap w)" using d(1) by (simp add: store_wf_def)
  from d(3) [of "(g, n, bs)"] obtain sb where sb: "heap_map (w_heap w) g = Some sb" and
    dead: "g \<notin> live_grains w" by (auto simp: hold_ok_def slot_fits_def)
  from slab.release_resv [OF inv sb, of "fst (slot_free g (w_heap w))" ?h] have s: "heap_inv ?h"
      "heap_map ?h = (heap_map (w_heap w))(g := None)"
      "heap_geom ?h = heap_geom (w_heap w)"
    by auto
  have parts: "written ?w = written w" "live_grains ?w = live_grains w" by (rule parts_cong; simp)+
  have fits: "slot_fits ?w g' n'" if "slot_fits w g' n'" "g' \<noteq> g" for g' n'
    using that s(2) by (auto simp: slot_fits_def)
  have at: "slot_at en mem ?w = slot_at en mem w" by (simp add: slot_at_def fun_eq_iff)
  have "block_content en mem ?w b = block_content en mem w b" for b
    by (rule block_content_cong) (simp_all add: at)
  then have "pages_in en mem A ?w" using d(5) by (simp add: pages_in_def)
  moreover have "store_wf en ?w" using d(1) fits s dead by (auto simp: store_wf_def parts live_grains_def)
  moreover have "hold_ok en mem ?w r" if "r \<in> set (L @ R)" for r
    using that d(3) [of r] d(2) fits by (force simp: hold_ok_def parts at image_iff)
  moreover have "tight foreign (L @ R) ?w"
    using d(4) dead d(2) s(2) by (auto simp: tight_def parts holds_def image_iff)
  moreover have "distinct (map fst (L @ R))" using d(2) by auto
  ultimately show ?thesis by (simp add: st_ok_def)
qed

subsection \<open>Copies\<close>

lemma ok_sync: "ok A R w \<Longrightarrow> ok A R (w\<lparr>w_dev := snd (cuStreamSynchronize (en_cuda en) (w_dev w))\<rparr>)"
  by (subst st_ok_cong [of _ w]) (simp_all add: cu.sync_keeps)

lemma ent_range:
  assumes "ent_in_range en e" "clen_of e \<noteq> 0"
  shows "g_vram_ptr en \<le> dev_at en (grain_of e)"
    "dev_at en (grain_of e) + clen_of e \<le> g_vram_ptr en + g_vram_size en"
  using assms dev_at_eq [of "grain_of e" "clen_of e"] by (simp_all add: ent_in_range_def ALLOC_GRAIN_def)

lemma ok_DtoH:
  assumes "ok A R w" "ent_in_range en e" "clen_of e \<noteq> 0"
    and "cuMemcpyDtoHAsync (en_cuda en) (dev_at en (grain_of e)) (clen_of e) (w_dev w) = (r, bs, d)"
  shows "ok A R (w\<lparr>w_dev := d\<rparr>)" "r = CUDA_SUCCESS \<Longrightarrow> bs = slot_at en mem w (grain_of e) (clen_of e)"
proof -
  note range = ent_range [OF assms(2,3)]
  have "mem d = mem (w_dev w)" using cu.DtoH_mem [OF range assms(4)] .
  then show "ok A R (w\<lparr>w_dev := d\<rparr>)" using assms(1) by (subst st_ok_cong [of _ w]) simp_all
  show "r = CUDA_SUCCESS \<Longrightarrow> bs = slot_at en mem w (grain_of e) (clen_of e)"
    using cu.DtoH_ok [OF range] assms(4) by (simp add: slot_at_def)
qed

lemma ok_HtoD:
  assumes ok: "ok A (L @ (g, n, known) # R) w" and bs: "length bs \<le> n" "bs \<noteq> []"
    and cp: "cuMemcpyHtoDAsync (en_cuda en) (dev_at en g) bs (w_dev w) = (r, d)"
  shows "ok A (L @ (g, n, if r = CUDA_SUCCESS then bs else []) # R) (w\<lparr>w_dev := d\<rparr>)"
proof -
  let ?w = "w\<lparr>w_dev := d\<rparr>" and ?new = "(g, n, if r = CUDA_SUCCESS then bs else [])"
  note d = st_okD [OF ok]
  from d(3) [of "(g, n, known)"] have g: "slot_fits w g n" "g \<notin> live_grains w" by (auto simp: hold_ok_def)
  have gfit: "slot_fits w g (length bs)" using g(1) bs by (auto simp: slot_fits_def)
  have range: "g_vram_ptr en \<le> dev_at en g" "dev_at en g + length bs \<le> g_vram_ptr en + g_vram_size en"
    using slot_fits_bounds(1) [OF d(1) gfit] dev_at_eq [of g "length bs"] bs by auto
  have frame: "slot_at en mem ?w g' m = slot_at en mem w g' m" if "slot_fits w g' m" "g' \<noteq> g" for g' m
    using cu.HtoD_frame [OF range cp] slots_apart [OF d(1) gfit that(1)] that(2) by (simp add: slot_at_def)
  have parts: "written ?w = written w" "live_grains ?w = live_grains w" by (rule parts_cong; simp)+
  have fits: "slot_fits ?w = slot_fits w" by (rule slot_fits_cong) simp
  have "block_content en mem ?w b = block_content en mem w b" if b: "b < g_nblocks en" for b
  proof (rule block_content_cong)
    assume "clen_of (g_index w ! b) \<noteq> 0"
    then have "b \<in> written w" using b d(1) by (simp add: written_def store_wf_def)
    then have "slot_fits w (grain_of (g_index w ! b)) (clen_of (g_index w ! b))" "grain_of (g_index w ! b) \<noteq> g"
      using d(1) g(2) by (auto simp: store_wf_def live_grains_def)
    then show "slot_at en mem ?w (grain_of (g_index w ! b)) (clen_of (g_index w ! b)) =
        slot_at en mem w (grain_of (g_index w ! b)) (clen_of (g_index w ! b))"
      by (rule frame)
  qed simp
  then have "pages_in en mem A ?w" using d(5) by (simp add: pages_in_def)
  moreover have "store_wf en ?w" using d(1) by (simp add: store_wf_def parts fits)
  moreover have "hold_ok en mem ?w r'" if r': "r' \<in> set (L @ ?new # R)" for r'
  proof (cases "r' = ?new")
    case True
    have "slot_at en mem ?w g (length bs) = bs" if "r = CUDA_SUCCESS"
      using cu.HtoD_readback [OF range] cp that by (simp add: slot_at_def)
    with True g bs show ?thesis by (auto simp: hold_ok_def parts fits slot_at_def)
  next
    case False
    with r' have in_LR: "r' \<in> set (L @ R)" by auto
    obtain g' n' k where r: "r' = (g', n', k)" by (cases r')
    with in_LR have "hold_ok en mem w r'" "g' \<noteq> g" using d(2,3) by (auto simp: image_iff)
    moreover from this(1) have "slot_fits w g' (length k)" using r by (auto simp: hold_ok_def slot_fits_def)
    ultimately show ?thesis using frame [of g' "length k"] r by (simp add: hold_ok_def parts fits)
  qed
  moreover have "tight foreign (L @ ?new # R) ?w" using d(4) by (simp add: tight_def parts holds_def)
  ultimately show ?thesis using d(2) by (simp add: st_ok_def)
qed

subsection \<open>The index\<close>

text \<open>The slots the index addresses, seen from block @b@: its own, and those of the other blocks.\<close>

lemma index_update_slots:
  fixes e :: "64 word"
  assumes wf: "store_wf en w" and b: "b < g_nblocks en"
  defines "rest \<equiv> (\<lambda>b. grain_of (g_index w ! b)) ` (written w - {b})" and "w' \<equiv> w\<lparr>g_index := (g_index w)[b := e]\<rparr>"
  shows "b \<in> written w \<longleftrightarrow> clen_of (g_index w ! b) \<noteq> 0"
    "(g_index w)[b := e] ! b' = (if b' = b then e else g_index w ! b')"
    "written w' = (if clen_of e = 0 then written w - {b} else insert b (written w - {b}))"
    "live_grains w = rest \<union> holds (displaced (g_index w ! b))" "rest \<inter> holds (displaced (g_index w ! b)) = {}"
    "live_grains w' = rest \<union> (if clen_of e = 0 then {} else {grain_of e})"
proof -
  have len: "length (g_index w) = g_nblocks en" and inj: "inj_on (\<lambda>b. grain_of (g_index w ! b)) (written w)"
    using wf by (simp_all add: store_wf_def)
  show oldw: "b \<in> written w \<longleftrightarrow> clen_of (g_index w ! b) \<noteq> 0" using b len by (simp add: written_def)
  have idx: "(g_index w)[b := e] ! b' = (if b' = b then e else g_index w ! b')" for b' using b len by simp
  then show "(g_index w)[b := e] ! b' = (if b' = b then e else g_index w ! b')" .
  show wr: "written w' = (if clen_of e = 0 then written w - {b} else insert b (written w - {b}))"
    using b len by (auto simp: written_def idx w'_def)
  show "live_grains w' = rest \<union> (if clen_of e = 0 then {} else {grain_of e})"
    unfolding live_grains_def wr rest_def by (auto simp: w'_def idx)
  show "live_grains w = rest \<union> holds (displaced (g_index w ! b))"
    using oldw by (auto simp: live_grains_def holds_def displaced_def rest_def)
  show "rest \<inter> holds (displaced (g_index w ! b)) = {}"
    using inj oldw by (auto simp: holds_def displaced_def inj_on_def rest_def split: if_splits)
qed

lemma index_update_wf:
  assumes wf: "store_wf en w" and b: "b < g_nblocks en"
    and fit: "clen_of e \<noteq> 0 \<Longrightarrow> slot_fits w (grain_of e) (clen_of e) \<and> grain_of e \<notin> live_grains w"
  shows "store_wf en (w\<lparr>g_index := (g_index w)[b := e]\<rparr>)"
proof -
  let ?w = "w\<lparr>g_index := (g_index w)[b := e]\<rparr>"
  note u = index_update_slots [OF wf b]
  have inj: "inj_on (\<lambda>b. grain_of (g_index w ! b)) (written w)" using wf by (simp add: store_wf_def)
  have fits: "slot_fits ?w = slot_fits w" by (rule slot_fits_cong) simp
  have "inj_on (\<lambda>b'. grain_of (if b' = b then e else g_index w ! b')) (written w - {b})"
    using inj by (auto simp: inj_on_def)
  moreover have "inj_on (\<lambda>b'. grain_of (if b' = b then e else g_index w ! b')) (insert b (written w))" if "clen_of e \<noteq> 0"
  proof (rule inj_onI)
    fix x y assume "x \<in> insert b (written w)" "y \<in> insert b (written w)"
      "grain_of (if x = b then e else g_index w ! x) = grain_of (if y = b then e else g_index w ! y)"
    then show "x = y"
      using fit [OF that] u(4) by (cases "x = b"; cases "y = b") (force dest: inj_onD [OF inj])+
  qed
  ultimately show ?thesis using wf fit by (simp add: store_wf_def u(2,3) fits)
qed

text \<open>
  Storing an entry for block @b@ that is either empty or addresses a held slot moves that
  slot into the index and the displaced slot, if there was one, out of it.
\<close>

lemma ok_store_entry:
  assumes ok: "ok A (L @ H @ R) w" and b: "b < g_nblocks en"
    and H: "H = (if clen_of e = 0 then [] else [(grain_of e, clen_of e, bs)])"
    and bs: "clen_of e \<noteq> 0 \<Longrightarrow> length bs = clen_of e \<and> decomp_block (en_lib en) (en_codec en) bs (clen_of e) = Some p"
    and z: "clen_of e = 0 \<Longrightarrow> p = zero_page" and p: "length p = CBLK_SIZE"
  shows "ok (A(b := {p})) (displaced (g_index w ! b) @ L @ R) (w\<lparr>g_index := (g_index w)[b := e]\<rparr>)"
proof -
  let ?w = "w\<lparr>g_index := (g_index w)[b := e]\<rparr>" and ?old = "g_index w ! b"
  note d = st_okD [OF ok] and idx = index_update_slots(2) [OF st_okD(1) [OF ok] b]
  note u = index_update_slots [OF d(1) b] and old = index_update_slots(4,5) [OF d(1) b]
  have live: "live_grains ?w = (\<lambda>b. grain_of (g_index w ! b)) ` (written w - {b}) \<union> holds H"
    using u(6) H by (simp add: holds_def)
  have fits: "slot_fits ?w = slot_fits w" and at: "slot_at en mem ?w = slot_at en mem w"
    by (rule slot_fits_cong slot_at_cong; simp)+
  have heldlive: "g \<notin> live_grains w" if "g \<in> holds (L @ H @ R)" for g
    using that d(3) by (force simp: holds_def hold_ok_def)
  have dis: "holds H \<inter> holds (L @ R) = {}" using d(2) by (auto simp: holds_def)
  have oldfit: "slot_fits w (grain_of ?old) (clen_of ?old)" if "clen_of ?old \<noteq> 0"
    using that u(1) d(1) by (simp add: store_wf_def)
  have "store_wf en ?w"
    by (rule index_update_wf [OF d(1) b]) (use d(3) [of "(grain_of e, clen_of e, bs)"] H in \<open>simp add: hold_ok_def\<close>)
  moreover have "hold_ok en mem ?w r" if r: "r \<in> set (displaced ?old @ L @ R)" for r
  proof (cases "r \<in> set (L @ R)")
    case True
    then have "hold_ok en mem w r" "fst r \<notin> holds H" "fst r \<notin> live_grains w"
      using d(3) [of r] dis heldlive [of "fst r"] by (auto simp: holds_def)
    then show ?thesis using live old by (auto simp: hold_ok_def fits at)
  next
    case False
    then have "r = (grain_of ?old, clen_of ?old, [])" "clen_of ?old \<noteq> 0"
      using r by (auto simp: displaced_def split: if_splits)
    moreover from this have "grain_of ?old \<notin> live_grains ?w"
      using live old heldlive [of "grain_of ?old"] by (auto simp: holds_def displaced_def)
    ultimately show ?thesis using oldfit by (auto simp: hold_ok_def fits slot_at_def)
  qed
  moreover have "tight foreign (displaced ?old @ L @ R) ?w"
    using d(4) live old by (auto simp: tight_def holds_def)
  moreover have "distinct (map fst (displaced ?old @ L @ R))"
  proof -
    have "holds (displaced ?old) \<inter> holds (L @ R) = {}"
      using heldlive old by (auto simp: holds_def)
    then show ?thesis using d(2) by (auto simp: displaced_def holds_def image_Un)
  qed
  moreover have "pages_in en mem (A(b := {p})) ?w"
  proof -
    have "block_content en mem ?w b' = block_content en mem w b'" if "b' \<noteq> b" for b'
      using that by (intro block_content_cong) (simp_all add: at)
    moreover have "block_content en mem ?w b = Some p"
      using d(3) [of "(grain_of e, clen_of e, bs)"] H z bs
      by (auto simp: block_content_def idx at hold_ok_def Let_def)
    ultimately show ?thesis using d(5) p by (auto simp: pages_in_def)
  qed
  ultimately show ?thesis by (simp add: st_ok_def)
qed

end

end
