(* ===== verification/Store_Sharing.thy ===== *)
theory Store_Sharing
  imports Store_Invariant
begin

text \<open>
  The store under sharing. The locale @shared_store@ states what a worker relies on of the
  others: they keep every assertion of @Store_Invariant@ that speaks of what is this
  worker's own (its reserved slots, the blocks @B@ only it writes, the blocks of a stripe
  whose lock it holds), and elsewhere they write pages that @F@ allows; they leave the
  entries of a held stripe alone; and an entry that has changed does not come back within a
  read (@no_return@, which the generation counter provides for fewer than 2^21 publishes).
  The theory lifts each atomic action to the program's calls, with the others running
  before every one of them, and proves the operations that publish, fetch or modify one block.
\<close>

section \<open>What a worker relies on\<close>

definition holds_lock :: "nat option \<Rightarrow> nat \<Rightarrow> bool" where
  "holds_lock held b \<longleftrightarrow> held = Some (IDXL b)"

definition stable :: "nat set \<Rightarrow> (nat \<Rightarrow> byte list set) \<Rightarrow> nat option \<Rightarrow> (nat \<Rightarrow> byte list set) \<Rightarrow> bool" where
  "stable B F held A \<longleftrightarrow> (\<forall>b. b \<notin> B \<and> \<not> holds_lock held b \<longrightarrow> A b = F b)"

text \<open>The driver accepts every copy.\<close>

definition faultless :: "'d env \<Rightarrow> bool" where
  "faultless en \<longleftrightarrow> (\<forall>a bs d. fst (cuMemcpyHtoDAsync (en_cuda en) a bs d) = CUDA_SUCCESS) \<and>
     (\<forall>a n d. fst (cuMemcpyDtoHAsync (en_cuda en) a n d) = CUDA_SUCCESS)"

locale shared_store = store_driver en mem foreign
  for en :: "'d env" and mem :: "'d \<Rightarrow> nat \<Rightarrow> byte" and foreign :: "nat \<Rightarrow> nat set" +
  fixes B :: "nat set" and F :: "nat \<Rightarrow> byte list set" and evolves :: "'d world \<Rightarrow> 'd world \<Rightarrow> bool"
  assumes rely: "stable B F held A \<Longrightarrow> st_ok en mem foreign A R w \<Longrightarrow> st_ok en mem foreign A R (yield en held w)"
    and rely_held: "st_ok en mem foreign A R w \<Longrightarrow> b < g_nblocks en \<Longrightarrow> holds_lock held b \<Longrightarrow>
      g_index (yield en held w) ! b = g_index w ! b"
    and evolves_yield: "st_ok en mem foreign A R w \<Longrightarrow> evolves w (yield en held w)"
    and evolves_own: "g_index w' = g_index w \<Longrightarrow> w_tick w' = w_tick w \<Longrightarrow> evolves w w'"
    and evolves_trans: "evolves w w' \<Longrightarrow> evolves w' w'' \<Longrightarrow> evolves w w''"
    and no_return: "evolves w0 w1 \<Longrightarrow> evolves w1 w2 \<Longrightarrow> b < g_nblocks en \<Longrightarrow>
      g_index w2 ! b = g_index w0 ! b \<Longrightarrow> g_index w1 ! b = g_index w0 ! b"
begin

abbreviation stab :: "nat option \<Rightarrow> (nat \<Rightarrow> byte list set) \<Rightarrow> bool" where
  "stab \<equiv> stable B F"

text \<open>The assertion about a block after this worker wrote a page to it.\<close>

definition upd :: "(nat \<Rightarrow> byte list set) \<Rightarrow> nat \<Rightarrow> byte list \<Rightarrow> nat \<Rightarrow> byte list set" where
  "upd A b p = (if b \<in> B then A(b := {p}) else A)"

definition may_write :: "nat \<Rightarrow> byte list \<Rightarrow> bool" where
  "may_write b p \<longleftrightarrow> length p = CBLK_SIZE \<and> (b \<notin> B \<longrightarrow> p \<in> F b)"

lemma stab_upd: "stab held A \<Longrightarrow> stab held (upd A b p)"
  by (auto simp: stable_def upd_def)

lemma ok_upd:
  assumes "ok (A(b := {p})) R w" "stab None A" "may_write b p"
  shows "ok (upd A b p) R w"
  using assms(1) by (rule st_ok_mono) (use assms(2,3) in \<open>auto simp: upd_def stable_def holds_lock_def may_write_def\<close>)

lemma stab_lock: "stab None A \<Longrightarrow> stab (Some (IDXL b)) (A(b := S))"
  by (auto simp: stable_def holds_lock_def)

text \<open>At any moment a block has one content, which may be singled out.\<close>

lemma pick_page:
  assumes "ok A R w" "b < g_nblocks en"
  obtains p where "p \<in> A b" "length p = CBLK_SIZE" "ok (A(b := {p})) R w"
proof -
  from assms obtain p where "p \<in> A b" "block_content en mem w b = Some p" "length p = CBLK_SIZE"
    unfolding st_ok_def pages_in_def by blast
  then show thesis using assms(1) that [of p] by (auto simp: st_ok_def pages_in_def)
qed

lemma unpick_page: "ok (A(b := {p})) R w \<Longrightarrow> p \<in> A b \<Longrightarrow> ok A R w"
  by (rule st_ok_mono) (auto split: if_splits)

lemma faultless_copy:
  assumes "faultless en"
  shows "fst (copy_in en held g bs w) = CUDA_SUCCESS" "fst (copy_out en held g n w) = CUDA_SUCCESS"
  using assms by (simp_all add: faultless_def copy_in_def copy_out_def Let_def case_prod_unfold)

section \<open>Calls\<close>

lemma alloc_slot_ok:
  assumes "ok A R w" "stab held A" "1 \<le> n" "n \<le> CBLK_SIZE" "alloc_slot en held n w = (g, w')"
  shows "ok A (if g = SLOT_NONE then R else (g, n, []) # R) w'" "evolves w w'"
    "b < g_nblocks en \<Longrightarrow> holds_lock held b \<Longrightarrow> g_index w' ! b = g_index w ! b"
proof -
  let ?w = "yield en held w"
  have y: "ok A R ?w" by (rule rely [OF assms(2,1)])
  obtain sb h where sa: "slot_alloc n (w_heap ?w) = (g, sb, h)" and w': "w' = ?w\<lparr>w_heap := h\<rparr>"
    using assms(5) by (auto simp: alloc_slot_def Let_def split: prod.splits)
  show "ok A (if g = SLOT_NONE then R else (g, n, []) # R) w'"
    using ok_alloc [OF y assms(3,4) sa] ok_alloc_none [OF y assms(3,4), of sb h] sa w' by (simp split: if_splits)
  have "evolves ?w w'" by (rule evolves_own) (simp_all add: w')
  then show "evolves w w'" using evolves_yield [OF assms(1)] evolves_trans by blast
  show "b < g_nblocks en \<Longrightarrow> holds_lock held b \<Longrightarrow> g_index w' ! b = g_index w ! b"
    using rely_held [OF assms(1)] w' by simp
qed

text \<open>
  Room: with at most @N@ slots held by this worker every reservation succeeds. Enough extents
  for the blocks, the slots other workers hold and those @N@ give it.
\<close>

definition roomy :: "nat \<Rightarrow> bool" where
  "roomy N \<longleftrightarrow> (\<forall>A R w n. ok A R w \<longrightarrow> length R < N \<longrightarrow> 1 \<le> n \<longrightarrow> n \<le> CBLK_SIZE \<longrightarrow>
     fst (slot_alloc n (w_heap w)) \<noteq> SLOT_NONE)"

lemma roomy_mono: "roomy N \<Longrightarrow> M \<le> N \<Longrightarrow> roomy M"
  by (auto simp: roomy_def)

lemma roomyI:
  assumes fin: "\<And>t. finite (foreign t)" and room: "\<And>t. g_nblocks en + card (foreign t) + N \<le> g_vram_size en div 2 ^ en_ext_shift en"
  shows "roomy N"
  unfolding roomy_def
proof (intro allI impI)
  fix A R w n assume ok: "ok A R w" and R: "length R < N" and n: "1 \<le> n" "n \<le> CBLK_SIZE"
  note d = st_okD [OF ok]
  have inv: "heap_inv (w_heap w)" "g_n_extents (w_heap w) = g_vram_size en div 2 ^ en_ext_shift en"
    "length (g_index w) = g_nblocks en"
    using d(1) by (auto simp: store_wf_def heap_geom_def)
  have "live_grains w = (\<lambda>b. grain_of (g_index w ! b)) ` written w" by (simp add: live_grains_def)
  moreover have "written w \<subseteq> {..<g_nblocks en}" using inv(3) by (auto simp: written_def)
  ultimately have live: "card (live_grains w) \<le> g_nblocks en"
    using card_image_le [of "written w"] card_mono [of "{..<g_nblocks en}" "written w"] finite_subset [of "written w"]
    by (metis card_lessThan finite_lessThan le_trans)
  have "card (holds R) \<le> length R" unfolding holds_def by (metis card_length length_map list.set_map)
  moreover have "card (dom (heap_map (w_heap w))) \<le> card (live_grains w \<union> holds R) + card (foreign (w_tick w))"
    using d(4) by (metis card_Un_le tight_def)
  ultimately have "card (dom (heap_map (w_heap w))) < g_n_extents (w_heap w)"
    using card_Un_le [of "live_grains w" "holds R"] live R room [of "w_tick w"] inv(2) by linarith
  then show "fst (slot_alloc n (w_heap w)) \<noteq> SLOT_NONE"
    using slot_alloc_succeeds [OF inv(1)] n by simp
qed

lemma alloc_slot_room:
  assumes "ok A R w" "stab held A" "1 \<le> n" "n \<le> CBLK_SIZE" "roomy N" "length R < N"
  shows "fst (alloc_slot en held n w) \<noteq> SLOT_NONE"
proof -
  have "ok A R (yield en held w)" by (rule rely [OF assms(2,1)])
  then have "fst (slot_alloc n (w_heap (yield en held w))) \<noteq> SLOT_NONE"
    using assms(3-6) unfolding roomy_def by blast
  then show ?thesis by (simp add: alloc_slot_def Let_def case_prod_unfold)
qed

lemma free_slot_ok:
  assumes "ok A (L @ (g, n, bs) # R) w" "stab held A"
  shows "ok A (L @ R) (free_slot en held g w)" "evolves w (free_slot en held g w)"
proof -
  let ?w = "yield en held w"
  have "ok A (L @ (g, n, bs) # R) ?w" by (rule rely [OF assms(2,1)])
  then show "ok A (L @ R) (free_slot en held g w)" by (simp add: free_slot_def Let_def ok_free)
  have "evolves ?w (free_slot en held g w)" by (rule evolves_own) (simp_all add: free_slot_def Let_def)
  then show "evolves w (free_slot en held g w)" using evolves_yield [OF assms(1)] evolves_trans by blast
qed

lemma sync_ok:
  assumes "ok A R w" "stab held A"
  shows "ok A R (sync en held w)" "evolves w (sync en held w)"
    "b < g_nblocks en \<Longrightarrow> holds_lock held b \<Longrightarrow> g_index (sync en held w) ! b = g_index w ! b"
proof -
  let ?w = "yield en held w"
  have "ok A R ?w" by (rule rely [OF assms(2,1)])
  then show "ok A R (sync en held w)" by (simp add: sync_def Let_def ok_sync)
  have "evolves ?w (sync en held w)" by (rule evolves_own) (simp_all add: sync_def Let_def)
  then show "evolves w (sync en held w)" using evolves_yield [OF assms(1)] evolves_trans by blast
  show "b < g_nblocks en \<Longrightarrow> holds_lock held b \<Longrightarrow> g_index (sync en held w) ! b = g_index w ! b"
    using rely_held [OF assms(1)] by (simp add: sync_def Let_def)
qed

lemma copy_in_ok:
  assumes "ok A (L @ (g, n, known) # R) w" "stab held A" "length bs \<le> n" "bs \<noteq> []"
    and "copy_in en held g bs w = (r, w')"
  shows "ok A (L @ (g, n, if r = CUDA_SUCCESS then bs else []) # R) w'" "evolves w w'"
    "b < g_nblocks en \<Longrightarrow> holds_lock held b \<Longrightarrow> g_index w' ! b = g_index w ! b"
proof -
  let ?w = "yield en held w"
  have y: "ok A (L @ (g, n, known) # R) ?w" by (rule rely [OF assms(2,1)])
  obtain d where cp: "cuMemcpyHtoDAsync (en_cuda en) (dev_at en g) bs (w_dev ?w) = (r, d)" and
    w': "w' = ?w\<lparr>w_dev := d\<rparr>" using assms(5) by (auto simp: copy_in_def Let_def split: prod.splits)
  show "ok A (L @ (g, n, if r = CUDA_SUCCESS then bs else []) # R) w'"
    using ok_HtoD [OF y assms(3,4) cp] w' by simp
  have "evolves ?w w'" by (rule evolves_own) (simp_all add: w')
  then show "evolves w w'" using evolves_yield [OF assms(1)] evolves_trans by blast
  show "b < g_nblocks en \<Longrightarrow> holds_lock held b \<Longrightarrow> g_index w' ! b = g_index w ! b"
    using rely_held [OF assms(1)] w' by simp
qed

text \<open>
  A copy out of the slot of an entry, current or stale: if the entry is the block's entry at
  the moment of the copy, the bytes decode to a page the block may have.
\<close>

lemma copy_out_ok:
  assumes "ok A R w" "stab held A" "ent_in_range en e" "clen_of e \<noteq> 0" "b < g_nblocks en"
    and "copy_out en held (grain_of e) (clen_of e) w = (r, bs, w')"
  shows "ok A R w'" "evolves w w'" "holds_lock held b \<Longrightarrow> g_index w' ! b = g_index w ! b"
    "r = CUDA_SUCCESS \<Longrightarrow> g_index w' ! b = e \<Longrightarrow>
       \<exists>p \<in> A b. decomp_block (en_lib en) (en_codec en) bs (clen_of e) = Some p \<and> length p = CBLK_SIZE"
    "r = CUDA_SUCCESS \<Longrightarrow> length bs = clen_of e"
proof -
  let ?w = "yield en held w"
  have y: "ok A R ?w" by (rule rely [OF assms(2,1)])
  obtain d where cp: "cuMemcpyDtoHAsync (en_cuda en) (dev_at en (grain_of e)) (clen_of e) (w_dev ?w) = (r, bs, d)"
    and w': "w' = ?w\<lparr>w_dev := d\<rparr>" using assms(6) by (auto simp: copy_out_def Let_def split: prod.splits)
  note cp' = ok_DtoH [OF y assms(3,4) cp]
  show "ok A R w'" using cp'(1) w' by simp
  have "evolves ?w w'" by (rule evolves_own) (simp_all add: w')
  then show "evolves w w'" using evolves_yield [OF assms(1)] evolves_trans by blast
  show "holds_lock held b \<Longrightarrow> g_index w' ! b = g_index w ! b" using rely_held [OF assms(1,5)] w' by simp
  show "r = CUDA_SUCCESS \<Longrightarrow> length bs = clen_of e" using cp'(2) by (simp add: slot_at_def)
  assume r: "r = CUDA_SUCCESS" and e: "g_index w' ! b = e"
  obtain p where p: "p \<in> A b" "block_content en mem ?w b = Some p" "length p = CBLK_SIZE"
    using st_okD(5) [OF y] assms(5) unfolding pages_in_def by blast
  then show "\<exists>p \<in> A b. decomp_block (en_lib en) (en_codec en) bs (clen_of e) = Some p \<and> length p = CBLK_SIZE"
    using cp'(2) [OF r] e w' assms(4) by (auto simp: block_content_def Let_def)
qed

section \<open>Publishing\<close>

lemma release_old_ok:
  assumes "ok A (L @ displaced old @ R) w" "stab held A" "clen_of old \<noteq> 0"
  shows "ok A (L @ R) (release_old en held old w)"
  using free_slot_ok(1) [of A L "grain_of old" "clen_of old" "[]" R w held] assms
  by (simp add: release_old_def displaced_def grain_of_def Let_def)

lemma displace_ok:
  assumes "ok A (displaced old @ R) w" "stab held A"
  shows "ok A R (displace en held old clen w)"
proof (cases "ent_clen old = 0")
  case True
  then have "displaced old = []" by (simp add: displaced_def clen_of_def)
  with True assms(1) show ?thesis by (simp add: displace_def Let_def)
next
  case False
  then have "clen_of old \<noteq> 0" by (simp add: clen_of_def unat_eq_zero)
  with False release_old_ok [of A "[]" old R w held] assms show ?thesis by (simp add: displace_def Let_def)
qed

lemma publish_fields:
  assumes "store_wf en w" "slot_fits w g n"
  shows "grain_of (ent_publish (g, n) old) = g" "clen_of (ent_publish (g, n) old) = n"
  using ent_publish_fields(1,2) [of g n old] slot_fits_bounds [OF assms]
  by (auto simp: grain_of_def clen_of_def)

lemma ok_publish:
  assumes ok: "ok A (L @ (g, n, bs) # R) w" and b: "b < g_nblocks en"
    and bs: "length bs = n" "0 < n" "decomp_block (en_lib en) (en_codec en) bs n = Some p" "length p = CBLK_SIZE"
  shows "ok (A(b := {p})) (displaced (g_index w ! b) @ L @ R)
    (w\<lparr>g_index := (g_index w)[b := ent_publish (g, n) old]\<rparr>)"
proof -
  let ?e = "ent_publish (g, n) old"
  have "slot_fits w g n" using st_okD(3) [OF ok, of "(g, n, bs)"] by (simp add: hold_ok_def)
  note f = publish_fields [OF st_okD(1) [OF ok] this, of old]
  have "ok A (L @ [(g, n, bs)] @ R) w" using ok by simp
  then show ?thesis
    by (rule ok_store_entry [OF _ b, where bs = bs]) (use f bs in auto)
qed

lemma wr_publish_ok:
  assumes ok: "ok A (L @ (bo_grain bo, bo_clen bo, bs) # R) w" and st: "stab None A" and b: "bo_blk bo < g_nblocks en"
    and bs: "length bs = bo_clen bo" "0 < bo_clen bo" "decomp_block (en_lib en) (en_codec en) bs (bo_clen bo) = Some p"
    and p: "may_write (bo_blk bo) p"
  shows "ok (upd A (bo_blk bo) p) (L @ R) (wr_publish en bo w)"
proof -
  let ?w = "yield en None w" and ?b = "bo_blk bo"
  have y: "ok A (L @ (bo_grain bo, bo_clen bo, bs) # R) ?w" by (rule rely [OF st ok])
  have "length p = CBLK_SIZE" using p by (simp add: may_write_def)
  then have "ok (A(?b := {p})) (displaced (idx_load ?b ?w) @ L @ R) (idx_publish ?b (bo_grain bo) (bo_clen bo) ?w)"
    using ok_publish [OF y b bs] by (simp add: idx_load_def idx_publish_def)
  from displace_ok [OF ok_upd [OF this st p] stab_upd [OF st]] show ?thesis
    by (simp add: wr_publish_def Let_def)
qed

section \<open>Under the stripe lock\<close>

lemma lock_held [simp]: "holds_lock (Some (IDXL b)) b"
  by (simp add: holds_lock_def)

lemma fetch_locked_ok:
  assumes ok: "ok A R w" and st: "stab (Some (IDXL b)) A" and b: "b < g_nblocks en" and A: "A b = {p}"
    and f: "fetch_locked en b (g_index w ! b) w = (po, w')"
  shows "ok A R w'" "g_index w' ! b = g_index w ! b" "po = None \<and> \<not> faultless en \<or> po = Some p"
proof -
  let ?e = "g_index w ! b"
  have "ok A R w' \<and> g_index w' ! b = g_index w ! b \<and> (po = None \<and> \<not> faultless en \<or> po = Some p)"
  proof (cases "ent_clen ?e = 0")
    case True
    then have "block_content en mem w b = Some zero_page" by (simp add: block_content_def clen_of_def)
    then have "p = zero_page" using st_okD(5) [OF ok] b A by (auto simp: pages_in_def)
    with True f ok show ?thesis by (simp add: fetch_locked_def)
  next
    case False
    then have c: "clen_of ?e \<noteq> 0" by (simp add: clen_of_def unat_eq_zero)
    obtain r bs w1 where co: "copy_out en (Some (IDXL b)) (grain_of ?e) (clen_of ?e) w = (r, bs, w1)"
      by (metis prod_cases3)
    note o = copy_out_ok [OF ok st idx_in_range [OF st_okD(1) [OF ok] b] c b co]
    from o(3) have i: "g_index w1 ! b = ?e" by simp
    show ?thesis
    proof (cases "r = CUDA_SUCCESS")
      case True
      with o(4) i A have "decomp_block (en_lib en) (en_codec en) bs (clen_of ?e) = Some p" by auto
      then show ?thesis
        using f False co True i sync_ok [OF o(1) st] b by (auto simp: fetch_locked_def Let_def grain_of_def clen_of_def)
    next
      case False
      moreover from this have "\<not> faultless en"
        using faultless_copy(2) [of "Some (IDXL b)" "grain_of ?e" "clen_of ?e" w] co by auto
      ultimately show ?thesis using f \<open>ent_clen ?e \<noteq> 0\<close> co o(1) i by (auto simp: fetch_locked_def Let_def grain_of_def clen_of_def)
    qed
  qed
  then show "ok A R w'" "g_index w' ! b = g_index w ! b" "po = None \<and> \<not> faultless en \<or> po = Some p" by blast+
qed

lemma rd_block_locked_ok:
  assumes ok: "ok A R w" and st: "stab None A" and b: "b < g_nblocks en"
    and f: "rd_block_locked en b w = (po, w')"
  shows "ok A R w'" "po = None \<and> \<not> faultless en \<or> (\<exists>p \<in> A b. po = Some p \<and> length p = CBLK_SIZE)"
proof -
  let ?w = "yield en None w"
  have y: "ok A R ?w" by (rule rely [OF st ok])
  obtain p where p: "p \<in> A b" "length p = CBLK_SIZE" "ok (A(b := {p})) R ?w" by (rule pick_page [OF y b])
  have "fetch_locked en b (g_index ?w ! b) ?w = (po, w')" using f by (simp add: rd_block_locked_def idx_load_def Let_def)
  from fetch_locked_ok [OF p(3) stab_lock [OF st] b _ this, of p]
  have "ok (A(b := {p})) R w'" "po = None \<and> \<not> faultless en \<or> po = Some p" by auto
  then show "ok A R w'" "po = None \<and> \<not> faultless en \<or> (\<exists>p \<in> A b. po = Some p \<and> length p = CBLK_SIZE)"
    using p unpick_page by auto
qed

text \<open>
  Read-modify-write: the page that is changed is the one the block has when the lock is taken,
  and the result is published, or nothing of the store changes.
\<close>

lemma comp_block_slot:
  assumes "comp_block (en_lib en) (en_codec en) c page = (n, slot)" "length page = CBLK_SIZE"
  shows "1 \<le> n" "n \<le> CBLK_SIZE" "length (take n slot) = n"
    "decomp_block (en_lib en) (en_codec en) (take n slot) n = Some page"
  using comp_block_length [OF assms(1)] comp_block_restores [OF codec assms(2,1)] by auto

lemma length_overlay: "boff + length bs \<le> length page \<Longrightarrow> length (overlay page boff bs) = length page"
  by (simp add: overlay_def)

lemma rmw_commit:
  assumes ok: "ok (A(b := {p})) R w" and st: "stab None A" and b: "b < g_nblocks en"
    and old: "g_index w ! b = old" and q: "may_write b q"
    and cb: "comp_block (en_lib en) (en_codec en) (en_cc en) q = (clen, slot)"
    and al: "alloc_slot en (Some (IDXL b)) clen w = (g, w3)" "g \<noteq> SLOT_NONE"
    and cp: "copy_in en (Some (IDXL b)) g (take clen slot) w3 = (r, w4)"
  shows "if r \<noteq> CUDA_SUCCESS then ok (A(b := {p})) R (free_slot en (Some (IDXL b)) g w4)
    else let w5 = sync en (Some (IDXL b)) w4
         in ok (upd A b q) R (displace en (Some (IDXL b)) old clen
              (w5\<lparr>g_index := (g_index w5)[b := ent_publish (g, clen) old]\<rparr>))"
proof -
  let ?held = "Some (IDXL b)"
  have q4: "length q = CBLK_SIZE" using q by (simp add: may_write_def)
  note c = comp_block_slot [OF cb q4]
  note st1 = stab_lock [OF st, of b "{p}"]
  from alloc_slot_ok [OF ok st1 c(1,2) al(1)] al(2)
  have w3: "ok (A(b := {p})) ((g, clen, []) # R) w3" "g_index w3 ! b = old" using b old by auto
  have "take clen slot \<noteq> []" using c(1,3) by auto
  from copy_in_ok [of _ "[]", simplified, OF w3(1) st1 _ this cp] c(3) b w3(2)
  have w4: "ok (A(b := {p})) ((g, clen, if r = CUDA_SUCCESS then take clen slot else []) # R) w4" "g_index w4 ! b = old"
    by auto
  show ?thesis
  proof (cases "r = CUDA_SUCCESS")
    case False
    with free_slot_ok(1) [of _ "[]", simplified, OF w4(1) st1] show ?thesis by simp
  next
    case True
    let ?w5 = "sync en ?held w4"
    have w5: "ok (A(b := {p})) ([] @ (g, clen, take clen slot) # R) ?w5" "g_index ?w5 ! b = old"
      using sync_ok [OF w4(1) st1] w4(2) b True by auto
    from ok_publish [OF w5(1) b c(3) _ c(4) q4, of old] c(1) w5(2)
    have "ok (A(b := {q})) (displaced old @ R) (?w5\<lparr>g_index := (g_index ?w5)[b := ent_publish (g, clen) old]\<rparr>)"
      by simp
    from displace_ok [OF this stab_lock [OF st]] show ?thesis using True st q by (simp add: ok_upd Let_def)
  qed
qed

lemma rmw_block_ok:
  assumes ok: "ok A R w" and st: "stab None A" and b: "b < g_nblocks en" and fit: "boff + length src \<le> CBLK_SIZE"
    and mw: "\<And>p. p \<in> A b \<Longrightarrow> length p = CBLK_SIZE \<Longrightarrow> b \<notin> B \<Longrightarrow> overlay p boff src \<in> F b"
    and r: "rmw_block en b boff src w = (e, w')"
  shows "e = 0 \<and> (\<exists>p \<in> A b. length p = CBLK_SIZE \<and> ok (upd A b (overlay p boff src)) R w') \<or>
    (e = EIO \<and> \<not> faultless en \<or> e = ENOSPC \<and> \<not> roomy (length R + 1)) \<and> ok A R w'"
proof -
  let ?w = "yield en None w" and ?held = "Some (IDXL b)"
  have y: "ok A R ?w" by (rule rely [OF st ok])
  obtain p where p: "p \<in> A b" "length p = CBLK_SIZE" "ok (A(b := {p})) R ?w" by (rule pick_page [OF y b])
  obtain po w2 where f: "fetch_locked en b (g_index ?w ! b) ?w = (po, w2)" by fastforce
  note st1 = stab_lock [OF st, of b "{p}"]
  from fetch_locked_ok [OF p(3) st1 b _ f, of p]
  have w2: "ok (A(b := {p})) R w2" "g_index w2 ! b = g_index ?w ! b" "po = None \<and> \<not> faultless en \<or> po = Some p" by auto
  show ?thesis
  proof (cases po)
    case None
    then show ?thesis using r f w2(1,3) p(1) unpick_page by (simp add: rmw_block_def idx_load_def Let_def)
  next
    case (Some scratch)
    let ?q = "overlay p boff src"
    have q: "may_write b ?q" using mw [OF p(1,2)] p(2) fit by (simp add: may_write_def length_overlay)
    obtain clen slot where cb: "comp_block (en_lib en) (en_codec en) (en_cc en) ?q = (clen, slot)" by fastforce
    obtain g w3 where al: "alloc_slot en ?held clen w2 = (g, w3)" by fastforce
    obtain r' w4 where cp: "copy_in en ?held g (take clen slot) w3 = (r', w4)" by fastforce
    have cl: "1 \<le> clen" "clen \<le> CBLK_SIZE"
      using comp_block_slot [OF cb] q by (auto simp: may_write_def)
    have r: "rmw_block en b boff src w = (if g = SLOT_NONE then (ENOSPC, note_enospc w3)
        else if r' \<noteq> CUDA_SUCCESS then (EIO, free_slot en ?held g w4)
        else (0, displace en ?held (g_index ?w ! b) clen
           ((sync en ?held w4)\<lparr>g_index := (g_index (sync en ?held w4))[b := ent_publish (g, clen) (g_index ?w ! b)]\<rparr>)))"
      using Some w2(3) by (simp add: rmw_block_def idx_load_def f cb al cp Let_def)
    show ?thesis
    proof (cases "g = SLOT_NONE")
      case True
      then have "\<not> roomy (length R + 1)" using alloc_slot_room [OF w2(1) st1 cl] al by fastforce
      with True alloc_slot_ok(1) [OF w2(1) st1 cl al] p(1) r assms(6) unpick_page show ?thesis by auto
    next
      case False
      have "faultless en \<Longrightarrow> r' = CUDA_SUCCESS" using faultless_copy(1) [of ?held g "take clen slot" w3] cp by simp
      with rmw_commit [OF w2(1) st b w2(2) q cb al False cp] False r assms(6) p(1,2) unpick_page
      show ?thesis by (auto simp: Let_def split: if_splits)
    qed
  qed
qed

section \<open>TRIM of one block\<close>

lemma unwritten_zero:
  assumes "ok A R w" "b < g_nblocks en" "ent_clen (idx_load b w) = 0"
  shows "ok (A(b := {zero_page})) R w"
proof -
  have "block_content en mem w b = Some zero_page"
    using assms(3) by (simp add: block_content_def clen_of_def idx_load_def)
  with assms(1,2) show ?thesis by (auto simp: st_ok_def pages_in_def zero_page_def)
qed

lemma trim_block_ok:
  assumes ok: "ok A R w" and st: "stab None A" and b: "b < g_nblocks en" and z: "b \<notin> B \<Longrightarrow> zero_page \<in> F b"
  shows "ok (upd A b zero_page) R (trim_block en b w)"
proof -
  let ?w1 = "yield en None w" and ?w2 = "yield en None (yield en None w)"
  have zw: "may_write b zero_page" using z by (simp add: may_write_def zero_page_def)
  have w1: "ok A R ?w1" by (rule rely [OF st ok])
  have w2: "ok A R ?w2" by (rule rely [OF st w1])
  consider "ent_clen (idx_load b ?w1) = 0" | "ent_clen (idx_load b ?w1) \<noteq> 0" "ent_clen (idx_load b ?w2) = 0"
    | "ent_clen (idx_load b ?w1) \<noteq> 0" "ent_clen (idx_load b ?w2) \<noteq> 0" by blast
  then show ?thesis
  proof cases
    case 1
    with ok_upd [OF unwritten_zero [OF w1 b 1] st zw] show ?thesis by (simp add: trim_block_def Let_def)
  next
    case 2
    with ok_upd [OF unwritten_zero [OF w2 b 2(2)] st zw] show ?thesis by (simp add: trim_block_def Let_def)
  next
    case 3
    let ?old = "idx_load b ?w2"
    have old: "clen_of ?old \<noteq> 0" using 3(2) by (simp add: clen_of_def unat_eq_zero)
    have e: "clen_of (ent_publish (0, 0) ?old) = 0"
      using ent_publish_fields(2) [of 0 0 ?old] by (simp add: clen_of_def)
    have "ok (A(b := {zero_page})) (displaced (g_index ?w2 ! b) @ [] @ R) (idx_publish b 0 0 ?w2)"
      unfolding idx_publish_def
      by (rule ok_store_entry [OF _ b, where H = "[]"]) (use w2 e in \<open>auto simp: zero_page_def\<close>)
    then have "ok (A(b := {zero_page})) ([] @ displaced ?old @ R) (idx_publish b 0 0 ?w2)"
      by (simp add: idx_load_def)
    from release_old_ok [OF ok_upd [OF this st zw] stab_upd [OF st] old] 3
    show ?thesis by (simp add: trim_block_def Let_def)
  qed
qed

end

end
