(* ===== verification/Store_Batch.thy ===== *)
theory Store_Batch
  imports Store_Sharing
begin

text \<open>
  A set of block operations, phase by phase: the copies are issued and synchronised, reads
  are validated and retried, contested ones read under the lock, and writes published.
  The theory ends with @do_blocks@: every read that reports no error returns a page its
  block had while the operation ran, every write that reports no error is in the index, and
  a slot is lost only where the driver refused a copy to the device.
\<close>

context shared_store
begin

section \<open>What is known of an operation\<close>

text \<open>A read after its snapshot, and after its bytes were copied.\<close>

definition rd_snap :: "(nat \<Rightarrow> byte list set) \<Rightarrow> blkop \<Rightarrow> 'd world \<Rightarrow> bool" where
  "rd_snap A bo w \<longleftrightarrow> bo_clen bo = clen_of (bo_ent bo) \<and> bo_grain bo = grain_of (bo_ent bo) \<and>
     ent_in_range en (bo_ent bo) \<and> (\<exists>w0. evolves w0 w \<and> g_index w0 ! bo_blk bo = bo_ent bo) \<and>
     (bo_clen bo = 0 \<longrightarrow> zero_page \<in> A (bo_blk bo))"

definition rd_fetched :: "(nat \<Rightarrow> byte list set) \<Rightarrow> blkop \<Rightarrow> 'd world \<Rightarrow> bool" where
  "rd_fetched A bo w \<longleftrightarrow> rd_snap A bo w \<and>
     (bo_clen bo \<noteq> 0 \<longrightarrow> (\<forall>w2. evolves w w2 \<longrightarrow> g_index w2 ! bo_blk bo = bo_ent bo \<longrightarrow>
        (\<exists>p \<in> A (bo_blk bo). decomp_block (en_lib en) (en_codec en) (bo_cslot bo) (bo_clen bo) = Some p \<and>
           length p = CBLK_SIZE)))"

definition rd_done :: "(nat \<Rightarrow> byte list set) \<Rightarrow> blkop \<Rightarrow> bool" where
  "rd_done A bo \<longleftrightarrow> bo_page bo \<in> A (bo_blk bo) \<and> length (bo_page bo) = CBLK_SIZE"

text \<open>A read during the validation rounds.\<close>

definition rd_inv :: "(nat \<Rightarrow> byte list set) \<Rightarrow> blkop \<Rightarrow> 'd world \<Rightarrow> bool" where
  "rd_inv A bo w \<longleftrightarrow>
     (bo_cmd bo = NBD_CMD_READ \<longrightarrow> bo_err bo = 0 \<longrightarrow> (if bo_dma bo = 2 then rd_done A bo else rd_fetched A bo w))"

text \<open>A write that holds a reservation carries the compressed form of its page.\<close>

definition wr_ready :: "blkop \<Rightarrow> bool" where
  "wr_ready bo \<longleftrightarrow> 0 < bo_clen bo \<and> length (take (bo_clen bo) (bo_cslot bo)) = bo_clen bo \<and>
     decomp_block (en_lib en) (en_codec en) (take (bo_clen bo) (bo_cslot bo)) (bo_clen bo) = Some (bo_page bo) \<and>
     may_write (bo_blk bo) (bo_page bo)"

definition wr_held :: "(blkop \<Rightarrow> byte list) \<Rightarrow> blkop \<Rightarrow> hold list" where
  "wr_held known bo =
     (if bo_cmd bo = NBD_CMD_WRITE \<and> bo_grain bo \<noteq> SLOT_NONE then [(bo_grain bo, bo_clen bo, known bo)] else [])"

definition copied :: "blkop \<Rightarrow> byte list" where
  "copied bo = (if bo_err bo = 0 then take (bo_clen bo) (bo_cslot bo) else [])"

definition op_start :: "(nat \<Rightarrow> byte list set) \<Rightarrow> blkop \<Rightarrow> 'd world \<Rightarrow> bool" where
  "op_start A bo w \<longleftrightarrow> bo_blk bo < g_nblocks en \<and>
     (bo_cmd bo = NBD_CMD_READ \<and> bo_err bo = 0 \<and> bo_dma bo = (if bo_clen bo = 0 then 0 else 1) \<and> rd_snap A bo w \<or>
      bo_cmd bo = NBD_CMD_WRITE \<and> bo_grain bo = SLOT_NONE \<and> bo_dma bo = 0 \<or>
      bo_cmd bo = NBD_CMD_WRITE \<and> bo_grain bo \<noteq> SLOT_NONE \<and> bo_err bo = 0 \<and> bo_dma bo \<noteq> 0 \<and> wr_ready bo)"

text \<open>Which fields a phase leaves alone, and that it sets no error the driver did not report.\<close>

definition op_kept :: "blkop \<Rightarrow> blkop \<Rightarrow> bool" where
  "op_kept bo bo' \<longleftrightarrow> bo_blk bo' = bo_blk bo \<and> bo_cmd bo' = bo_cmd bo \<and> bo_req bo' = bo_req bo \<and>
     (bo_cmd bo = NBD_CMD_WRITE \<longrightarrow> bo_grain bo' = bo_grain bo \<and> bo_clen bo' = bo_clen bo \<and>
        bo_page bo' = bo_page bo \<and> bo_cslot bo' = bo_cslot bo) \<and>
     (bo_err bo' = bo_err bo \<or> bo_err bo = 0 \<and> bo_err bo' = EIO \<and> \<not> faultless en)"

lemma op_kept_refl [simp]: "op_kept bo bo" by (simp add: op_kept_def)

lemma op_kept_trans: "op_kept a b \<Longrightarrow> op_kept b c \<Longrightarrow> op_kept a c"
  unfolding op_kept_def by (elim conjE disjE) simp_all

lemma evolves_refl: "evolves w w" by (rule evolves_own) simp_all

lemma rd_snap_mono: "rd_snap A bo w \<Longrightarrow> evolves w w' \<Longrightarrow> rd_snap A bo w'"
  unfolding rd_snap_def using evolves_trans by blast

lemma rd_fetched_mono:
  assumes "rd_fetched A bo w" "evolves w w'"
  shows "rd_fetched A bo w'"
  using assms(1) rd_snap_mono [OF _ assms(2)] evolves_trans [OF assms(2)] unfolding rd_fetched_def by blast

lemma rd_inv_mono: "rd_inv A bo w \<Longrightarrow> evolves w w' \<Longrightarrow> rd_inv A bo w'"
  unfolding rd_inv_def using rd_fetched_mono by meson

lemma op_start_mono: "op_start A bo w \<Longrightarrow> evolves w w' \<Longrightarrow> op_start A bo w'"
  unfolding op_start_def using rd_snap_mono by blast

section \<open>Snapshot and fetch\<close>

lemma rd_prepare_ok:
  assumes "ok A R w" "stab None A" "bo_blk bo < g_nblocks en" "rd_prepare en bo w = (bo', w')"
  shows "ok A R w' \<and> evolves w w' \<and> rd_snap A bo' w' \<and> bo_dma bo' = (if bo_clen bo' = 0 then 0 else 1) \<and>
    bo_blk bo' = bo_blk bo \<and> bo_cmd bo' = bo_cmd bo \<and> bo_req bo' = bo_req bo \<and> bo_err bo' = bo_err bo"
proof -
  let ?w = "yield en None w" and ?b = "bo_blk bo"
  have y: "ok A R ?w" by (rule rely [OF assms(2,1)])
  have e: "bo_ent bo' = g_index ?w ! ?b" "bo_clen bo' = clen_of (bo_ent bo')" "bo_grain bo' = grain_of (bo_ent bo')"
      "w' = ?w" "bo_blk bo' = ?b" "bo_cmd bo' = bo_cmd bo" "bo_req bo' = bo_req bo" "bo_err bo' = bo_err bo"
      "bo_dma bo' = (if ent_clen (bo_ent bo') = 0 then 0 else 1)"
    using assms(4) by (auto simp: rd_prepare_def idx_load_def clen_of_def grain_of_def Let_def)
  have "zero_page \<in> A ?b" if "clen_of (g_index ?w ! ?b) = 0"
    using unwritten_zero [OF y assms(3)] that st_okD(5) [OF y] assms(3)
    by (auto simp: pages_in_def block_content_def)
  then have "rd_snap A bo' ?w"
    unfolding rd_snap_def using e idx_in_range [OF st_okD(1) [OF y] assms(3)] evolves_refl by auto
  then show ?thesis using e y evolves_yield [OF assms(1)] by (simp add: clen_of_def unat_eq_zero)
qed

text \<open>The copy of a read operation: validated later, its bytes will be the block's.\<close>

lemma rd_copy_ok:
  assumes ok: "ok A R w" and st: "stab None A" and b: "bo_blk bo < g_nblocks en" and sn: "rd_snap A bo w"
    and c: "bo_clen bo \<noteq> 0" and cp: "copy_out en None (bo_grain bo) (bo_clen bo) w = (r, bs, w')"
  shows "ok A R w' \<and> evolves w w' \<and>
    (r = CUDA_SUCCESS \<longrightarrow> rd_fetched A (bo\<lparr>bo_cslot := bs @ drop (bo_clen bo) (bo_cslot bo)\<rparr>) w')"
proof -
  let ?e = "bo_ent bo" and ?bo = "bo\<lparr>bo_cslot := bs @ drop (bo_clen bo) (bo_cslot bo)\<rparr>"
  from sn have e: "bo_clen bo = clen_of ?e" "bo_grain bo = grain_of ?e" "ent_in_range en ?e"
    by (auto simp: rd_snap_def)
  obtain w0 where w0: "evolves w0 w" "g_index w0 ! bo_blk bo = ?e" using sn by (auto simp: rd_snap_def)
  note o = copy_out_ok [OF ok st e(3) c [unfolded e(1)] b cp [unfolded e(1,2)]]
  have "rd_fetched A ?bo w'" if r: "r = CUDA_SUCCESS"
  proof -
    have "rd_snap A ?bo w'" using rd_snap_mono [OF sn o(2)] by (simp add: rd_snap_def)
    moreover have "\<exists>p \<in> A (bo_blk bo). decomp_block (en_lib en) (en_codec en) (bo_cslot ?bo) (bo_clen bo) = Some p \<and>
        length p = CBLK_SIZE" if w2: "evolves w' w2" "g_index w2 ! bo_blk bo = ?e" for w2
    proof -
      have "g_index w' ! bo_blk bo = ?e"
        using no_return [OF evolves_trans [OF w0(1) o(2)] w2(1) b] w2(2) w0(2) by simp
      moreover have "decomp_block (en_lib en) (en_codec en) (bs @ drop (bo_clen bo) (bo_cslot bo)) (bo_clen bo) =
          decomp_block (en_lib en) (en_codec en) bs (bo_clen bo)"
        using decomp_block_prefix [of "bo_clen bo" bs] o(5) [OF r] e(1) by simp
      ultimately show ?thesis using o(4) [OF r] e(1) by simp
    qed
    ultimately show ?thesis by (simp add: rd_fetched_def)
  qed
  then show ?thesis using o(1,2) by simp
qed

text \<open>Compression and reservation of one write.\<close>

lemma wr_prepare_ok:
  assumes ok: "ok A R w" and st: "stab None A" and b: "bo_blk bo < g_nblocks en" and c: "bo_cmd bo = NBD_CMD_WRITE" "bo_err bo = 0"
    and p: "may_write (bo_blk bo) (bo_page bo)" and wp: "wr_prepare en bo w = (bo', w')"
  shows "ok A (wr_held (\<lambda>_. []) bo' @ R) w' \<and> evolves w w' \<and> op_start A bo' w' \<and>
    bo_blk bo' = bo_blk bo \<and> bo_cmd bo' = bo_cmd bo \<and> bo_req bo' = bo_req bo \<and> bo_page bo' = bo_page bo \<and>
    bo_err bo' = (if bo_grain bo' = SLOT_NONE then ENOSPC else 0)"
proof -
  obtain n slot where cb: "comp_block (en_lib en) (en_codec en) (en_cc en) (bo_page bo) = (n, slot)" by fastforce
  obtain g w1 where al: "alloc_slot en None n w = (g, w1)" by fastforce
  have len: "length (bo_page bo) = CBLK_SIZE" using p by (simp add: may_write_def)
  note s = comp_block_slot [OF cb len]
  note a = alloc_slot_ok [OF ok st s(1,2) al]
  have e: "evolves w1 (note_enospc w1)" by (rule evolves_own) (simp_all add: note_enospc_def)
  show ?thesis
  proof (cases "g = SLOT_NONE")
    case True
    then show ?thesis using wp cb al a(1) evolves_trans [OF a(2) e] b c by (auto simp: wr_prepare_def wr_held_def op_start_def Let_def)
  next
    case False
    then show ?thesis using wp cb al a s p b c
      by (auto simp: wr_prepare_def wr_held_def op_start_def wr_ready_def Let_def)
  qed
qed

section \<open>Issuing the copies\<close>

text \<open>A state of the phases that count: the counter and the world.\<close>

lemma issue_copy_ok:
  assumes I: "ok A ((L1 @ wr_held (\<lambda>_. []) bo @ L2) @ R) (snd s)" and st: "stab None A"
    and P: "op_start A bo (snd s)"
  shows "ok A ((L1 @ wr_held copied (fst (issue_copy en bo s)) @ L2) @ R) (snd (snd (issue_copy en bo s))) \<and>
    evolves (snd s) (snd (snd (issue_copy en bo s))) \<and>
    (op_kept bo (fst (issue_copy en bo s)) \<and>
     rd_inv A (fst (issue_copy en bo s)) (snd (snd (issue_copy en bo s))))"
proof (cases "bo_dma bo = 0 \<or> bo_err bo \<noteq> 0")
  case True
  then have i: "issue_copy en bo s = (bo, s)" by (simp add: issue_copy_def case_prod_unfold Let_def)
  from True P have "rd_inv A bo (snd s)" "wr_held copied bo = wr_held (\<lambda>_. []) bo"
    by (auto simp: op_start_def rd_inv_def rd_fetched_def wr_held_def split: if_splits)
  with i I evolves_refl show ?thesis by simp
next
  case False
  then consider (fetch) "bo_cmd bo = NBD_CMD_READ" "bo_clen bo \<noteq> 0" "rd_snap A bo (snd s)" "bo_blk bo < g_nblocks en" "bo_dma bo = 1"
    | (store) "bo_cmd bo = NBD_CMD_WRITE" "bo_grain bo \<noteq> SLOT_NONE" "wr_ready bo"
    using P by (auto simp: op_start_def split: if_splits)
  then show ?thesis
  proof cases
    case fetch
    obtain r bs w' where cp: "copy_out en None (bo_grain bo) (bo_clen bo) (snd s) = (r, bs, w')" by (metis prod_cases3)
    have f: "faultless en \<Longrightarrow> r = CUDA_SUCCESS" using faultless_copy(2) [of None "bo_grain bo" "bo_clen bo" "snd s"] cp by simp
    have h: "wr_held k bo' = []" if "bo_cmd bo' = NBD_CMD_READ" for k bo' using that by (simp add: wr_held_def)
    from rd_copy_ok [OF I st fetch(4,3,2) cp] f False fetch h show ?thesis
      by (auto simp: issue_copy_def cp case_prod_unfold Let_def rd_inv_def op_kept_def)
  next
    case store
    let ?bs = "take (bo_clen bo) (bo_cslot bo)"
    obtain r w' where cp: "copy_in en None (bo_grain bo) ?bs (snd s) = (r, w')" by fastforce
    have f: "faultless en \<Longrightarrow> r = CUDA_SUCCESS" using faultless_copy(1) [of None "bo_grain bo" ?bs "snd s"] cp by simp
    have h: "wr_held k bo' = [(bo_grain bo, bo_clen bo, k bo')]"
      if "bo_cmd bo' = bo_cmd bo" "bo_grain bo' = bo_grain bo" "bo_clen bo' = bo_clen bo" for k bo'
      using that store by (simp add: wr_held_def)
    have I': "ok A (L1 @ (bo_grain bo, bo_clen bo, []) # (L2 @ R)) (snd s)" using I h [of bo] by simp
    have bs: "length ?bs \<le> bo_clen bo" "?bs \<noteq> []" using store(3) by (auto simp: wr_ready_def)
    from copy_in_ok(1,2) [OF I' st bs cp] f False store show ?thesis
      by (auto simp: issue_copy_def cp case_prod_unfold Let_def rd_inv_def op_kept_def h copied_def)
  qed
qed

section \<open>Validation\<close>

lemma wr_held_kept:
  assumes "op_kept bo bo'" "bo_cmd bo \<noteq> NBD_CMD_WRITE \<or> bo_err bo' = bo_err bo"
  shows "wr_held copied bo' = wr_held copied bo"
  using assms by (auto simp: op_kept_def wr_held_def copied_def)

lemma finish_read_ok:
  assumes I: "ok A R (snd s)" and st: "stab None A" and P: "rd_inv A bo (snd s)"
  shows "ok A R (snd (snd (finish_read en bo s))) \<and> evolves (snd s) (snd (snd (finish_read en bo s))) \<and>
    op_kept bo (fst (finish_read en bo s)) \<and> (bo_cmd bo = NBD_CMD_WRITE \<longrightarrow> fst (finish_read en bo s) = bo) \<and>
    rd_inv A (fst (finish_read en bo s)) (snd (snd (finish_read en bo s)))"
proof (cases "rd_pending bo")
  case False
  then show ?thesis using I P evolves_refl by (simp add: finish_read_def case_prod_unfold Let_def)
next
  case True
  then have fe: "rd_fetched A bo (snd s)" and cmd: "bo_cmd bo = NBD_CMD_READ" "bo_err bo = 0" "bo_dma bo \<noteq> 2"
    using P by (auto simp: rd_inv_def rd_pending_def)
  let ?w = "yield en None (snd s)"
  have y: "ok A R ?w" "evolves (snd s) ?w" by (rule rely [OF st I], rule evolves_yield [OF I])
  consider (zero) "bo_clen bo = 0" | (lost) "bo_clen bo \<noteq> 0" "g_index ?w ! bo_blk bo \<noteq> bo_ent bo"
    | (won) p where "bo_clen bo \<noteq> 0" "g_index ?w ! bo_blk bo = bo_ent bo" "p \<in> A (bo_blk bo)" "length p = CBLK_SIZE"
        "decomp_block (en_lib en) (en_codec en) (bo_cslot bo) (bo_clen bo) = Some p"
    using fe y(2) unfolding rd_fetched_def by blast
  then show ?thesis
  proof cases
    case zero
    with fe have "zero_page \<in> A (bo_blk bo)" by (simp add: rd_fetched_def rd_snap_def)
    then show ?thesis using I True cmd zero evolves_refl
      by (simp add: finish_read_def rd_finish_def case_prod_unfold Let_def rd_inv_def rd_done_def op_kept_def zero_page_def)
  next
    case lost
    then show ?thesis using y True cmd rd_fetched_mono [OF fe y(2)]
      by (simp add: finish_read_def rd_finish_def case_prod_unfold Let_def rd_inv_def idx_load_def Let_def)
  next
    case won
    then show ?thesis using y True cmd
      by (simp add: finish_read_def rd_finish_def case_prod_unfold Let_def rd_inv_def rd_done_def idx_load_def op_kept_def Let_def)
  qed
qed

lemma retry_read_ok:
  assumes I: "ok A R (snd s)" and st: "stab None A" and b: "bo_blk bo < g_nblocks en" and P: "rd_inv A bo (snd s)"
  shows "ok A R (snd (snd (retry_read en bo s))) \<and> evolves (snd s) (snd (snd (retry_read en bo s))) \<and>
    op_kept bo (fst (retry_read en bo s)) \<and> (bo_cmd bo = NBD_CMD_WRITE \<longrightarrow> fst (retry_read en bo s) = bo) \<and>
    rd_inv A (fst (retry_read en bo s)) (snd (snd (retry_read en bo s)))"
proof (cases "rd_pending bo")
  case False
  then show ?thesis using I P evolves_refl by (simp add: retry_read_def case_prod_unfold Let_def)
next
  case True
  then have cmd: "bo_cmd bo = NBD_CMD_READ" "bo_err bo = 0" by (auto simp: rd_pending_def)
  obtain bo1 w1 where pr: "rd_prepare en bo (snd s) = (bo1, w1)" by fastforce
  from rd_prepare_ok [OF I st b pr] have p: "ok A R w1" "evolves (snd s) w1" "rd_snap A bo1 w1"
      "bo_dma bo1 = (if bo_clen bo1 = 0 then 0 else 1)" "bo_blk bo1 = bo_blk bo" "bo_cmd bo1 = NBD_CMD_READ"
      "bo_req bo1 = bo_req bo" "bo_err bo1 = 0"
    using cmd by auto
  then have k: "op_kept bo bo1" using cmd by (simp add: op_kept_def)
  obtain r bs w2 where cp: "copy_out en None (bo_grain bo1) (bo_clen bo1) w1 = (r, bs, w2)" by (metis prod_cases3)
  show ?thesis
  proof (cases "bo_clen bo1 = 0")
    case c: True
    then have "rd_inv A bo1 w1" using p by (simp add: rd_inv_def rd_fetched_def)
    then show ?thesis using p k cmd True c by (simp add: retry_read_def pr case_prod_unfold Let_def)
  next
    case c: False
    have f: "faultless en \<Longrightarrow> r = CUDA_SUCCESS" using faultless_copy(2) [of None "bo_grain bo1" "bo_clen bo1" w1] cp by simp
    have b1: "bo_blk bo1 < g_nblocks en" using p(5) b by simp
    from rd_copy_ok [OF p(1) st b1 p(3) c cp] p(2) have "ok A R w2" "evolves (snd s) w2"
        "r = CUDA_SUCCESS \<longrightarrow> rd_fetched A (bo1\<lparr>bo_cslot := bs @ drop (bo_clen bo1) (bo_cslot bo1)\<rparr>) w2"
      using evolves_trans by blast+
    then show ?thesis using k cmd True c p f
      by (auto simp: retry_read_def pr cp case_prod_unfold Let_def rd_inv_def op_kept_def)
  qed
qed

section \<open>The phases over all operations\<close>

lemma sync_opt:
  assumes "ok A R w" "stab None A"
  shows "ok A R (if q \<noteq> (0::nat) then sync en None w else w)" "evolves w (if q \<noteq> (0::nat) then sync en None w else w)"
  using sync_ok [OF assms] assms(1) evolves_refl by simp_all

abbreviation phase_post :: "(nat \<Rightarrow> byte list set) \<Rightarrow> hold list \<Rightarrow> 'd world \<Rightarrow> blkop list \<Rightarrow> blkop list \<Rightarrow> 'd world \<Rightarrow> bool" where
  "phase_post A R w ops ops' w' \<equiv> ok A (concat (map (wr_held copied) ops') @ R) w' \<and> evolves w w' \<and>
     list_all2 (\<lambda>bo bo'. op_kept bo bo' \<and> rd_inv A bo' w') ops ops'"

lemma issue_phase:
  assumes ok: "ok A (concat (map (wr_held (\<lambda>_. [])) ops) @ R) w" and st: "stab None A"
    and ops: "\<And>bo. bo \<in> set ops \<Longrightarrow> op_start A bo w"
    and ms: "map_state (issue_copy en) ops (0, w) = (ops', q, w')"
  shows "phase_post A R w ops ops' w'"
proof -
  let ?I = "\<lambda>L (s :: nat \<times> 'd world). ok A (L @ R) (snd s)" and ?P = "\<lambda>bo s. op_start A bo (snd s)"
  let ?Q = "\<lambda>bo bo' s. op_kept bo bo' \<and> rd_inv A bo' (snd s)" and ?E = "\<lambda>(s :: nat \<times> 'd world) (s' :: nat \<times> 'd world). evolves (snd s) (snd s')"
  let ?r = "map_state (issue_copy en) ops (0, w)"
  have "?I ([] @ concat (map (wr_held copied) (fst ?r))) (snd ?r) \<and> ?E (0, w) (snd ?r) \<and>
      list_all2 (\<lambda>bo bo'. ?Q bo bo' (snd ?r)) ops (fst ?r)"
  proof (rule map_state_phase [where P = ?P])
    fix bo L1 L2 s assume "?I (L1 @ wr_held (\<lambda>_. []) bo @ L2) s" "?P bo s"
    then show "?I (L1 @ wr_held copied (fst (issue_copy en bo s)) @ L2) (snd (issue_copy en bo s)) \<and>
        ?E s (snd (issue_copy en bo s)) \<and> ?Q bo (fst (issue_copy en bo s)) (snd (issue_copy en bo s))"
      using issue_copy_ok [OF _ st] by blast
  qed (use ok ops op_start_mono rd_inv_mono evolves_refl evolves_trans in auto)
  then show ?thesis by (simp add: ms)
qed

text \<open>The two read phases, which leave every write as it is.\<close>

lemma read_phase:
  fixes f :: "blkop \<Rightarrow> nat \<times> 'd world \<Rightarrow> blkop \<times> nat \<times> 'd world"
  assumes step: "\<And>bo s R. ok A R (snd s) \<Longrightarrow> bo_blk bo < g_nblocks en \<Longrightarrow> rd_inv A bo (snd s) \<Longrightarrow>
      ok A R (snd (snd (f bo s))) \<and> evolves (snd s) (snd (snd (f bo s))) \<and> op_kept bo (fst (f bo s)) \<and>
      (bo_cmd bo = NBD_CMD_WRITE \<longrightarrow> fst (f bo s) = bo) \<and> rd_inv A (fst (f bo s)) (snd (snd (f bo s)))"
    and ok: "ok A (concat (map (wr_held copied) ops) @ R) w"
    and ops: "\<And>bo. bo \<in> set ops \<Longrightarrow> bo_blk bo < g_nblocks en \<and> rd_inv A bo w"
    and ms: "map_state f ops (k, w) = (ops', q, w')"
  shows "phase_post A R w ops ops' w'"
proof -
  let ?I = "\<lambda>L (s :: nat \<times> 'd world). ok A (L @ R) (snd s)" and ?P = "\<lambda>bo s. bo_blk bo < g_nblocks en \<and> rd_inv A bo (snd s)"
  let ?Q = "\<lambda>bo bo' s. op_kept bo bo' \<and> rd_inv A bo' (snd s)" and ?E = "\<lambda>(s :: nat \<times> 'd world) (s' :: nat \<times> 'd world). evolves (snd s) (snd s')"
  let ?r = "map_state f ops (k, w)"
  have "?I ([] @ concat (map (wr_held copied) (fst ?r))) (snd ?r) \<and> ?E (k, w) (snd ?r) \<and>
      list_all2 (\<lambda>bo bo'. ?Q bo bo' (snd ?r)) ops (fst ?r)"
  proof (rule map_state_phase [where P = ?P])
    fix bo L1 L2 s assume I: "?I (L1 @ wr_held copied bo @ L2) s" and P: "?P bo s"
    note st = step [OF I, of bo]
    have "wr_held copied (fst (f bo s)) = wr_held copied bo"
      using st P by (cases "bo_cmd bo = NBD_CMD_WRITE") (auto simp: op_kept_def wr_held_def)
    then show "?I (L1 @ wr_held copied (fst (f bo s)) @ L2) (snd (f bo s)) \<and> ?E s (snd (f bo s)) \<and>
        ?Q bo (fst (f bo s)) (snd (f bo s))"
      using st P by simp
  qed (use ok ops rd_inv_mono evolves_refl evolves_trans in auto)
  then show ?thesis by (simp add: ms)
qed

lemma phase_trans:
  assumes "phase_post A R w ops ops1 w1" "phase_post A R w1 ops1 ops2 w2"
  shows "phase_post A R w ops ops2 w2"
proof -
  have "list_all2 (\<lambda>bo bo'. op_kept bo bo' \<and> rd_inv A bo' w2) ops ops2"
    by (rule list_all2_trans [OF _ conjunct2 [OF conjunct2 [OF assms(1)]] conjunct2 [OF conjunct2 [OF assms(2)]]])
      (use op_kept_trans in blast)
  then show ?thesis using assms evolves_trans by blast
qed

lemma phase_ops:
  assumes "list_all2 (\<lambda>bo bo'. op_kept bo bo' \<and> rd_inv A bo' w') ops ops'"
    and "\<And>bo. bo \<in> set ops \<Longrightarrow> bo_blk bo < g_nblocks en" "bo' \<in> set ops'"
  shows "bo_blk bo' < g_nblocks en \<and> rd_inv A bo' w'"
  by (rule list_all2_right [OF assms(1,3)]) (auto simp: op_kept_def dest: assms(2))

lemma phase_world:
  assumes "phase_post A R w ops ops' w'" "ok A (concat (map (wr_held copied) ops') @ R) w''" "evolves w' w''"
  shows "phase_post A R w ops ops' w''"
proof -
  have "list_all2 (\<lambda>bo bo'. op_kept bo bo' \<and> rd_inv A bo' w'') ops ops'"
    by (rule list_all2_mono [OF conjunct2 [OF conjunct2 [OF assms(1)]]]) (use rd_inv_mono assms(3) in blast)
  then show ?thesis using assms evolves_trans by blast
qed

lemma read_rounds_ok:
  assumes "stab None A" "ok A (concat (map (wr_held copied) ops) @ R) w"
    and "\<And>bo. bo \<in> set ops \<Longrightarrow> bo_blk bo < g_nblocks en \<and> rd_inv A bo w"
    and "read_rounds en k ops w = (ops', w')"
  shows "phase_post A R w ops ops' w'"
  using assms(2-)
proof (induction k arbitrary: ops w)
  case 0
  then show ?case using evolves_refl by (auto simp: list_all2_same)
next
  case (Suc k)
  obtain ops1 again w1 where f: "map_state (finish_read en) ops (0, w) = (ops1, again, w1)" by (metis prod_cases3)
  have p1: "phase_post A R w ops ops1 w1"
    by (rule read_phase [OF _ Suc.prems(1,2) f]) (use finish_read_ok assms(1) in blast)
  show ?case
  proof (cases "again = 0")
    case True
    then show ?thesis using Suc.prems(3) f p1 by simp
  next
    case False
    define w2 where "w2 = w1\<lparr>g_read_retry := u64 (g_read_retry w1 + again)\<rparr>"
    obtain ops2 q w3 where r: "map_state (retry_read en) ops1 (0, w2) = (ops2, q, w3)" by (metis prod_cases3)
    define w4 where "w4 = (if q \<noteq> 0 then sync en None w3 else w3)"
    have p2: "phase_post A R w ops ops1 w2"
      by (rule phase_world [OF p1]) (use p1 evolves_own in \<open>simp_all add: w2_def\<close>)
    note o2 = phase_ops [OF conjunct2 [OF conjunct2 [OF p2]]]
    have p3: "phase_post A R w2 ops1 ops2 w3"
      by (rule read_phase [OF _ _ _ r]) (use p2 o2 Suc.prems(2) retry_read_ok assms(1) in blast)+
    have p4: "phase_post A R w ops ops2 w4"
      unfolding w4_def by (rule phase_world [OF phase_trans [OF p2 p3]]) (use p3 sync_opt [OF _ assms(1)] in blast)+
    have "phase_post A R w4 ops2 ops' w'"
    proof (rule Suc.IH)
      show "bo_blk bo < g_nblocks en \<and> rd_inv A bo w4" if "bo \<in> set ops2" for bo
        using phase_ops [OF conjunct2 [OF conjunct2 [OF p4]] _ that] Suc.prems(2) by blast
      show "read_rounds en k ops2 w4 = (ops', w')"
        using Suc.prems(3) False by (simp add: f r w2_def [symmetric] w4_def)
    qed (use p4 in blast)
    from phase_trans [OF p4 this] show ?thesis .
  qed
qed

section \<open>Contested reads and publishing\<close>

lemma read_locked_ok:
  assumes I: "ok A R w" and st: "stab None A" and b: "bo_blk bo < g_nblocks en" and P: "rd_inv A bo w0"
    and rl: "read_locked en bo w = (bo', w')"
  shows "ok A R w' \<and> op_kept bo bo' \<and> (bo_cmd bo = NBD_CMD_WRITE \<longrightarrow> bo' = bo) \<and>
    (bo_cmd bo = NBD_CMD_READ \<longrightarrow> bo_err bo' = 0 \<longrightarrow> rd_done A bo')"
proof (cases "rd_pending bo")
  case False
  then show ?thesis using I P rl by (auto simp: read_locked_def rd_pending_def rd_inv_def)
next
  case True
  obtain po w1 where l: "rd_block_locked en (bo_blk bo) w = (po, w1)" by fastforce
  from rd_block_locked_ok [OF I st b l] rl l True show ?thesis
    by (auto simp: read_locked_def rd_pending_def op_kept_def rd_done_def)
qed

definition ops_done :: "(nat \<Rightarrow> byte list set) \<Rightarrow> blkop list \<Rightarrow> bool" where
  "ops_done A ops \<longleftrightarrow> (\<forall>bo \<in> set ops. bo_cmd bo = NBD_CMD_READ \<longrightarrow> bo_err bo = 0 \<longrightarrow> rd_done A bo)"

lemma locked_phase:
  assumes st: "stab None A" and ok: "ok A (concat (map (wr_held copied) ops) @ R) w"
    and ops: "\<And>bo. bo \<in> set ops \<Longrightarrow> bo_blk bo < g_nblocks en \<and> rd_inv A bo w"
    and ms: "map_state (read_locked en) ops w = (ops', w')"
  shows "ok A (concat (map (wr_held copied) ops') @ R) w' \<and> list_all2 op_kept ops ops' \<and> ops_done A ops'"
proof -
  let ?I = "\<lambda>L s. ok A (L @ R) s" and ?P = "\<lambda>bo (s :: 'd world). bo_blk bo < g_nblocks en \<and> rd_inv A bo w"
  let ?Q = "\<lambda>bo bo' (s :: 'd world). op_kept bo bo' \<and>
    (bo_cmd bo' = NBD_CMD_READ \<longrightarrow> bo_err bo' = 0 \<longrightarrow> rd_done A bo')"
  let ?r = "map_state (read_locked en) ops w"
  have "?I ([] @ concat (map (wr_held copied) (fst ?r))) (snd ?r) \<and> True \<and>
      list_all2 (\<lambda>bo bo'. ?Q bo bo' (snd ?r)) ops (fst ?r)"
  proof (rule map_state_phase [where P = ?P and E = "\<lambda>_ _. True"])
    fix bo L1 L2 s assume I: "?I (L1 @ wr_held copied bo @ L2) s" and P: "?P bo s"
    obtain bo' s' where rl: "read_locked en bo s = (bo', s')" by fastforce
    note q = read_locked_ok [OF I st conjunct1 [OF P] conjunct2 [OF P] rl]
    have "wr_held copied bo' = wr_held copied bo"
      using q by (cases "bo_cmd bo = NBD_CMD_WRITE") (auto simp: op_kept_def wr_held_def)
    then show "?I (L1 @ wr_held copied (fst (read_locked en bo s)) @ L2) (snd (read_locked en bo s)) \<and> True \<and>
        ?Q bo (fst (read_locked en bo s)) (snd (read_locked en bo s))"
      using q by (auto simp: rl op_kept_def)
  qed (use ok ops in auto)
  then show ?thesis
    by (auto simp: ms ops_done_def list_all2_conv_all_nth in_set_conv_nth)
qed

lemma wr_held_cases:
  "(\<forall>k. wr_held k bo = []) \<or> (\<forall>k. wr_held k bo = [(bo_grain bo, bo_clen bo, k bo)])"
  by (simp add: wr_held_def)

text \<open>Which operations are published, what that makes of the blocks, and the slots that are lost.\<close>

definition published :: "blkop \<Rightarrow> bool" where
  "published bo \<longleftrightarrow> bo_cmd bo = NBD_CMD_WRITE \<and> bo_err bo = 0 \<and> bo_grain bo \<noteq> SLOT_NONE"

lemma publish_write_eq: "publish_write en bo w = (bo, if published bo then wr_publish en bo w else w)"
  by (simp add: publish_write_def published_def)

definition wrote :: "blkop list \<Rightarrow> (nat \<Rightarrow> byte list set) \<Rightarrow> nat \<Rightarrow> byte list set" where
  "wrote ops A = fold (\<lambda>bo A. if published bo then upd A (bo_blk bo) (bo_page bo) else A) ops A"

definition lost :: "blkop list \<Rightarrow> hold list" where
  "lost ops = concat (map (\<lambda>bo. if published bo then [] else wr_held (\<lambda>_. []) bo) ops)"

lemma publish_phase:
  assumes "stab None A" "ok A (concat (map (wr_held copied) ops) @ R) w"
    and "\<And>bo. bo \<in> set ops \<Longrightarrow> bo_blk bo < g_nblocks en \<and>
      (bo_cmd bo = NBD_CMD_WRITE \<longrightarrow> bo_grain bo \<noteq> SLOT_NONE \<longrightarrow> wr_ready bo)"
  shows "fst (map_state (publish_write en) ops w) = ops \<and>
    ok (wrote ops A) (lost ops @ R) (snd (map_state (publish_write en) ops w)) \<and> stab None (wrote ops A)"
  using assms
proof (induction ops arbitrary: A R w)
  case Nil
  then show ?case by (simp add: wrote_def lost_def)
next
  case (Cons bo ops)
  let ?r = "concat (map (wr_held copied) ops)"
  show ?case
  proof (cases "published bo")
    case True
    then have h: "wr_held copied bo = [(bo_grain bo, bo_clen bo, take (bo_clen bo) (bo_cslot bo))]"
      by (simp add: published_def wr_held_def copied_def)
    have rd: "wr_ready bo" "bo_blk bo < g_nblocks en" using Cons.prems(3) [of bo] True by (auto simp: published_def)
    let ?w = "wr_publish en bo w" and ?A = "upd A (bo_blk bo) (bo_page bo)"
    have "ok A ([] @ (bo_grain bo, bo_clen bo, take (bo_clen bo) (bo_cslot bo)) # (?r @ R)) w"
      using Cons.prems(2) h by simp
    from wr_publish_ok [OF this Cons.prems(1) rd(2)] rd(1)
    have "ok ?A (?r @ R) ?w" by (simp add: wr_ready_def)
    from Cons.IH [OF stab_upd [OF Cons.prems(1)] this] Cons.prems(3) True show ?thesis
      by (auto simp: map_state_Cons publish_write_eq [of bo] wrote_def lost_def simp del: map_state.simps(2))
  next
    case False
    have f: "ok A ((?r @ wr_held (\<lambda>_. []) bo @ R)) w"
    proof -
      have "ok A (wr_held copied bo @ ?r @ R) w" using Cons.prems(2) by simp
      then have "ok A (wr_held (\<lambda>_. []) bo @ ?r @ R) w"
        using st_ok_forget [where L = "[]", of en mem foreign A "bo_grain bo" "bo_clen bo" "copied bo" "?r @ R" w]
          wr_held_cases [of bo] by auto
      then show ?thesis by (rule st_ok_swap)
    qed
    from Cons.IH [OF Cons.prems(1) f] Cons.prems(3) have IH:
      "fst (map_state (publish_write en) ops w) = ops"
      "ok (wrote ops A) (lost ops @ wr_held (\<lambda>_. []) bo @ R) (snd (map_state (publish_write en) ops w))"
      "stab None (wrote ops A)"
      by auto
    have "ok (wrote ops A) (wr_held (\<lambda>_. []) bo @ lost ops @ R) (snd (map_state (publish_write en) ops w))"
      by (rule st_ok_swap [OF IH(2)])
    with IH False show ?thesis
      by (auto simp: map_state_Cons publish_write_eq [of bo] wrote_def lost_def simp del: map_state.simps(2))
  qed
qed

section \<open>The whole set\<close>

lemma do_blocks_ok:
  assumes st: "stab None A" and ok: "ok A (concat (map (wr_held (\<lambda>_. [])) ops) @ R) w"
    and ops: "\<And>bo. bo \<in> set ops \<Longrightarrow> op_start A bo w"
    and d: "do_blocks en ops w = (ops', w')"
  shows "ok (wrote ops' A) (lost ops' @ R) w'" "stab None (wrote ops' A)" "list_all2 op_kept ops ops'" "ops_done A ops'"
proof -
  obtain ops1 q w1 where i: "map_state (issue_copy en) ops (0, w) = (ops1, q, w1)" by (metis prod_cases3)
  define w2 where "w2 = (if q \<noteq> 0 then sync en None w1 else w1)"
  obtain ops3 w3 where r: "read_rounds en 4 ops1 w2 = (ops3, w3)" by fastforce
  obtain ops4 w4 where l: "map_state (read_locked en) ops3 w3 = (ops4, w4)" by fastforce
  have eq: "do_blocks en ops w = map_state (publish_write en) ops4 w4"
    using r l by (cases "q = 0") (simp_all add: do_blocks_def i w2_def)
  have blk: "bo_blk bo < g_nblocks en" if "bo \<in> set ops" for bo using ops [OF that] by (simp add: op_start_def)
  have p1: "phase_post A R w ops ops1 w1" by (rule issue_phase [OF ok st ops i])
  have p2: "phase_post A R w ops ops1 w2"
    unfolding w2_def by (rule phase_world [OF p1]) (use p1 sync_opt [OF _ st] in blast)+
  note o2 = phase_ops [OF conjunct2 [OF conjunct2 [OF p2]] blk]
  have p3: "phase_post A R w2 ops1 ops3 w3" by (rule read_rounds_ok [OF st _ o2 r]) (use p2 in blast)+
  have p: "phase_post A R w ops ops3 w3" by (rule phase_trans [OF p2 p3])
  note o3 = phase_ops [OF conjunct2 [OF conjunct2 [OF p]] blk]
  have p4: "ok A (concat (map (wr_held copied) ops4) @ R) w4" "list_all2 op_kept ops3 ops4" "ops_done A ops4"
    using locked_phase [OF st _ o3 l] p by blast+
  have k3: "list_all2 op_kept ops ops3" by (rule list_all2_mono [OF conjunct2 [OF conjunct2 [OF p]]]) simp
  have k: "list_all2 op_kept ops ops4" by (rule list_all2_trans [OF _ k3 p4(2)]) (rule op_kept_trans)
  have o4: "bo_blk bo < g_nblocks en \<and> (bo_cmd bo = NBD_CMD_WRITE \<longrightarrow> bo_grain bo \<noteq> SLOT_NONE \<longrightarrow> wr_ready bo)"
    if bo: "bo \<in> set ops4" for bo
  proof -
    obtain bo0 where "bo0 \<in> set ops" "op_kept bo0 bo"
      by (rule list_all2_right [OF k bo])
    with ops [OF this(1)] show ?thesis by (auto simp: op_start_def op_kept_def wr_ready_def)
  qed
  have e: "map_state (publish_write en) ops4 w4 = (ops', w')" using eq d by simp
  from publish_phase [OF st p4(1) o4] k p4(3)
  show "ok (wrote ops' A) (lost ops' @ R) w'" "stab None (wrote ops' A)" "list_all2 op_kept ops ops'" "ops_done A ops'"
    by (auto simp: e)
qed

end

end
