(* ===== verification/Store_Range.thy ===== *)
theory Store_Range
  imports Store_Batch
begin

text \<open>
  Runs of whole blocks and byte ranges: what @load_blocks@, @store_blocks@, @load_range@,
  @store_range@ and @trim_range@ return and do to the blocks, with the other workers running.
\<close>

section \<open>Pages of a buffer\<close>

definition page_of :: "byte list \<Rightarrow> nat \<Rightarrow> byte list" where
  "page_of bs i = take CBLK_SIZE (drop (i * CBLK_SIZE) bs)"

lemma page_of_append:
  assumes "length xs = n * CBLK_SIZE"
  shows "page_of (xs @ ys) i = (if i < n then page_of xs i else page_of ys (i - n))"
proof (cases "i < n")
  case True
  then have "(i + 1) * 4096 \<le> n * 4096" by (intro mult_le_mono1) simp
  with assms True show ?thesis by (simp add: page_of_def)
next
  case False
  then have "i * 4096 - n * 4096 = (i - n) * 4096" by (simp add: diff_mult_distrib)
  moreover from False have "n * 4096 \<le> i * 4096" by (intro mult_le_mono1) simp
  ultimately show ?thesis using assms False by (simp add: page_of_def)
qed

lemma page_of_concat:
  assumes "\<forall>p \<in> set ps. length p = CBLK_SIZE" "i < length ps"
  shows "page_of (concat ps) i = ps ! i"
  using assms
proof (induction ps arbitrary: i)
  case (Cons p ps)
  then show ?case using page_of_append [of p 1 "concat ps" i]
    by (cases i) (auto simp: page_of_def)
qed simp

lemma length_concat_pages: "\<forall>p \<in> set ps. length p = CBLK_SIZE \<Longrightarrow> length (concat ps) = length ps * CBLK_SIZE"
  by (induction ps) auto

lemma page_of_drop: "page_of (drop (n * CBLK_SIZE) bs) i = page_of bs (n + i)"
  by (simp add: page_of_def add.commute algebra_simps)

lemma length_page_of: "(i + 1) * CBLK_SIZE \<le> length bs \<Longrightarrow> length (page_of bs i) = CBLK_SIZE"
  by (simp add: page_of_def)

text \<open>Every byte of a buffer read at offset @off@ is a byte its block may have there.\<close>

definition reads :: "(nat \<Rightarrow> byte list set) \<Rightarrow> nat \<Rightarrow> byte list \<Rightarrow> bool" where
  "reads A off bs \<longleftrightarrow> (\<forall>i < length bs. \<exists>p \<in> A ((off + i) div CBLK_SIZE). bs ! i = p ! ((off + i) mod CBLK_SIZE))"

lemma reads_Nil [simp]: "reads A off []"
  by (simp add: reads_def)

lemma reads_append: "reads A off xs \<Longrightarrow> reads A (off + length xs) ys \<Longrightarrow> reads A off (xs @ ys)"
proof -
  assume x: "reads A off xs" and y: "reads A (off + length xs) ys"
  have "\<exists>p \<in> A ((off + i) div CBLK_SIZE). (xs @ ys) ! i = p ! ((off + i) mod CBLK_SIZE)" if "i < length (xs @ ys)" for i
  proof (cases "i < length xs")
    case True
    then show ?thesis using x by (simp add: reads_def nth_append)
  next
    case False
    then have "i - length xs < length ys" using that by simp
    with y [unfolded reads_def] False show ?thesis by (fastforce simp: nth_append)
  qed
  then show ?thesis by (simp add: reads_def)
qed

lemma reads_slice: "reads A off bs \<Longrightarrow> reads A (off + k) (take m (drop k bs))"
  by (auto simp: reads_def add.assoc)

lemma reads_pages:
  assumes "length bs = n * CBLK_SIZE" "\<forall>i < n. page_of bs i \<in> A (blk + i)"
  shows "reads A (blk * CBLK_SIZE) bs"
  unfolding reads_def
proof (intro allI impI)
  fix i assume i: "i < length bs"
  let ?k = "i div CBLK_SIZE"
  have k: "?k < n" using i assms(1) by (simp add: less_mult_imp_div_less)
  have ik: "?k * CBLK_SIZE + i mod CBLK_SIZE = i" by simp
  have "bs ! i = page_of bs ?k ! (i mod CBLK_SIZE)"
    unfolding page_of_def using i ik by (simp add: nth_take)
  moreover have "(blk * CBLK_SIZE + i) div CBLK_SIZE = blk + ?k" "(blk * CBLK_SIZE + i) mod CBLK_SIZE = i mod CBLK_SIZE"
    by simp_all
  ultimately show "\<exists>p \<in> A ((blk * CBLK_SIZE + i) div CBLK_SIZE). bs ! i = p ! ((blk * CBLK_SIZE + i) mod CBLK_SIZE)"
    using assms(2) k by metis
qed

text \<open>The error a run reports, over the errors of its operations.\<close>

definition run_err :: "nat list \<Rightarrow> nat \<Rightarrow> nat" where
  "run_err es err = fold (\<lambda>x e. note_err e x) es err"

lemma run_err_map: "fold (\<lambda>bo e. note_err e (bo_err bo)) ops err = run_err (map bo_err ops) err"
  unfolding run_err_def fold_map comp_def ..

lemma run_err_simps [simp]: "run_err [] err = err" "run_err (x # es) err = run_err es (note_err err x)"
  by (simp_all add: run_err_def)

lemma run_err_from_EIO: "run_err es EIO = EIO"
  by (induction es) (simp_all add: note_err_def)

lemma run_err_EIO: "EIO \<in> set es \<Longrightarrow> run_err es err = EIO"
proof (induction es arbitrary: err)
  case (Cons x es)
  then show ?case by (cases "x = EIO") (simp_all add: run_err_from_EIO note_err_def)
qed simp

lemma run_err_zero: "run_err es err = 0 \<longleftrightarrow> err = 0 \<and> set es \<subseteq> {0}"
  by (induction es arbitrary: err) (auto simp: note_err_def)

lemma run_err_same: "set es \<subseteq> {0} \<Longrightarrow> run_err es err = err"
  by (induction es arbitrary: err) (auto simp: note_err_def)

lemma run_err_in: "run_err es err = err \<or> run_err es err \<in> set es - {0}"
proof (induction es arbitrary: err)
  case (Cons x es)
  from Cons [of "note_err err x"] show ?case by (auto simp: note_err_def split: if_splits)
qed simp

text \<open>The parts of a range add up.\<close>

lemma range_parts:
  "head_cnt off n \<le> n" "off mod CBLK_SIZE + head_cnt off n \<le> CBLK_SIZE"
  "head_cnt off n + mid_cnt off n * CBLK_SIZE + tail_cnt off n = n" "tail_cnt off n < CBLK_SIZE"
  "(n - head_cnt off n \<ge> CBLK_SIZE) = (mid_cnt off n \<noteq> 0)"
proof -
  let ?n = "n - head_cnt off n"
  show h: "head_cnt off n \<le> n" by (simp add: head_cnt_def Let_def)
  have "off mod 4096 < 4096" by simp
  then show "off mod CBLK_SIZE + head_cnt off n \<le> CBLK_SIZE" by (auto simp: head_cnt_def Let_def)
  have "mid_cnt off n * 4096 + tail_cnt off n = ?n" by (simp add: tail_cnt_def mid_cnt_def)
  with h show "head_cnt off n + mid_cnt off n * CBLK_SIZE + tail_cnt off n = n" by simp
  show "tail_cnt off n < CBLK_SIZE"
    unfolding tail_cnt_def mid_cnt_def using mod_less_divisor [of 4096 ?n] by (simp add: minus_div_mult_eq_mod)
  show "(n - head_cnt off n \<ge> CBLK_SIZE) = (mid_cnt off n \<noteq> 0)" by (simp add: mid_cnt_def div_greater_zero_iff)
qed

text \<open>What follows the head starts on a block boundary.\<close>

lemma range_aligned:
  assumes "head_cnt off n < n"
  shows "(off + head_cnt off n) div CBLK_SIZE * CBLK_SIZE = off + head_cnt off n"
proof (cases "off mod CBLK_SIZE = 0")
  case True
  then show ?thesis using div_mult_mod_eq [of off 4096] by (simp add: head_cnt_def)
next
  case False
  then have "head_cnt off n = CBLK_SIZE - off mod CBLK_SIZE" using assms by (auto simp: head_cnt_def Let_def split: if_splits)
  moreover have "off mod 4096 < 4096" by simp
  ultimately have "off + head_cnt off n = (off div CBLK_SIZE + 1) * CBLK_SIZE"
    using div_mult_mod_eq [of off 4096] unfolding CBLK_SIZE_val add_mult_distrib by linarith
  then show ?thesis by (metis nonzero_mult_div_cancel_right CBLK_SIZE_val zero_neq_numeral)
qed

lemma range_bounds:
  assumes "off + n \<le> nblk * CBLK_SIZE" "off + n < 2 ^ 64"
  shows "off_mid off n = off + head_cnt off n" "off_tail off n = off + head_cnt off n + mid_cnt off n * CBLK_SIZE"
    "off mod CBLK_SIZE \<noteq> 0 \<longrightarrow> off div CBLK_SIZE + 1 \<le> nblk"
    "mid_cnt off n \<noteq> 0 \<longrightarrow> off_mid off n div CBLK_SIZE + mid_cnt off n \<le> nblk"
    "tail_cnt off n \<noteq> 0 \<longrightarrow> off_tail off n div CBLK_SIZE + 1 \<le> nblk"
    "mid_cnt off n \<noteq> 0 \<or> tail_cnt off n \<noteq> 0 \<Longrightarrow> off_mid off n div CBLK_SIZE * CBLK_SIZE = off_mid off n"
    "tail_cnt off n \<noteq> 0 \<Longrightarrow> off_tail off n div CBLK_SIZE * CBLK_SIZE = off_tail off n"
proof -
  let ?h = "head_cnt off n" and ?m = "mid_cnt off n" and ?t = "tail_cnt off n"
  note p = range_parts [where off = off and n = n]
  show mid: "off_mid off n = off + ?h" using p(1) assms(2) by (simp add: off_mid_def u64_small)
  show tail: "off_tail off n = off + ?h + ?m * CBLK_SIZE"
    unfolding off_tail_def mid using p(3) assms(2) by (simp add: u64_small)
  show "off mod CBLK_SIZE \<noteq> 0 \<longrightarrow> off div CBLK_SIZE + 1 \<le> nblk"
  proof
    assume "off mod CBLK_SIZE \<noteq> 0"
    then have "off \<noteq> nblk * 4096" by auto
    then show "off div CBLK_SIZE + 1 \<le> nblk" using assms(1) less_mult_imp_div_less [of off nblk 4096] by simp
  qed
  have al: "off_mid off n div CBLK_SIZE * CBLK_SIZE = off_mid off n" if "?m \<noteq> 0 \<or> ?t \<noteq> 0"
    unfolding mid using range_aligned [of off n] that p(1,3) by auto
  then show "?m \<noteq> 0 \<or> ?t \<noteq> 0 \<Longrightarrow> off_mid off n div CBLK_SIZE * CBLK_SIZE = off_mid off n" .
  have tq: "off_tail off n = (off_mid off n div CBLK_SIZE + ?m) * CBLK_SIZE" if "?t \<noteq> 0"
    using al that unfolding tail mid by (simp add: add_mult_distrib)
  then show "?t \<noteq> 0 \<Longrightarrow> off_tail off n div CBLK_SIZE * CBLK_SIZE = off_tail off n" by simp
  show "?m \<noteq> 0 \<longrightarrow> off_mid off n div CBLK_SIZE + ?m \<le> nblk"
  proof
    assume m: "?m \<noteq> 0"
    have "(off_mid off n div CBLK_SIZE + ?m) * CBLK_SIZE \<le> nblk * CBLK_SIZE"
      using al m p(3) assms(1) mid by (simp add: add_mult_distrib)
    then show "off_mid off n div CBLK_SIZE + ?m \<le> nblk" by simp
  qed
  show "?t \<noteq> 0 \<longrightarrow> off_tail off n div CBLK_SIZE + 1 \<le> nblk"
  proof
    assume t: "?t \<noteq> 0"
    have "off_tail off n < nblk * 4096" using t tail p(3) assms(1) by simp
    then show "off_tail off n div CBLK_SIZE + 1 \<le> nblk" using less_mult_imp_div_less [of "off_tail off n" nblk 4096] by simp
  qed
qed

text \<open>The page of block @b@ after the bytes of @src@ were written at offset @off@.\<close>

definition patch :: "nat \<Rightarrow> byte list \<Rightarrow> (nat \<Rightarrow> byte list) \<Rightarrow> nat \<Rightarrow> byte list" where
  "patch off src D b =
     map (\<lambda>j. let x = b * CBLK_SIZE + j in if off \<le> x \<and> x < off + length src then src ! (x - off) else D b ! j) [0..<CBLK_SIZE]"

lemma length_patch [simp]: "length (patch off src D b) = CBLK_SIZE"
  by (simp add: patch_def)

lemma patch_nth:
  "j < CBLK_SIZE \<Longrightarrow> patch off src D b ! j =
     (if off \<le> b * CBLK_SIZE + j \<and> b * CBLK_SIZE + j < off + length src then src ! (b * CBLK_SIZE + j - off) else D b ! j)"
  by (simp add: patch_def Let_def)

lemma overlay_nth:
  assumes "boff + length bs \<le> length page" "j < length page"
  shows "overlay page boff bs ! j = (if boff \<le> j \<and> j < boff + length bs then bs ! (j - boff) else page ! j)"
  using assms by (auto simp: overlay_def nth_append)

lemma patch_overlay:
  assumes "length (D b) = CBLK_SIZE" "boff + cnt \<le> CBLK_SIZE" "k + cnt \<le> length src"
    and "off + k = b * CBLK_SIZE + boff" "boff + cnt < CBLK_SIZE \<Longrightarrow> k + cnt = length src" "boff \<noteq> 0 \<Longrightarrow> k = 0"
  shows "overlay (D b) boff (take cnt (drop k src)) = patch off src D b"
proof (rule nth_equalityI)
  show "length (overlay (D b) boff (take cnt (drop k src))) = length (patch off src D b)"
    using assms(1-3) by (simp add: overlay_def)
  fix j assume "j < length (overlay (D b) boff (take cnt (drop k src)))"
  then have j: "j < CBLK_SIZE" using assms(1-3) by (simp add: overlay_def)
  have len: "length (take cnt (drop k src)) = cnt" using assms(3) by simp
  have l: "overlay (D b) boff (take cnt (drop k src)) ! j = (if boff \<le> j \<and> j < boff + cnt then src ! (k + (j - boff)) else D b ! j)"
    using overlay_nth [of boff "take cnt (drop k src)" "D b" j] assms(1-3) j len by (auto simp: add.commute)
  have "(off \<le> b * CBLK_SIZE + j \<and> b * CBLK_SIZE + j < off + length src) \<longleftrightarrow> (boff \<le> j \<and> j < boff + cnt)"
    using assms(2-6) j by (cases "boff = 0"; cases "boff + cnt < CBLK_SIZE") auto
  moreover have "b * CBLK_SIZE + j - off = k + (j - boff)" if "boff \<le> j" using assms(4) that by linarith
  ultimately show "overlay (D b) boff (take cnt (drop k src)) ! j = patch off src D b ! j"
    unfolding l patch_nth [OF j] by auto
qed

lemma patch_page:
  assumes "off + k = q * CBLK_SIZE" "k + (i + 1) * CBLK_SIZE \<le> length src"
  shows "page_of (drop k src) i = patch off src D (q + i)"
proof (rule nth_equalityI)
  show "length (page_of (drop k src) i) = length (patch off src D (q + i))"
    using assms(2) length_page_of [of i "drop k src"] by simp
  fix j assume "j < length (page_of (drop k src) i)"
  then have j: "j < CBLK_SIZE" by (simp add: page_of_def)
  have x: "off \<le> (q + i) * CBLK_SIZE + j" "(q + i) * CBLK_SIZE + j < off + length src"
      "(q + i) * CBLK_SIZE + j - off = k + (i * CBLK_SIZE + j)"
    using assms j by (simp_all add: add_mult_distrib)
  have "page_of (drop k src) i ! j = src ! (k + (i * CBLK_SIZE + j))"
    using assms(2) j by (simp add: page_of_def ac_simps)
  with x show "page_of (drop k src) i ! j = patch off src D (q + i) ! j" unfolding patch_nth [OF j] by simp
qed

lemma patch_outside:
  assumes "length (D b) = CBLK_SIZE" "\<And>x. off \<le> x \<Longrightarrow> x < off + length src \<Longrightarrow> x div CBLK_SIZE \<noteq> b"
  shows "patch off src D b = D b"
proof (rule nth_equalityI)
  fix j assume "j < length (patch off src D b)"
  then have j: "j < CBLK_SIZE" by simp
  then have "(b * CBLK_SIZE + j) div CBLK_SIZE = b" by simp
  with assms(2) [of "b * CBLK_SIZE + j"] show "patch off src D b ! j = D b ! j" unfolding patch_nth [OF j] by auto
qed (simp add: assms(1))

text \<open>Which blocks the three parts of a range touch.\<close>

lemma part_blocks:
  assumes "off + n \<le> nblk * CBLK_SIZE" "off + n < 2 ^ 64" "off \<le> x" "x < off + n"
  shows "off mod CBLK_SIZE \<noteq> 0 \<and> x div CBLK_SIZE = off div CBLK_SIZE \<or>
    mid_cnt off n \<noteq> 0 \<and> off_mid off n div CBLK_SIZE \<le> x div CBLK_SIZE \<and>
      x div CBLK_SIZE < off_mid off n div CBLK_SIZE + mid_cnt off n \<or>
    tail_cnt off n \<noteq> 0 \<and> x div CBLK_SIZE = off_tail off n div CBLK_SIZE"
proof -
  let ?h = "head_cnt off n" and ?m = "mid_cnt off n" and ?t = "tail_cnt off n"
  note p = range_parts [where off = off and n = n] and b = range_bounds [OF assms(1,2)]
  consider "x < off + ?h" | "off + ?h \<le> x" "x < off + ?h + ?m * CBLK_SIZE" | "off + ?h + ?m * CBLK_SIZE \<le> x" by linarith
  then show ?thesis
  proof cases
    case 1
    then have "off mod CBLK_SIZE \<noteq> 0" using assms(3) by (auto simp: head_cnt_def split: if_splits)
    moreover have "x div CBLK_SIZE = off div CBLK_SIZE"
    proof (rule div_nat_eqI)
      have d: "off = CBLK_SIZE * (off div CBLK_SIZE) + off mod CBLK_SIZE" by (rule mult_div_mod_eq [symmetric])
      show "CBLK_SIZE * (off div CBLK_SIZE) \<le> x" using d assms(3) by linarith
      show "x < CBLK_SIZE * Suc (off div CBLK_SIZE)" unfolding mult_Suc_right using d 1 p(2) by linarith
    qed
    ultimately show ?thesis by simp
  next
    case 2
    then have m: "?m \<noteq> 0" by auto
    let ?q = "off_mid off n div CBLK_SIZE"
    have q: "?q * CBLK_SIZE = off + ?h" using b(1,6) m by simp
    have "?q \<le> x div CBLK_SIZE" using 2(1) q by (simp add: less_eq_div_iff_mult_less_eq)
    moreover have "x < (?q + ?m) * CBLK_SIZE" using 2(2) q by (simp add: add_mult_distrib)
    then have "x div CBLK_SIZE < ?q + ?m" by (simp add: less_mult_imp_div_less)
    ultimately show ?thesis using m by simp
  next
    case 3
    then have t: "?t \<noteq> 0" using p(3) assms(4) by auto
    have "x div CBLK_SIZE = off_tail off n div CBLK_SIZE"
      by (rule div_nat_eqI) (use 3 t b(2,7) p(3,4) assms(4) in \<open>simp_all\<close>)
    with t show ?thesis by simp
  qed
qed

lemma parts_apart:
  assumes "off + n \<le> nblk * CBLK_SIZE" "off + n < 2 ^ 64"
  shows "off mod CBLK_SIZE \<noteq> 0 \<Longrightarrow> mid_cnt off n \<noteq> 0 \<or> tail_cnt off n \<noteq> 0 \<Longrightarrow>
      off div CBLK_SIZE < off_mid off n div CBLK_SIZE"
    "tail_cnt off n \<noteq> 0 \<Longrightarrow> off_tail off n div CBLK_SIZE = off_mid off n div CBLK_SIZE + mid_cnt off n"
proof -
  note b = range_bounds [OF assms]
  show "off_tail off n div CBLK_SIZE = off_mid off n div CBLK_SIZE + mid_cnt off n"
    using b(1,2) by simp
  assume m: "off mod CBLK_SIZE \<noteq> 0" "mid_cnt off n \<noteq> 0 \<or> tail_cnt off n \<noteq> 0"
  have "off div CBLK_SIZE * CBLK_SIZE < off_mid off n div CBLK_SIZE * CBLK_SIZE"
    using b(1,6) m div_mult_mod_eq [of off CBLK_SIZE] by linarith
  then show "off div CBLK_SIZE < off_mid off n div CBLK_SIZE" by simp
qed

lemma mid_owned:
  assumes "off + n \<le> nblk * CBLK_SIZE" "off + n < 2 ^ 64" "\<And>x. off \<le> x \<Longrightarrow> x < off + n \<Longrightarrow> x div CBLK_SIZE \<in> B"
    and "mid_cnt off n \<noteq> 0"
  shows "{off_mid off n div CBLK_SIZE..<off_mid off n div CBLK_SIZE + mid_cnt off n} \<subseteq> B"
proof
  fix b assume b: "b \<in> {off_mid off n div CBLK_SIZE..<off_mid off n div CBLK_SIZE + mid_cnt off n}"
  note bd = range_bounds [OF assms(1,2)] and p = range_parts [where off = off and n = n]
  have q: "off_mid off n div CBLK_SIZE * CBLK_SIZE = off + head_cnt off n" using bd(1,6) assms(4) by simp
  from b have "off_mid off n div CBLK_SIZE * CBLK_SIZE \<le> b * CBLK_SIZE"
      "(b + 1) * CBLK_SIZE \<le> (off_mid off n div CBLK_SIZE + mid_cnt off n) * CBLK_SIZE"
    by (intro mult_le_mono1; simp)+
  with q p(3) have "off \<le> b * CBLK_SIZE" "b * CBLK_SIZE < off + n" by (simp_all add: add_mult_distrib)
  from assms(3) [OF this] show "b \<in> B" by simp
qed

text \<open>What each part writes is the patch of its block, and a block of no part is not patched.\<close>

lemma part_patches:
  assumes "off + length src \<le> nblk * CBLK_SIZE" "off + length src < 2 ^ 64"
  shows "off mod CBLK_SIZE \<noteq> 0 \<Longrightarrow> length (D (off div CBLK_SIZE)) = CBLK_SIZE \<Longrightarrow>
      overlay (D (off div CBLK_SIZE)) (off mod CBLK_SIZE) (take (head_cnt off (length src)) src) =
      patch off src D (off div CBLK_SIZE)"
    "i < mid_cnt off (length src) \<Longrightarrow> page_of (drop (head_cnt off (length src)) src) i =
      patch off src D (off_mid off (length src) div CBLK_SIZE + i)"
    "tail_cnt off (length src) \<noteq> 0 \<Longrightarrow> length (D (off_tail off (length src) div CBLK_SIZE)) = CBLK_SIZE \<Longrightarrow>
      overlay (D (off_tail off (length src) div CBLK_SIZE)) 0
        (take (tail_cnt off (length src)) (drop (mid_cnt off (length src) * CBLK_SIZE) (drop (head_cnt off (length src)) src))) =
      patch off src D (off_tail off (length src) div CBLK_SIZE)"
proof -
  let ?n = "length src"
  note bd = range_bounds [OF assms] and p = range_parts [where off = off and n = "length src"]
  show "overlay (D (off div CBLK_SIZE)) (off mod CBLK_SIZE) (take (head_cnt off ?n) src) = patch off src D (off div CBLK_SIZE)"
    if "off mod CBLK_SIZE \<noteq> 0" "length (D (off div CBLK_SIZE)) = CBLK_SIZE"
  proof -
    have "off mod CBLK_SIZE + head_cnt off ?n < CBLK_SIZE \<Longrightarrow> head_cnt off ?n = ?n"
      using that(1) by (auto simp: head_cnt_def Let_def split: if_splits)
    then show ?thesis
      using patch_overlay [of D "off div CBLK_SIZE" "off mod CBLK_SIZE" "head_cnt off ?n" 0 src off] that p(1,2) by simp
  qed
  show "page_of (drop (head_cnt off ?n) src) i = patch off src D (off_mid off ?n div CBLK_SIZE + i)"
    if i: "i < mid_cnt off ?n"
  proof (rule patch_page)
    show "off + head_cnt off ?n = off_mid off ?n div CBLK_SIZE * CBLK_SIZE" using bd(1,6) i by simp
    have "(i + 1) * CBLK_SIZE \<le> mid_cnt off ?n * CBLK_SIZE" using i by (intro mult_le_mono1) simp
    with p(3) show "head_cnt off ?n + (i + 1) * CBLK_SIZE \<le> length src" by linarith
  qed
  show "overlay (D (off_tail off ?n div CBLK_SIZE)) 0
      (take (tail_cnt off ?n) (drop (mid_cnt off ?n * CBLK_SIZE) (drop (head_cnt off ?n) src))) =
      patch off src D (off_tail off ?n div CBLK_SIZE)"
    if "tail_cnt off ?n \<noteq> 0" "length (D (off_tail off ?n div CBLK_SIZE)) = CBLK_SIZE"
    using patch_overlay [of D "off_tail off ?n div CBLK_SIZE" 0 "tail_cnt off ?n"
        "mid_cnt off ?n * CBLK_SIZE + head_cnt off ?n" src off] that p(3,4) bd(2,7) by simp
qed

lemma part_outside:
  assumes "off + length src \<le> nblk * CBLK_SIZE" "off + length src < 2 ^ 64" "length (D b) = CBLK_SIZE"
    and "\<not> (off mod CBLK_SIZE \<noteq> 0 \<and> b = off div CBLK_SIZE)"
    and "\<not> (off_mid off (length src) div CBLK_SIZE \<le> b \<and> b - off_mid off (length src) div CBLK_SIZE < mid_cnt off (length src))"
    and "\<not> (tail_cnt off (length src) \<noteq> 0 \<and> b = off_tail off (length src) div CBLK_SIZE)"
  shows "patch off src D b = D b"
proof (rule patch_outside)
  show "x div CBLK_SIZE \<noteq> b" if "off \<le> x" "x < off + length src" for x
    using part_blocks [OF assms(1,2) that] assms(4-6) by (auto simp: less_diff_conv2 add.commute)
qed (rule assms(3))

text \<open>
  Three updates of an image one after the other, each of which may have failed: a head block, a
  run of blocks and a tail block, all different. Every page ends up as it was or patched, and
  patched if all three succeeded.
\<close>

lemma parts_merge:
  fixes bh qm qt m :: nat
  assumes va: "va = D bh \<or> H \<and> va = hp" and za: "za \<longrightarrow> H \<longrightarrow> va = hp"
    and S: "S \<subseteq> {..<m}" and zb: "zb \<longrightarrow> S = {..<m}"
    and vb: "vb = E qt \<or> T \<and> vb = ov (E qt)" and zc: "zc \<longrightarrow> T \<longrightarrow> vb = ov (E qt)"
    and E: "E = (\<lambda>b. if qm \<le> b \<and> b - qm \<in> S then pg (b - qm) else (D(bh := va)) b)"
    and pH: "H \<longrightarrow> hp = P bh" and pM: "\<And>i. i < m \<Longrightarrow> pg i = P (qm + i)" and pT: "T \<longrightarrow> ov (D qt) = P qt"
    and HM: "H \<and> (m \<noteq> 0 \<or> T) \<longrightarrow> bh < qm" and MT: "T \<longrightarrow> qt = qm + m"
    and out: "\<not> (H \<and> b = bh) \<Longrightarrow> \<not> (qm \<le> b \<and> b - qm < m) \<Longrightarrow> \<not> (T \<and> b = qt) \<Longrightarrow> P b = D b"
  shows "((E(qt := vb)) b = D b \<or> (E(qt := vb)) b = P b) \<and> (za \<and> zb \<and> zc \<longrightarrow> (E(qt := vb)) b = P b)"
proof -
  have Ev: "E x = (if qm \<le> x \<and> x - qm \<in> S then P x else if H \<and> x = bh then va else D x)" for x
    using S pM [of "x - qm"] va by (auto simp: E)
  have Eq: "T \<Longrightarrow> E qt = D qt" using MT HM S Ev [of qt] by auto
  show ?thesis
  proof (cases "T \<and> b = qt")
    case True
    then show ?thesis using vb zc Eq pT by auto
  next
    case False
    then have b: "(E(qt := vb)) b = E b" using vb by auto
    show ?thesis
    proof (cases "qm \<le> b \<and> b - qm \<in> S")
      case True
      then show ?thesis unfolding b Ev by simp
    next
      case notS: False
      show ?thesis
      proof (cases "H \<and> b = bh")
        case True
        then show ?thesis unfolding b Ev using notS va za pH by auto
      next
        case notH: False
        have "zb \<Longrightarrow> P b = D b" using out notH False notS zb by auto
        then show ?thesis unfolding b Ev using notS notH by auto
      qed
    qed
  qed
qed

context shared_store
begin

section \<open>Reading whole blocks\<close>

lemma rd_window:
  assumes ok: "ok A R w" and st: "stab None A" and n: "blk + n \<le> g_nblocks en"
    and pr: "map_state (rd_prepare en) (map (\<lambda>i. blkop_set (blk + i) NBD_CMD_READ [] 0) [0..<n]) w = (ops1, w1)"
    and d: "do_blocks en ops1 w1 = (ops2, w2)"
  shows "ok A R w2" "length ops2 = n"
    "\<And>i. i < n \<Longrightarrow> bo_blk (ops2 ! i) = blk + i \<and> (if bo_err (ops2 ! i) = 0 then rd_done A (ops2 ! i) else \<not> faultless en)"
proof -
  let ?ops = "map (\<lambda>i. blkop_set (blk + i) NBD_CMD_READ [] 0) [0..<n]"
  let ?I = "\<lambda>(L :: hold list) s. ok A R s" and ?P = "\<lambda>bo (s :: 'd world). bo_blk bo < g_nblocks en \<and> bo_cmd bo = NBD_CMD_READ \<and> bo_err bo = 0"
  let ?Q = "\<lambda>bo bo' s. op_start A bo' s \<and> bo_blk bo' = bo_blk bo \<and> bo_cmd bo' = NBD_CMD_READ \<and> bo_err bo' = 0"
  have "?I ([] @ concat (map (\<lambda>_. []) (fst (map_state (rd_prepare en) ?ops w)))) (snd (map_state (rd_prepare en) ?ops w)) \<and>
      evolves w (snd (map_state (rd_prepare en) ?ops w)) \<and>
      list_all2 (\<lambda>bo bo'. ?Q bo bo' (snd (map_state (rd_prepare en) ?ops w))) ?ops (fst (map_state (rd_prepare en) ?ops w))"
  proof (rule map_state_phase [where P = ?P and h = "\<lambda>_. []"])
    fix bo :: blkop and L1 L2 :: "hold list" and s :: "'d world" assume I: "ok A R s" and P: "?P bo s"
    obtain bo' s' where r: "rd_prepare en bo s = (bo', s')" by fastforce
    from rd_prepare_ok [OF I st conjunct1 [OF P] r] P
    show "ok A R (snd (rd_prepare en bo s)) \<and> evolves s (snd (rd_prepare en bo s)) \<and>
        ?Q bo (fst (rd_prepare en bo s)) (snd (rd_prepare en bo s))"
      by (auto simp: r op_start_def)
  qed (use ok n op_start_mono evolves_refl evolves_trans in \<open>auto simp: blkop_set_def\<close>)
  then have p: "ok A R w1" "list_all2 (\<lambda>bo bo'. ?Q bo bo' w1) ?ops ops1" by (auto simp: pr)
  then have reads: "bo_cmd bo = NBD_CMD_READ" "op_start A bo w1" if "bo \<in> set ops1" for bo
    using that by (auto elim!: list_all2_right [OF p(2)])
  have h: "concat (map (wr_held k) ops) = []" if "\<And>bo. bo \<in> set ops \<Longrightarrow> bo_cmd bo = NBD_CMD_READ" for k ops
    using that by (simp add: wr_held_def)
  have "concat (map (wr_held (\<lambda>_. [])) ops1) = []" by (rule h) (rule reads(1))
  then have "ok A (concat (map (wr_held (\<lambda>_. [])) ops1) @ R) w1" using p(1) by (simp only: append_Nil)
  note d' = do_blocks_ok [OF st this reads(2) d]
  have len: "length ops2 = n" using d'(3) p(2) by (auto dest!: list_all2_lengthD)
  then show "length ops2 = n" .
  have reads2: "bo_cmd bo = NBD_CMD_READ" if "bo \<in> set ops2" for bo
    by (rule list_all2_right [OF d'(3) that]) (use reads(1) in \<open>auto simp: op_kept_def\<close>)
  then have np: "\<not> published bo" if "bo \<in> set ops2" for bo using that by (simp add: published_def)
  have "wrote ops2 A = A"
    unfolding wrote_def by (rule fold_invariant [where P = "\<lambda>X. X = A" and Q = "\<lambda>bo. \<not> published bo"]) (use np in auto)
  moreover have "lost ops2 = []" using reads2 by (auto simp: lost_def wr_held_def)
  ultimately show "ok A R w2" using d'(1) by simp
  fix i assume i: "i < n"
  have "op_kept (ops1 ! i) (ops2 ! i)" "?Q (?ops ! i) (ops1 ! i) w1"
    using d'(3) p(2) i len by (auto simp: list_all2_conv_all_nth)
  then have "bo_blk (ops2 ! i) = blk + i" "bo_err (ops2 ! i) = 0 \<or> \<not> faultless en"
    using i by (auto simp: op_kept_def blkop_set_def)
  moreover have "bo_err (ops2 ! i) = 0 \<longrightarrow> rd_done A (ops2 ! i)"
    using d'(4) reads2 i len by (auto simp: ops_done_def)
  ultimately show "bo_blk (ops2 ! i) = blk + i \<and> (if bo_err (ops2 ! i) = 0 then rd_done A (ops2 ! i) else \<not> faultless en)"
    by auto
qed

text \<open>The pages of one window followed by those of the rest.\<close>

lemma pages_append:
  assumes ps: "\<forall>p \<in> set ps. length p = CBLK_SIZE" "length ps = n" "\<forall>i < n. ps ! i \<in> A (blk + i)"
    and rest: "\<forall>i < m - n. page_of rest i \<in> A (blk + n + i)" and i: "i < m"
  shows "page_of (concat ps @ rest) i \<in> A (blk + i)"
proof (cases "i < n")
  case True
  then show ?thesis using ps page_of_concat [OF ps(1), of i] length_concat_pages [OF ps(1)] by (simp add: page_of_append [where n = n])
next
  case False
  with i have "i - n < m - n" by linarith
  with rest have "page_of rest (i - n) \<in> A (blk + n + (i - n))" by blast
  then show ?thesis using False ps(2) length_concat_pages [OF ps(1)] by (simp add: page_of_append [where n = n])
qed

lemma load_blocks_ok:
  assumes "ok A R w" "stab None A" "blk + nblocks \<le> g_nblocks en" "load_blocks en blk nblocks w = (e, bs, w')"
  shows "ok A R w' \<and> (e = 0 \<and> length bs = nblocks * CBLK_SIZE \<and> (\<forall>i < nblocks. page_of bs i \<in> A (blk + i)) \<or>
    e = EIO \<and> \<not> faultless en)"
  using assms
proof (induction nblocks arbitrary: blk w e bs w' rule: less_induct)
  case (less nblocks)
  show ?case
  proof (cases "nblocks = 0")
    case True
    then show ?thesis using less.prems by (simp add: load_blocks.simps)
  next
    case False
    define n where "n = (if nblocks > maxops en then maxops en else nblocks)"
    have n: "0 < n" "n \<le> nblocks" using False by (auto simp: n_def)
    obtain ops1 w1 where pr: "map_state (rd_prepare en) (map (\<lambda>i. blkop_set (blk + i) NBD_CMD_READ [] 0) [0..<n]) w = (ops1, w1)"
      by fastforce
    obtain ops2 w2 where d: "do_blocks en ops1 w1 = (ops2, w2)" by fastforce
    obtain e3 rest w3 where l: "load_blocks en (blk + n) (nblocks - n) w2 = (e3, rest, w3)" by (metis prod_cases3)
    have eq: "load_blocks en blk nblocks w =
        (if \<exists>bo \<in> set ops2. bo_err bo \<noteq> 0 then (EIO, [], w2) else (e3, concat (map bo_page ops2) @ rest, w3))"
      by (subst load_blocks.simps) (simp add: False n_def [symmetric] pr d l Let_def)
    have blkn: "blk + n \<le> g_nblocks en" using less.prems(3) n(2) by simp
    note win = rd_window [OF less.prems(1,2) blkn pr d]
    show ?thesis
    proof (cases "\<exists>bo \<in> set ops2. bo_err bo \<noteq> 0")
      case True
      then obtain i where "i < n" "bo_err (ops2 ! i) \<noteq> 0" using win(2) by (auto simp: in_set_conv_nth)
      with win(3) [of i] have "\<not> faultless en" by simp
      then show ?thesis using True eq less.prems(4) win(1) by simp
    next
      case ok2: False
      then have fin: "rd_done A (ops2 ! i)" "bo_blk (ops2 ! i) = blk + i" if "i < n" for i
        using win(2,3) that by auto
      let ?ps = "map bo_page ops2"
      have ps: "\<forall>p \<in> set ?ps. length p = CBLK_SIZE" "\<forall>i < n. ?ps ! i \<in> A (blk + i)"
        using fin win(2) by (auto simp: rd_done_def in_set_conv_nth)
      have len: "length (concat ?ps) = n * CBLK_SIZE" using length_concat_pages [OF ps(1)] win(2) by simp
      have IH: "ok A R w3 \<and> (e3 = 0 \<and> length rest = (nblocks - n) * CBLK_SIZE \<and>
          (\<forall>i < nblocks - n. page_of rest i \<in> A (blk + n + i)) \<or> e3 = EIO \<and> \<not> faultless en)"
        by (rule less.IH [OF _ win(1) less.prems(2) _ l]) (use n less.prems(3) in auto)
      have "page_of (concat ?ps @ rest) i \<in> A (blk + i)" if "i < nblocks" "\<forall>i < nblocks - n. page_of rest i \<in> A (blk + n + i)" for i
        by (rule pages_append [OF ps(1) _ ps(2) that(2,1)]) (simp add: win(2))
      then show ?thesis using IH ok2 eq less.prems(4) len n(2) by (auto simp: diff_mult_distrib)
    qed
  qed
qed

section \<open>Writing whole blocks\<close>

text \<open>The assertion after the pages @S@ of a run starting at @blk@ were written.\<close>

definition ran :: "nat \<Rightarrow> byte list \<Rightarrow> nat set \<Rightarrow> (nat \<Rightarrow> byte list set) \<Rightarrow> nat \<Rightarrow> byte list set" where
  "ran blk src S A b = (if b \<in> B \<and> blk \<le> b \<and> b - blk \<in> S then {page_of src (b - blk)} else A b)"

lemma ran_insert: "ran blk src (insert n S) A = upd (ran blk src S A) (blk + n) (page_of src n)"
proof
  fix b
  have "b - blk = n \<and> blk \<le> b \<longleftrightarrow> b = blk + n" by auto
  then show "ran blk src (insert n S) A b = upd (ran blk src S A) (blk + n) (page_of src n) b"
    by (auto simp: ran_def upd_def)
qed

lemma wrote_snoc:
  "wrote (ops @ [bo]) A = (if published bo then upd (wrote ops A) (bo_blk bo) (bo_page bo) else wrote ops A)"
  by (simp add: wrote_def)

lemma wrote_run:
  assumes "\<And>i. i < length ops \<Longrightarrow> bo_blk (ops ! i) = blk + i \<and> bo_page (ops ! i) = page_of src i"
  shows "wrote ops A = ran blk src {i. i < length ops \<and> published (ops ! i)} A"
  using assms
proof (induction ops rule: rev_induct)
  case Nil
  then show ?case by (simp add: wrote_def ran_def fun_eq_iff)
next
  case (snoc bo ops)
  let ?S = "{i. i < length ops \<and> published (ops ! i)}"
  have "bo_blk ((ops @ [bo]) ! i) = blk + i \<and> bo_page ((ops @ [bo]) ! i) = page_of src i" if "i \<le> length ops" for i
    using snoc.prems [of i] that by simp
  from this [of "length ops"] have bo: "bo_blk bo = blk + length ops" "bo_page bo = page_of src (length ops)" by auto
  have "wrote ops A = ran blk src ?S A"
  proof (rule snoc.IH)
    show "bo_blk (ops ! i) = blk + i \<and> bo_page (ops ! i) = page_of src i" if "i < length ops" for i
      using snoc.prems [of i] that by (simp add: nth_append)
  qed
  moreover have "{i. i < length (ops @ [bo]) \<and> published ((ops @ [bo]) ! i)} =
      (if published bo then insert (length ops) ?S else ?S)"
    by (auto simp: nth_append less_Suc_eq)
  ultimately show ?case using bo by (simp only: wrote_snoc ran_insert if_True if_False split: if_split) simp
qed

text \<open>With room for all of them, every write of a window gets its slot.\<close>

lemma wr_prepares_room:
  assumes "ok A R w" "stab None A" "roomy (length R + length ops)"
    and "\<And>bo. bo \<in> set ops \<Longrightarrow> bo_blk bo < g_nblocks en \<and> bo_cmd bo = NBD_CMD_WRITE \<and> bo_err bo = 0 \<and>
      may_write (bo_blk bo) (bo_page bo)"
    and "bo' \<in> set (fst (map_state (wr_prepare en) ops w))"
  shows "bo_grain bo' \<noteq> SLOT_NONE"
  using assms
proof (induction ops arbitrary: R w)
  case (Cons bo ops)
  obtain bo1 w1 where r: "wr_prepare en bo w = (bo1, w1)" by fastforce
  obtain n slot where cb: "comp_block (en_lib en) (en_codec en) (en_cc en) (bo_page bo) = (n, slot)" by fastforce
  have bo: "bo_blk bo < g_nblocks en" "bo_cmd bo = NBD_CMD_WRITE" "bo_err bo = 0" "may_write (bo_blk bo) (bo_page bo)"
    using Cons.prems(4) by auto
  note c = comp_block_slot [OF cb]
  have "fst (alloc_slot en None n w) \<noteq> SLOT_NONE"
    by (rule alloc_slot_room [OF Cons.prems(1,2) _ _ Cons.prems(3)]) (use c bo(4) in \<open>auto simp: may_write_def\<close>)
  then have g: "bo_grain bo1 \<noteq> SLOT_NONE" using r cb
    by (auto simp: wr_prepare_def Let_def case_prod_unfold split: if_splits)
  note q = wr_prepare_ok [OF Cons.prems(1,2) bo r]
  have "ok A (wr_held (\<lambda>_. []) bo1 @ R) w1" using q by blast
  moreover have "roomy (length (wr_held (\<lambda>_. []) bo1 @ R) + length ops)"
    using Cons.prems(3) by (rule roomy_mono) (simp add: wr_held_def)
  ultimately have "bo_grain bo' \<noteq> SLOT_NONE" if "bo' \<in> set (fst (map_state (wr_prepare en) ops w1))"
    using Cons.IH Cons.prems(2,4) that by auto
  with Cons.prems(5) g r show ?case by (auto simp: map_state_Cons simp del: map_state.simps(2))
qed simp

lemma length_lost: "length (lost ops) \<le> length ops"
  by (induction ops) (auto simp: lost_def wr_held_def)

lemma wr_prepare_window:
  assumes ok: "ok A R w" and st: "stab None A" and n: "blk + n \<le> g_nblocks en"
    and mw: "\<And>i. i < n \<Longrightarrow> may_write (blk + i) (page_of src i)"
    and pr: "map_state (wr_prepare en) (map (\<lambda>i. blkop_set (blk + i) NBD_CMD_WRITE (page_of src i) 0) [0..<n]) w = (ops1, w1)"
  shows "ok A (concat (map (wr_held (\<lambda>_. [])) ops1) @ R) w1" "length ops1 = n"
    "i < n \<Longrightarrow> op_start A (ops1 ! i) w1 \<and> bo_blk (ops1 ! i) = blk + i \<and> bo_page (ops1 ! i) = page_of src i \<and>
      bo_cmd (ops1 ! i) = NBD_CMD_WRITE \<and> bo_err (ops1 ! i) = (if bo_grain (ops1 ! i) = SLOT_NONE then ENOSPC else 0) \<and>
      (roomy (length R + n) \<longrightarrow> bo_grain (ops1 ! i) \<noteq> SLOT_NONE)"
proof -
  let ?ops = "map (\<lambda>i. blkop_set (blk + i) NBD_CMD_WRITE (page_of src i) 0) [0..<n]"
  let ?I = "\<lambda>L s. ok A (L @ R) s" and ?r = "map_state (wr_prepare en) ?ops w"
  let ?P = "\<lambda>bo (s :: 'd world). bo_blk bo < g_nblocks en \<and> bo_cmd bo = NBD_CMD_WRITE \<and> bo_err bo = 0 \<and>
    may_write (bo_blk bo) (bo_page bo)"
  let ?Q = "\<lambda>bo bo' s. op_start A bo' s \<and> bo_blk bo' = bo_blk bo \<and> bo_page bo' = bo_page bo \<and> bo_cmd bo' = NBD_CMD_WRITE \<and>
    bo_err bo' = (if bo_grain bo' = SLOT_NONE then ENOSPC else 0)"
  have "?I ([] @ concat (map (wr_held (\<lambda>_. [])) (fst ?r))) (snd ?r) \<and> evolves w (snd ?r) \<and>
      list_all2 (\<lambda>bo bo'. ?Q bo bo' (snd ?r)) ?ops (fst ?r)"
  proof (rule map_state_phase [where P = ?P and h = "\<lambda>_. []"])
    fix bo :: blkop and L1 L2 :: "hold list" and s :: "'d world"
    assume I: "?I (L1 @ [] @ L2) s" and P: "?P bo s"
    obtain bo' s' where r: "wr_prepare en bo s = (bo', s')" by fastforce
    from P have P': "bo_blk bo < g_nblocks en" "bo_cmd bo = NBD_CMD_WRITE" "bo_err bo = 0" "may_write (bo_blk bo) (bo_page bo)"
      by auto
    note q = wr_prepare_ok [OF I st P' r]
    have "ok A (L1 @ wr_held (\<lambda>_. []) bo' @ L2 @ R) s'" using q st_ok_swap by auto
    then show "?I (L1 @ wr_held (\<lambda>_. []) (fst (wr_prepare en bo s)) @ L2) (snd (wr_prepare en bo s)) \<and>
        evolves s (snd (wr_prepare en bo s)) \<and> ?Q bo (fst (wr_prepare en bo s)) (snd (wr_prepare en bo s))"
      using q P'(2) by (auto simp: r)
  qed (use ok n mw op_start_mono evolves_refl evolves_trans in \<open>auto simp: blkop_set_def comp_def\<close>)
  then have ok1: "ok A (concat (map (wr_held (\<lambda>_. [])) ops1) @ R) w1" and p: "length ops1 = n"
    and q: "i < n \<longrightarrow> ?Q (?ops ! i) (ops1 ! i) w1"
    by (auto simp: pr list_all2_conv_all_nth)
  from ok1 p show "ok A (concat (map (wr_held (\<lambda>_. [])) ops1) @ R) w1" "length ops1 = n" .
  have "bo_grain (ops1 ! i) \<noteq> SLOT_NONE" if "roomy (length R + n)" "i < n"
  proof (rule wr_prepares_room [OF ok st, of ?ops])
    show "ops1 ! i \<in> set (fst (map_state (wr_prepare en) ?ops w))" using that(2) p by (simp add: pr)
  qed (use that(1) n mw in \<open>auto simp: blkop_set_def\<close>)
  with q show "i < n \<Longrightarrow> op_start A (ops1 ! i) w1 \<and> bo_blk (ops1 ! i) = blk + i \<and> bo_page (ops1 ! i) = page_of src i \<and>
      bo_cmd (ops1 ! i) = NBD_CMD_WRITE \<and> bo_err (ops1 ! i) = (if bo_grain (ops1 ! i) = SLOT_NONE then ENOSPC else 0) \<and>
      (roomy (length R + n) \<longrightarrow> bo_grain (ops1 ! i) \<noteq> SLOT_NONE)"
    by (simp add: blkop_set_def)
qed

lemma wr_window:
  assumes ok: "ok A R w" and st: "stab None A" and n: "blk + n \<le> g_nblocks en"
    and mw: "\<And>i. i < n \<Longrightarrow> may_write (blk + i) (page_of src i)"
    and pr: "map_state (wr_prepare en) (map (\<lambda>i. blkop_set (blk + i) NBD_CMD_WRITE (page_of src i) 0) [0..<n]) w = (ops1, w1)"
    and d: "do_blocks en ops1 w1 = (ops2, w2)"
  shows "ok (ran blk src {i. i < n \<and> bo_err (ops2 ! i) = 0} A) (lost ops2 @ R) w2"
    "stab None (ran blk src {i. i < n \<and> bo_err (ops2 ! i) = 0} A)" "length ops2 = n"
    "bo \<in> set ops2 \<Longrightarrow> bo_err bo = 0 \<or> bo_err bo = ENOSPC \<and> \<not> roomy (length R + n) \<or> bo_err bo = EIO \<and> \<not> faultless en"
    "(\<forall>bo \<in> set ops2. bo_err bo \<noteq> EIO) \<Longrightarrow> lost ops2 = []"
proof -
  note p = wr_prepare_window [OF ok st n mw pr]
  have st1: "op_start A bo w1" if "bo \<in> set ops1" for bo using that p(2,3) by (auto simp: in_set_conv_nth)
  note d' = do_blocks_ok [OF st p(1) st1 d]
  show len: "length ops2 = n" using d'(3) p(2) by (auto dest!: list_all2_lengthD)
  have q: "bo_blk (ops2 ! i) = blk + i \<and> bo_page (ops2 ! i) = page_of src i \<and> bo_cmd (ops2 ! i) = NBD_CMD_WRITE \<and>
      (bo_grain (ops2 ! i) = SLOT_NONE \<longrightarrow> bo_err (ops2 ! i) = ENOSPC \<and> \<not> roomy (length R + n)) \<and>
      (bo_grain (ops2 ! i) \<noteq> SLOT_NONE \<longrightarrow> bo_err (ops2 ! i) = 0 \<or> bo_err (ops2 ! i) = EIO \<and> \<not> faultless en)"
    if i: "i < n" for i
  proof -
    have "op_kept (ops1 ! i) (ops2 ! i)" using d'(3) i len by (auto simp: list_all2_conv_all_nth)
    then show ?thesis using p(3) [OF _ i] by (auto simp: op_kept_def)
  qed
  have pub: "published (ops2 ! i) \<longleftrightarrow> bo_err (ops2 ! i) = 0" if "i < n" for i
    using q [OF that] by (auto simp: published_def)
  have w: "wrote ops2 A = ran blk src {i. i < n \<and> bo_err (ops2 ! i) = 0} A"
    using wrote_run [of ops2 blk src A] q len pub by (simp cong: conj_cong)
  show "ok (ran blk src {i. i < n \<and> bo_err (ops2 ! i) = 0} A) (lost ops2 @ R) w2"
    "stab None (ran blk src {i. i < n \<and> bo_err (ops2 ! i) = 0} A)" using d'(1,2) w by simp_all
  have each: "(bo_err bo = 0 \<or> bo_err bo = ENOSPC \<and> \<not> roomy (length R + n) \<or> bo_err bo = EIO \<and> \<not> faultless en) \<and>
      (published bo \<or> bo_grain bo = SLOT_NONE \<or> bo_err bo = EIO)" if bo: "bo \<in> set ops2" for bo
  proof -
    obtain i where "i < n" "bo = ops2 ! i" using bo len by (auto simp: in_set_conv_nth)
    then show ?thesis using q [of i] pub [of i] by auto
  qed
  then show "bo_err bo = 0 \<or> bo_err bo = ENOSPC \<and> \<not> roomy (length R + n) \<or> bo_err bo = EIO \<and> \<not> faultless en" if "bo \<in> set ops2" for bo
    using that by blast
  show "lost ops2 = []" if e: "\<forall>bo \<in> set ops2. bo_err bo \<noteq> EIO"
  proof -
    have "(if published bo then [] else wr_held (\<lambda>_. []) bo) = []" if "bo \<in> set ops2" for bo
      using each [OF that] bspec [OF e that] by (auto simp: wr_held_def)
    then show ?thesis by (simp add: lost_def cong: map_cong)
  qed
qed

lemma ran_append:
  assumes "S \<subseteq> {..<n}"
  shows "ran (blk + n) (drop (n * CBLK_SIZE) src) T (ran blk src S A) = ran blk src (S \<union> (+) n ` T) A"
proof
  fix b
  consider "b < blk + n" | m where "b = blk + n + m" by (metis le_Suc_ex not_less)
  then show "ran (blk + n) (drop (n * CBLK_SIZE) src) T (ran blk src S A) b = ran blk src (S \<union> (+) n ` T) A b"
  proof cases
    case 1
    then have "b - blk \<in> (+) n ` T \<longleftrightarrow> False" if "blk \<le> b" using that by auto
    with 1 show ?thesis by (auto simp: ran_def)
  next
    case 2
    then have "b - (blk + n) = m" "b - blk = n + m" "n + m \<notin> S" "n + m \<in> (+) n ` T \<longleftrightarrow> m \<in> T" using assms by auto
    with 2 show ?thesis by (auto simp: ran_def page_of_drop simp del: CBLK_SIZE_val)
  qed
qed

lemma split_run:
  fixes n m :: nat
  assumes "S \<subseteq> {..<n}" "T \<subseteq> {..<m - n}" "n \<le> m"
  shows "S \<union> (+) n ` T = {..<m} \<longleftrightarrow> S = {..<n} \<and> T = {..<m - n}"
proof
  assume u: "S \<union> (+) n ` T = {..<m}"
  have "i \<in> S" if "i < n" for i using that u assms(3) by (auto simp: set_eq_iff dest: spec [of _ i])
  moreover have "i \<in> T" if "i < m - n" for i
  proof -
    have "n + i \<in> S \<union> (+) n ` T" using that u by auto
    then show ?thesis using assms(1) by auto
  qed
  ultimately show "S = {..<n} \<and> T = {..<m - n}" using assms by auto
next
  assume e: "S = {..<n} \<and> T = {..<m - n}"
  have "i \<in> (+) n ` {..<m - n}" if "n \<le> i" "i < m" for i
    using that by (intro image_eqI [of _ _ "i - n"]) auto
  with e assms(3) show "S \<union> (+) n ` T = {..<m}" by force
qed

text \<open>How the errors of one window enter the error of the run.\<close>

lemma window_errors:
  fixes ops :: "blkop list" and err :: nat
  assumes each: "\<forall>bo \<in> set ops. bo_err bo = 0 \<or> bo_err bo = ENOSPC \<and> \<not> room \<or> bo_err bo = EIO \<and> \<not> clean"
    and lost: "(\<forall>bo \<in> set ops. bo_err bo \<noteq> EIO) \<longrightarrow> \<not> leak"
  defines "S \<equiv> {i. i < length ops \<and> bo_err (ops ! i) = 0}" and "err' \<equiv> run_err (map bo_err ops) err"
  shows "S = {..<length ops} \<longrightarrow> err' = err" "S \<noteq> {..<length ops} \<longrightarrow> err' \<noteq> 0" "leak \<or> err = EIO \<longrightarrow> err' = EIO"
    "err' = err \<or> err' = ENOSPC \<and> \<not> room \<or> err' = EIO \<and> \<not> clean"
proof -
  have "S = {..<length ops} \<longleftrightarrow> (\<forall>i < length ops. bo_err (ops ! i) = 0)" by (auto simp: S_def)
  also have "\<dots> \<longleftrightarrow> (\<forall>bo \<in> set ops. bo_err bo = 0)" by (simp add: all_set_conv_all_nth)
  also have "\<dots> \<longleftrightarrow> set (map bo_err ops) \<subseteq> {0}" by auto
  finally show "S = {..<length ops} \<longrightarrow> err' = err" "S \<noteq> {..<length ops} \<longrightarrow> err' \<noteq> 0"
    using run_err_same [of "map bo_err ops" err] run_err_zero [of "map bo_err ops" err] by (auto simp: err'_def)
  have "EIO \<in> set (map bo_err ops)" if leak using lost that by (metis image_eqI set_map)
  then show "leak \<or> err = EIO \<longrightarrow> err' = EIO" unfolding err'_def using run_err_EIO run_err_from_EIO by blast
  show "err' = err \<or> err' = ENOSPC \<and> \<not> room \<or> err' = EIO \<and> \<not> clean"
    using run_err_in [of "map bo_err ops" err] each by (auto simp: err'_def)
qed

lemma store_blocks_ok:
  assumes "ok A R w" "stab None A" "blk + nblocks \<le> g_nblocks en"
    and "\<And>i. i < nblocks \<Longrightarrow> may_write (blk + i) (page_of src i)" "store_blocks en blk src nblocks err w = (e, w')"
  shows "\<exists>S L. S \<subseteq> {..<nblocks} \<and> ok (ran blk src S A) (L @ R) w' \<and> stab None (ran blk src S A) \<and>
    (S = {..<nblocks} \<longrightarrow> e = err) \<and> (S \<noteq> {..<nblocks} \<longrightarrow> e \<noteq> 0) \<and> (L \<noteq> [] \<or> err = EIO \<longrightarrow> e = EIO) \<and>
    length L \<le> nblocks \<and>
    (e = err \<or> e = ENOSPC \<and> \<not> roomy (length R + nblocks) \<or> e = EIO \<and> \<not> faultless en)"
  using assms
proof (induction nblocks arbitrary: A R blk src err w rule: less_induct)
  case (less nblocks)
  show ?case
  proof (cases "nblocks = 0")
    case True
    then have "ran blk src {} A = A" "e = err" "w' = w"
      using less.prems(5) by (auto simp: store_blocks.simps ran_def fun_eq_iff)
    then show ?thesis using less.prems True by (intro exI [of _ "{}"] exI [of _ "[]"]) auto
  next
    case False
    define n where "n = (if nblocks > maxops en then maxops en else nblocks)"
    have n: "0 < n" "n \<le> nblocks" using False by (auto simp: n_def)
    obtain ops1 w1 where pr: "map_state (wr_prepare en)
        (map (\<lambda>i. blkop_set (blk + i) NBD_CMD_WRITE (page_of src i) 0) [0..<n]) w = (ops1, w1)" by fastforce
    obtain ops2 w2 where d: "do_blocks en ops1 w1 = (ops2, w2)" by fastforce
    define err1 where "err1 = run_err (map bo_err ops2) err"
    have eq: "store_blocks en (blk + n) (drop (n * CBLK_SIZE) src) (nblocks - n) err1 w2 = (e, w')"
      using less.prems(5) by (subst (asm) store_blocks.simps)
        (simp add: False n_def [symmetric] page_of_def [unfolded CBLK_SIZE_val, symmetric] pr d Let_def run_err_map err1_def)
    have blkn: "blk + n \<le> g_nblocks en" using less.prems(3) n(2) by simp
    define S1 where "S1 = {i. i < n \<and> bo_err (ops2 ! i) = 0}"
    have mw: "\<And>i. i < n \<Longrightarrow> may_write (blk + i) (page_of src i)" using less.prems(4) n(2) by simp
    note win = wr_window [OF less.prems(1,2) blkn mw pr d, folded S1_def]
    have "\<exists>T L. T \<subseteq> {..<nblocks - n} \<and> ok (ran (blk + n) (drop (n * CBLK_SIZE) src) T (ran blk src S1 A)) (L @ lost ops2 @ R) w' \<and>
        stab None (ran (blk + n) (drop (n * CBLK_SIZE) src) T (ran blk src S1 A)) \<and>
        (T = {..<nblocks - n} \<longrightarrow> e = err1) \<and> (T \<noteq> {..<nblocks - n} \<longrightarrow> e \<noteq> 0) \<and> (L \<noteq> [] \<or> err1 = EIO \<longrightarrow> e = EIO) \<and>
        length L \<le> nblocks - n \<and>
        (e = err1 \<or> e = ENOSPC \<and> \<not> roomy (length (lost ops2 @ R) + (nblocks - n)) \<or> e = EIO \<and> \<not> faultless en)"
      by (rule less.IH [OF _ win(1,2) _ _ eq]) (use n less.prems(3,4) page_of_drop in \<open>auto simp: add.assoc\<close>)
    then obtain T L where T: "T \<subseteq> {..<nblocks - n}" "ok (ran (blk + n) (drop (n * CBLK_SIZE) src) T (ran blk src S1 A)) (L @ lost ops2 @ R) w'"
        "stab None (ran (blk + n) (drop (n * CBLK_SIZE) src) T (ran blk src S1 A))"
        "T = {..<nblocks - n} \<longrightarrow> e = err1" "T \<noteq> {..<nblocks - n} \<longrightarrow> e \<noteq> 0" "L \<noteq> [] \<or> err1 = EIO \<longrightarrow> e = EIO"
        "e = err1 \<or> e = ENOSPC \<and> \<not> roomy (length (lost ops2 @ R) + (nblocks - n)) \<or> e = EIO \<and> \<not> faultless en"
        "length L \<le> nblocks - n" by blast
    have len: "length ops2 = n" using win(3) by simp
    then have ln: "length (lost ops2) \<le> n" using length_lost [of ops2] by simp
    have room: "roomy (length (lost ops2 @ R) + (nblocks - n))" "roomy (length R + n)" if "roomy (length R + nblocks)"
      using that ln n(2) by (auto intro: roomy_mono)
    let ?S = "S1 \<union> (+) n ` T"
    have S1: "S1 \<subseteq> {..<n}" by (auto simp: S1_def)
    have full: "?S = {..<nblocks} \<longleftrightarrow> S1 = {..<n} \<and> T = {..<nblocks - n}" by (rule split_run [OF S1 T(1) n(2)])
    have each: "\<forall>bo \<in> set ops2. bo_err bo = 0 \<or> bo_err bo = ENOSPC \<and> \<not> roomy (length R + n) \<or> bo_err bo = EIO \<and> \<not> faultless en"
      using win(4) by blast
    have lostE: "(\<forall>bo \<in> set ops2. bo_err bo \<noteq> EIO) \<longrightarrow> \<not> lost ops2 \<noteq> []" using win(5) by blast
    note we = window_errors [OF each lostE, where err = err, unfolded len, folded S1_def err1_def]
    have "?S \<subseteq> {..<nblocks}" using S1 T(1) n(2) by auto
    moreover have "ok (ran blk src ?S A) ((L @ lost ops2) @ R) w'" "stab None (ran blk src ?S A)"
      using T(2,3) ran_append [OF S1] by simp_all
    moreover have "?S = {..<nblocks} \<longrightarrow> e = err" using full we(1) T(4) by blast
    moreover have "?S \<noteq> {..<nblocks} \<longrightarrow> e \<noteq> 0" using full we(2) T(4,5) by metis
    moreover have "L @ lost ops2 \<noteq> [] \<or> err = EIO \<longrightarrow> e = EIO" using we(3) T(6) by (metis append_Nil)
    moreover have "e = err \<or> e = ENOSPC \<and> \<not> roomy (length R + nblocks) \<or> e = EIO \<and> \<not> faultless en"
      using we(4) T(7) room by metis
    moreover have "length (L @ lost ops2) \<le> nblocks" using T(8) ln n(2) by simp
    ultimately show ?thesis by blast
  qed
qed

section \<open>Byte ranges\<close>

lemma load_blocks_reads:
  assumes "ok A R w" "stab None A" "blk + k \<le> g_nblocks en" "load_blocks en blk k w = (e, bs, w')"
  shows "ok A R w'" "e = 0 \<or> e = EIO \<and> \<not> faultless en" "e = 0 \<Longrightarrow> length bs = k * CBLK_SIZE \<and> reads A (blk * CBLK_SIZE) bs"
  using load_blocks_ok [OF assms] reads_pages [of bs k A blk] by auto

lemma load_part_reads:
  assumes "ok A R w" "stab None A" "c \<longrightarrow> off div CBLK_SIZE + k \<le> g_nblocks en" "load_part en c off k w = (e, bs, w')"
  shows "ok A R w'" "e = 0 \<or> e = EIO \<and> \<not> faultless en"
    "e = 0 \<Longrightarrow> if c then length bs = k * CBLK_SIZE \<and> reads A (off div CBLK_SIZE * CBLK_SIZE) bs else bs = []"
  using load_blocks_reads [OF assms(1,2), of "off div 4096" k e bs w'] assms
  by (auto simp: load_part_def split: if_splits)

lemma load_range_ok:
  assumes ok: "ok A R w" and st: "stab None A" and r: "off + n \<le> g_nblocks en * CBLK_SIZE" "off + n < 2 ^ 64"
    and l: "load_range en off n w = (e, bs, w')"
  shows "ok A R w'" "e = 0 \<or> e = EIO \<and> \<not> faultless en" "e = 0 \<Longrightarrow> length bs = n \<and> reads A off bs"
proof -
  let ?cnt = "head_cnt off n" and ?nb = "mid_cnt off n" and ?n2 = "tail_cnt off n" and ?boff = "off mod CBLK_SIZE"
  note parts = range_parts [where off = off and n = n] and bounds = range_bounds [OF r]
  obtain e1 head w1 where h: "load_part en (?boff \<noteq> 0) off 1 w = (e1, head, w1)" by (metis prod_cases3)
  obtain e2 mid w2 where m: "load_part en (?nb \<noteq> 0) (off_mid off n) ?nb w1 = (e2, mid, w2)" by (metis prod_cases3)
  obtain e3 tail w3 where t: "load_part en (?n2 \<noteq> 0) (off_tail off n) 1 w2 = (e3, tail, w3)" by (metis prod_cases3)
  have eq: "load_range en off n w = (if e1 \<noteq> 0 then (EIO, [], w1) else if e2 \<noteq> 0 then (EIO, [], w2)
      else if e3 \<noteq> 0 then (EIO, [], w3) else (0, take ?cnt (drop ?boff head) @ mid @ take ?n2 tail, w3))"
    unfolding load_range_def parts(5) h m t prod.case by simp
  note H = load_part_reads [OF ok st bounds(3) h]
  note M = load_part_reads [OF H(1) st bounds(4) m]
  note T = load_part_reads [OF M(1) st bounds(5) t]
  show "ok A R w'" using eq l H(1) M(1) T(1) by (auto split: if_splits)
  show "e = 0 \<or> e = EIO \<and> \<not> faultless en" using eq l H(2) M(2) T(2) by (auto split: if_splits)
  assume "e = 0"
  then have z: "e1 = 0" "e2 = 0" "e3 = 0" and bs: "bs = take ?cnt (drop ?boff head) @ mid @ take ?n2 tail"
    using eq l by (auto split: if_splits)
  have "length (take ?cnt (drop ?boff head)) = ?cnt \<and> reads A off (take ?cnt (drop ?boff head))"
  proof (cases "?boff = 0")
    case True
    then show ?thesis using H(3) [OF z(1)] by (simp add: head_cnt_def)
  next
    case False
    then show ?thesis using H(3) [OF z(1)] parts(2) reads_slice [of A "off div 4096 * 4096" head ?boff ?cnt] by simp
  qed
  moreover have "length mid = ?nb * CBLK_SIZE \<and> reads A (off_mid off n) mid"
    using M(3) [OF z(2)] bounds(6) by (auto split: if_splits)
  moreover have "length (take ?n2 tail) = ?n2 \<and> reads A (off_tail off n) (take ?n2 tail)"
    using T(3) [OF z(3)] bounds(7) parts(4) reads_slice [of A "off_tail off n" tail 0 ?n2] by (auto split: if_splits)
  ultimately show "length bs = n \<and> reads A off bs"
    using parts(3) bounds(1,2) unfolding bs by (auto intro!: reads_append)
qed

subsection \<open>Writing a range of blocks this worker owns\<close>

text \<open>The assertion that block @b@ has page @D b@ wherever this worker is the only writer.\<close>

definition img :: "(nat \<Rightarrow> byte list) \<Rightarrow> (nat \<Rightarrow> byte list set) \<Rightarrow> nat \<Rightarrow> byte list set" where
  "img D A b = (if b \<in> B then {D b} else A b)"

lemma stab_img: "stab None A \<Longrightarrow> stab None (img D A)"
  by (auto simp: stable_def img_def)

lemma upd_img: "b \<in> B \<Longrightarrow> upd (img D A) b p = img (D(b := p)) A"
  by (auto simp: upd_def img_def fun_eq_iff)

lemma ran_img: "ran blk src S (img D A) = img (\<lambda>b. if blk \<le> b \<and> b - blk \<in> S then page_of src (b - blk) else D b) A"
  by (auto simp: ran_def img_def fun_eq_iff)

lemma img_length: "ok (img D A) R w \<Longrightarrow> b \<in> B \<Longrightarrow> b < g_nblocks en \<Longrightarrow> length (D b) = CBLK_SIZE"
  using st_okD(5) by (fastforce simp: pages_in_def img_def)

definition err_ok :: "nat \<Rightarrow> nat \<Rightarrow> bool" where
  "err_ok N e \<longleftrightarrow> e = 0 \<or> e = ENOSPC \<and> \<not> roomy N \<or> e = EIO \<and> \<not> faultless en"

lemma err_ok_mono: "err_ok M e \<Longrightarrow> M \<le> N \<Longrightarrow> err_ok N e"
  using roomy_mono by (auto simp: err_ok_def)

lemma rmw_part_img:
  assumes ok: "ok (img D A) R w" and st: "stab None A"
    and c: "c \<longrightarrow> b < g_nblocks en \<and> b \<in> B \<and> boff + length src \<le> CBLK_SIZE" and b: "b = off div CBLK_SIZE"
    and r: "rmw_part en c off boff src w = (e, w')"
  shows "err_ok (if c then length R + 1 else 0) e \<and> (\<exists>v. ok (img (D(b := v)) A) R w' \<and> (v = D b \<or> c \<and> v = overlay (D b) boff src) \<and>
    (e = 0 \<longrightarrow> c \<longrightarrow> v = overlay (D b) boff src))"
proof (cases c)
  case False
  with r ok show ?thesis by (auto simp: rmw_part_def err_ok_def intro!: exI [of _ "D b"])
next
  case True
  then have rb: "rmw_block en b boff src w = (e, w')" using r b by (simp add: rmw_part_def)
  have "e = 0 \<and> (\<exists>p \<in> img D A b. length p = CBLK_SIZE \<and> ok (upd (img D A) b (overlay p boff src)) R w') \<or>
      (e = EIO \<and> \<not> faultless en \<or> e = ENOSPC \<and> \<not> roomy (length R + 1)) \<and> ok (img D A) R w'"
    by (rule rmw_block_ok [OF ok stab_img [OF st] _ _ _ rb]) (use c True in auto)
  then show ?thesis
  proof
    assume "e = 0 \<and> (\<exists>p \<in> img D A b. length p = CBLK_SIZE \<and> ok (upd (img D A) b (overlay p boff src)) R w')"
    then show ?thesis using c True
      by (intro conjI exI [of _ "overlay (D b) boff src"]) (auto simp: upd_img err_ok_def img_def)
  next
    assume "(e = EIO \<and> \<not> faultless en \<or> e = ENOSPC \<and> \<not> roomy (length R + 1)) \<and> ok (img D A) R w'"
    then show ?thesis using True by (intro conjI exI [of _ "D b"]) (auto simp: err_ok_def)
  qed
qed

lemma store_part_img:
  assumes ok: "ok (img D A) R w" and st: "stab None A"
    and c: "c \<longrightarrow> blk + k \<le> g_nblocks en \<and> {blk..<blk + k} \<subseteq> B \<and> k * CBLK_SIZE \<le> length src" "\<not> c \<longrightarrow> k = 0"
    and blk: "blk = off div CBLK_SIZE" and r: "store_part en c off src k w = (e, w')"
  shows "err_ok (length R + k) e \<and> (\<exists>S L. S \<subseteq> {..<k} \<and> length L \<le> k \<and>
    ok (img (\<lambda>b. if blk \<le> b \<and> b - blk \<in> S then page_of src (b - blk) else D b) A) (L @ R) w' \<and>
    (e = 0 \<longrightarrow> S = {..<k}) \<and> (L \<noteq> [] \<longrightarrow> e = EIO))"
proof (cases c)
  case False
  with r ok c(2) show ?thesis by (auto simp: store_part_def err_ok_def intro!: exI [of _ "{}"] exI [of _ "[]"])
next
  case True
  then have sb: "store_blocks en blk src k 0 w = (e, w')" using r blk by (simp add: store_part_def)
  have mw: "may_write (blk + i) (page_of src i)" if i: "i < k" for i
  proof -
    have "(i + 1) * CBLK_SIZE \<le> k * CBLK_SIZE" using i by (intro mult_le_mono1) simp
    also have "\<dots> \<le> length src" using c(1) True by simp
    finally have "length (page_of src i) = CBLK_SIZE" by (rule length_page_of)
    moreover have "blk + i \<in> {blk..<blk + k}" using i by simp
    then have "blk + i \<in> B" using c(1) True by blast
    ultimately show ?thesis by (simp add: may_write_def)
  qed
  have bound: "blk + k \<le> g_nblocks en" using c(1) True by simp
  obtain S L where S: "S \<subseteq> {..<k}" "ok (ran blk src S (img D A)) (L @ R) w'" "S \<noteq> {..<k} \<longrightarrow> e \<noteq> 0"
      "L \<noteq> [] \<longrightarrow> e = EIO" "e = 0 \<or> e = ENOSPC \<and> \<not> roomy (length R + k) \<or> e = EIO \<and> \<not> faultless en" "length L \<le> k"
    using store_blocks_ok [OF ok stab_img [OF st] bound mw sb] by blast
  then show ?thesis by (intro conjI exI [of _ S] exI [of _ L]) (auto simp: ran_img err_ok_def)
qed

lemma note_err_ok:
  assumes "err_ok N a" "err_ok N b"
  shows "err_ok N (note_err a b)" "note_err a b = 0 \<longleftrightarrow> a = 0 \<and> b = 0" "b = EIO \<or> a = EIO \<longrightarrow> note_err a b = EIO"
  using assms by (auto simp: note_err_def err_ok_def)

lemma store_range_ok:
  assumes ok: "ok (img D A) R w" and st: "stab None A" and ne: "src \<noteq> []"
    and r: "off + length src \<le> g_nblocks en * CBLK_SIZE" "off + length src < 2 ^ 64"
    and own: "\<And>x. off \<le> x \<Longrightarrow> x < off + length src \<Longrightarrow> x div CBLK_SIZE \<in> B"
    and sr: "store_range en off src w = (e, w')"
  shows "err_ok (length R + g_nblocks en) e \<and> (\<exists>D' L. ok (img D' A) (L @ R) w' \<and> (L \<noteq> [] \<longrightarrow> e = EIO) \<and>
    (\<forall>b. b \<in> B \<longrightarrow> b < g_nblocks en \<longrightarrow>
       (D' b = D b \<or> D' b = patch off src D b) \<and> (e = 0 \<longrightarrow> D' b = patch off src D b)))"
proof -
  let ?n = "length src" and ?boff = "off mod CBLK_SIZE"
  let ?h = "head_cnt off ?n" and ?m = "mid_cnt off ?n" and ?t = "tail_cnt off ?n"
  let ?b0 = "off div CBLK_SIZE" and ?qm = "off_mid off ?n div CBLK_SIZE" and ?qt = "off_tail off ?n div CBLK_SIZE"
  let ?src1 = "drop ?h src" and ?src2 = "drop (?m * CBLK_SIZE) (drop ?h src)"
  note p = range_parts [where off = off and n = "length src"] and bd = range_bounds [OF r] and ap = parts_apart [OF r]
  obtain e1 w1 where H: "rmw_part en (?boff \<noteq> 0) off ?boff (take ?h src) w = (e1, w1)" by fastforce
  obtain e2 w2 where M: "store_part en (?m \<noteq> 0) (off_mid off ?n) ?src1 ?m w1 = (e2, w2)" by fastforce
  obtain e3 w3 where T: "rmw_part en (?t \<noteq> 0) (off_tail off ?n) 0 (take ?t ?src2) w2 = (e3, w3)" by fastforce
  have e: "e = note_err (note_err e1 e2) e3" "w' = w3"
    using sr unfolding store_range_def Let_def p(5) H M T prod.case by auto
  have h1: "?boff \<noteq> 0 \<longrightarrow> ?b0 < g_nblocks en \<and> ?b0 \<in> B \<and> ?boff + length (take ?h src) \<le> CBLK_SIZE"
    using bd(3) own [of off] ne p(1,2) by auto
  let ?N = "length R + g_nblocks en"
  obtain v1 where v1: "err_ok (if ?boff \<noteq> 0 then length R + 1 else 0) e1" "ok (img (D(?b0 := v1)) A) R w1" "v1 = D ?b0 \<or> ?boff \<noteq> 0 \<and> v1 = overlay (D ?b0) ?boff (take ?h src)"
      "e1 = 0 \<longrightarrow> ?boff \<noteq> 0 \<longrightarrow> v1 = overlay (D ?b0) ?boff (take ?h src)"
    using rmw_part_img [OF ok st h1 refl H] by blast
  define D1 where "D1 = D(?b0 := v1)"
  have h2: "?m \<noteq> 0 \<longrightarrow> ?qm + ?m \<le> g_nblocks en \<and> {?qm..<?qm + ?m} \<subseteq> B \<and> ?m * CBLK_SIZE \<le> length ?src1"
    using bd(4) mid_owned [OF r own] p(3) by auto
  have nm: "\<not> ?m \<noteq> 0 \<longrightarrow> ?m = 0" by simp
  obtain S L where S: "err_ok (length R + ?m) e2" "S \<subseteq> {..<?m}"
      "ok (img (\<lambda>b. if ?qm \<le> b \<and> b - ?qm \<in> S then page_of ?src1 (b - ?qm) else D1 b) A) (L @ R) w2"
      "e2 = 0 \<longrightarrow> S = {..<?m}" "L \<noteq> [] \<longrightarrow> e2 = EIO" "length L \<le> ?m"
    using store_part_img [OF v1(2) [folded D1_def] st h2 nm refl M] by (elim conjE exE) (rule that)
  define D2 where "D2 = (\<lambda>b. if ?qm \<le> b \<and> b - ?qm \<in> S then page_of ?src1 (b - ?qm) else D1 b)"
  have h3: "?t \<noteq> 0 \<longrightarrow> ?qt < g_nblocks en \<and> ?qt \<in> B \<and> 0 + length (take ?t ?src2) \<le> CBLK_SIZE"
    using bd(2,5) own [of "off_tail off ?n"] p(3,4) by auto
  obtain v3 where v3: "err_ok (if ?t \<noteq> 0 then length (L @ R) + 1 else 0) e3" "ok (img (D2(?qt := v3)) A) (L @ R) w3" "v3 = D2 ?qt \<or> ?t \<noteq> 0 \<and> v3 = overlay (D2 ?qt) 0 (take ?t ?src2)"
      "e3 = 0 \<longrightarrow> ?t \<noteq> 0 \<longrightarrow> v3 = overlay (D2 ?qt) 0 (take ?t ?src2)"
    using rmw_part_img [OF S(3) [folded D2_def] st h3 refl T] by blast
  have pages: "((D2(?qt := v3)) b = D b \<or> (D2(?qt := v3)) b = patch off src D b) \<and>
      (e1 = 0 \<and> e2 = 0 \<and> e3 = 0 \<longrightarrow> (D2(?qt := v3)) b = patch off src D b)"
    if b: "b \<in> B" "b < g_nblocks en" for b
  proof (rule parts_merge [where D = D and bh = ?b0 and va = v1 and H = "?boff \<noteq> 0" and S = S and m = ?m and qm = ?qm
        and qt = ?qt and E = D2 and vb = v3 and T = "?t \<noteq> 0" and ov = "\<lambda>p. overlay p 0 (take ?t ?src2)"
        and hp = "overlay (D ?b0) ?boff (take ?h src)" and pg = "page_of ?src1" and P = "patch off src D",
        OF v1(3) _ S(2) _ v3(3) _ D2_def [unfolded D1_def]])
    note pp = part_patches [OF r, where D = D]
    have len: "length (D b) = CBLK_SIZE" if "b \<in> B" "b < g_nblocks en" for b by (rule img_length [OF ok that])
    show "?boff \<noteq> 0 \<longrightarrow> overlay (D ?b0) ?boff (take ?h src) = patch off src D ?b0" using pp(1) len h1 by blast
    show "page_of ?src1 i = patch off src D (?qm + i)" if "i < ?m" for i by (rule pp(2) [OF that])
    show "?t \<noteq> 0 \<longrightarrow> overlay (D ?qt) 0 (take ?t ?src2) = patch off src D ?qt" using pp(3) len h3 by blast
    show "?boff \<noteq> 0 \<and> (?m \<noteq> 0 \<or> ?t \<noteq> 0) \<longrightarrow> ?b0 < ?qm" using ap(1) by blast
    show "?t \<noteq> 0 \<longrightarrow> ?qt = ?qm + ?m" using ap(2) by blast
    show "patch off src D b = D b"
      if "\<not> (?boff \<noteq> 0 \<and> b = ?b0)" "\<not> (?qm \<le> b \<and> b - ?qm < ?m)" "\<not> (?t \<noteq> 0 \<and> b = ?qt)"
      using part_outside [where D = D and b = b, OF r len [OF b]] that by blast
  qed (use v1(4) S(4) v3(4) in blast)+
  have x1: "err_ok ?N e1" using v1(1) h1 by (auto intro: err_ok_mono split: if_splits)
  have x2: "err_ok ?N e2" using err_ok_mono [OF S(1), of ?N] h2 by (cases "?m = 0") auto
  have x3: "err_ok ?N e3" using v3(1) by (rule err_ok_mono) (use S(6) h3 ap(2) in auto)
  note n1 = note_err_ok [OF x1 x2]
  note n2 = note_err_ok [OF n1(1) x3]
  have "err_ok ?N e" using n2(1) e(1) by simp
  moreover have "L \<noteq> [] \<longrightarrow> e = EIO" using S(5) n1(3) n2(3) e(1) by auto
  moreover have "e = 0 \<longrightarrow> e1 = 0 \<and> e2 = 0 \<and> e3 = 0" using n1(2) n2(2) e(1) by simp
  moreover have "ok (img (D2(?qt := v3)) A) (L @ R) w'" using v3(2) e(2) by simp
  ultimately show ?thesis using pages by metis
qed

end

end
