(* ===== verification/Store_Image.thy ===== *)
theory Store_Image
  imports Store_Range
begin

text \<open>
  The disk image. TRIM of a range, and what the byte-range operations mean for the image a client
  sees when no other worker interferes: the store is then a byte array that a successful
  write overwrites, a read returns and TRIM zeroes block by block. The locale
  @single_worker@ gives the contract of @shared_store@ for that case.
\<close>

section \<open>TRIM of a range\<close>

context shared_store
begin

lemma trim_blocks_ok:
  assumes "ok A R w" "stab None A" "\<And>b. b \<in> set bs \<Longrightarrow> b < g_nblocks en \<and> (b \<notin> B \<longrightarrow> zero_page \<in> F b)"
  shows "ok (\<lambda>b. if b \<in> B \<and> b \<in> set bs then {zero_page} else A b) R (fold (trim_block en) bs w)"
  using assms
proof (induction bs arbitrary: A w)
  case (Cons b bs)
  have "ok (upd A b zero_page) R (trim_block en b w)"
    by (rule trim_block_ok [OF Cons.prems(1,2)]) (use Cons.prems(3) in auto)
  from Cons.IH [OF this stab_upd [OF Cons.prems(2)]] Cons.prems(3)
  have "ok (\<lambda>x. if x \<in> B \<and> x \<in> set bs then {zero_page} else upd A b zero_page x) R (fold (trim_block en) (b # bs) w)"
    by simp
  then show ?case by (rule st_ok_mono) (auto simp: upd_def)
qed simp

end

text \<open>The blocks wholly inside the range.\<close>

lemma trim_bounds:
  assumes "off + len \<le> nblk * CBLK_SIZE" "off + len + CBLK_SIZE \<le> 2 ^ 64"
  shows "b \<in> set [u64 (off + CBLK_SIZE - 1) div 2 ^ CBLK_SHIFT..<
      (if u64 (off + len) div 2 ^ CBLK_SHIFT > nblk then nblk else u64 (off + len) div 2 ^ CBLK_SHIFT)] \<longleftrightarrow>
    off \<le> b * CBLK_SIZE \<and> (b + 1) * CBLK_SIZE \<le> off + len"
proof -
  have u: "u64 (off + CBLK_SIZE - 1) = off + 4095" "u64 (off + len) = off + len"
    using assms(2) by (simp_all add: u64_small)
  have "(off + len) div 4096 \<le> nblk" using assms(1) div_le_mono [of "off + len" "nblk * 4096" 4096] by simp
  moreover have "(off + 4095) div 4096 \<le> b \<longleftrightarrow> off \<le> b * 4096"
  proof -
    have "(off + 4095) div 4096 \<le> b \<longleftrightarrow> (off + 4095) div 4096 < Suc b" by linarith
    also have "\<dots> \<longleftrightarrow> off + 4095 < Suc b * 4096" by (rule div_less_iff_less_mult) simp
    finally show ?thesis by (simp only: mult_Suc) linarith
  qed
  moreover have "b < (off + len) div 4096 \<longleftrightarrow> (b + 1) * 4096 \<le> off + len"
    by (metis Suc_eq_plus1 Suc_le_eq less_eq_div_iff_mult_less_eq zero_less_numeral)
  ultimately show ?thesis unfolding u by simp
qed

section \<open>One worker\<close>

definition quiet :: "'d env \<Rightarrow> bool" where
  "quiet en \<longleftrightarrow> others en = (\<lambda>k held w. w)"

lemma yield_quiet: "quiet en \<Longrightarrow> yield en held w = w\<lparr>w_tick := Suc (w_tick w)\<rparr>"
  by (simp add: yield_def quiet_def)

locale single_worker = store_driver en mem "\<lambda>_. X"
  for en :: "'d env" and mem :: "'d \<Rightarrow> nat \<Rightarrow> byte" and X :: "nat set" +
  assumes quiet: "quiet en"

sublocale single_worker \<subseteq> alone: shared_store en mem "\<lambda>_. X" UNIV "\<lambda>_. UNIV" "\<lambda>w w'. g_index w' = g_index w"
proof (unfold_locales, goal_cases)
  case (1 held A R w)
  have "st_ok en mem (\<lambda>_. X) A R (w\<lparr>w_tick := Suc (w_tick w)\<rparr>)"
    using 1(2) by (subst st_ok_cong [of _ w]) simp_all
  then show ?case by (simp add: yield_quiet [OF quiet])
qed (auto simp: yield_quiet [OF quiet])

section \<open>The image\<close>

text \<open>
  The state of the store with no operation under way: it is well-formed, every block decodes,
  and the slots reserved are those of the blocks and the set @X@ (of slots lost earlier).
\<close>

definition store_inv :: "'d env \<Rightarrow> ('d \<Rightarrow> nat \<Rightarrow> byte) \<Rightarrow> nat set \<Rightarrow> 'd world \<Rightarrow> bool" where
  "store_inv en mem X w \<longleftrightarrow> st_ok en mem (\<lambda>_. X) (\<lambda>_. UNIV) [] w"

definition page_at :: "'d env \<Rightarrow> ('d \<Rightarrow> nat \<Rightarrow> byte) \<Rightarrow> 'd world \<Rightarrow> nat \<Rightarrow> byte list" where
  "page_at en mem w b = the (block_content en mem w b)"

definition disk :: "'d env \<Rightarrow> ('d \<Rightarrow> nat \<Rightarrow> byte) \<Rightarrow> 'd world \<Rightarrow> nat \<Rightarrow> byte" where
  "disk en mem w x = page_at en mem w (x div CBLK_SIZE) ! (x mod CBLK_SIZE)"

lemma st_ok_pages:
  "st_ok en mem foreign (\<lambda>_. UNIV) R w \<Longrightarrow> st_ok en mem foreign (\<lambda>b. {page_at en mem w b}) R w"
  by (auto simp: st_ok_def pages_in_def page_at_def)

lemma st_ok_page_at:
  assumes "st_ok en mem foreign (\<lambda>b. {D b}) R w" "b < g_nblocks en"
  shows "page_at en mem w b = D b" "length (D b) = CBLK_SIZE"
  using assms by (auto simp: st_ok_def pages_in_def page_at_def)

text \<open>Slots that an operation lost count as lost from then on.\<close>

lemma st_ok_lose:
  assumes "st_ok en mem (\<lambda>_. X) A (L @ R) w"
  shows "st_ok en mem (\<lambda>_. X \<union> holds L) A R w"
proof -
  have "holds L \<inter> live_grains w = {}" using st_okD(3) [OF assms] by (force simp: holds_def hold_ok_def)
  then show ?thesis using assms by (auto simp: st_ok_def tight_def holds_def)
qed

lemma st_ok_top: "st_ok en mem foreign A R w \<Longrightarrow> st_ok en mem foreign (\<lambda>_. UNIV) R w"
  by (rule st_ok_mono) auto

context single_worker
begin

lemma img_eq: "alone.img D A = (\<lambda>b. {D b})"
  by (simp add: alone.img_def fun_eq_iff)

lemma stab_any: "alone.stab held A"
  by (simp add: stable_def)

lemma store_range_single:
  assumes "store_inv en mem X w" "src \<noteq> []" "off + length src \<le> g_nblocks en * CBLK_SIZE" "off + length src < 2 ^ 64"
    and sr: "store_range en off src w = (e, w')"
  shows "(e = 0 \<or> e = ENOSPC \<and> \<not> alone.roomy (g_nblocks en) \<or> e = EIO \<and> \<not> faultless en) \<and>
    (\<exists>X'. store_inv en mem X' w' \<and> X \<subseteq> X' \<and> (e \<noteq> EIO \<longrightarrow> X' = X)) \<and>
    (\<forall>b < g_nblocks en. page_at en mem w' b = page_at en mem w b \<or> page_at en mem w' b = patch off src (page_at en mem w) b) \<and>
    (e = 0 \<longrightarrow> (\<forall>b < g_nblocks en. page_at en mem w' b = patch off src (page_at en mem w) b))"
proof -
  let ?D = "page_at en mem w"
  have ok: "ok (alone.img ?D (\<lambda>_. UNIV)) [] w" using assms(1) st_ok_pages by (simp add: store_inv_def img_eq)
  from alone.store_range_ok [OF ok stab_any assms(2-4) UNIV_I sr]
  obtain D' L where D': "alone.err_ok (length ([] :: hold list) + g_nblocks en) e" "ok (alone.img D' (\<lambda>_. UNIV)) (L @ []) w'" "L \<noteq> [] \<longrightarrow> e = EIO"
      "\<forall>b. b \<in> UNIV \<longrightarrow> b < g_nblocks en \<longrightarrow> (D' b = ?D b \<or> D' b = patch off src ?D b) \<and> (e = 0 \<longrightarrow> D' b = patch off src ?D b)"
    by (elim conjE exE) (rule that)
  have pg: "page_at en mem w' b = D' b" if "b < g_nblocks en" for b
    using st_ok_page_at(1) [OF D'(2) [unfolded img_eq] that] .
  have "store_inv en mem (X \<union> holds L) w'"
    unfolding store_inv_def by (rule st_ok_top [OF st_ok_lose [OF D'(2)]])
  moreover have "e \<noteq> EIO \<longrightarrow> X \<union> holds L = X" using D'(3) by (auto simp: holds_def)
  ultimately show ?thesis using D'(1,4) pg by (auto simp: alone.err_ok_def)
qed

lemma load_range_single:
  assumes "store_inv en mem X w" "off + n \<le> g_nblocks en * CBLK_SIZE" "off + n < 2 ^ 64"
    and lr: "load_range en off n w = (e, bs, w')"
  shows "store_inv en mem X w' \<and> (\<forall>b < g_nblocks en. page_at en mem w' b = page_at en mem w b) \<and>
    (e = 0 \<and> bs = map (disk en mem w) [off..<off + n] \<or> e = EIO \<and> \<not> faultless en)"
proof -
  let ?A = "\<lambda>b. {page_at en mem w b}"
  have ok: "ok ?A [] w" using assms(1) st_ok_pages by (simp add: store_inv_def)
  note l = alone.load_range_ok [OF ok stab_any assms(2,3) lr]
  have "bs = map (disk en mem w) [off..<off + n]" if "e = 0"
    using l(3) [OF that] by (auto simp: reads_def disk_def intro!: nth_equalityI)
  then show ?thesis using l(1,2) st_ok_top st_ok_page_at(1) [OF l(1)] by (auto simp: store_inv_def)
qed

lemma trim_range_single:
  assumes "store_inv en mem X w" "off + len \<le> g_nblocks en * CBLK_SIZE" "off + len + CBLK_SIZE \<le> 2 ^ 64"
  shows "store_inv en mem X (trim_range en off len w) \<and>
    (\<forall>b < g_nblocks en. page_at en mem (trim_range en off len w) b =
       (if off \<le> b * CBLK_SIZE \<and> (b + 1) * CBLK_SIZE \<le> off + len then zero_page else page_at en mem w b))"
proof -
  let ?D = "page_at en mem w"
  let ?Z = "\<lambda>b. if off \<le> b * CBLK_SIZE \<and> (b + 1) * CBLK_SIZE \<le> off + len then zero_page else ?D b"
  let ?bs = "[u64 (off + CBLK_SIZE - 1) div 2 ^ CBLK_SHIFT..<
      (if u64 (off + len) div 2 ^ CBLK_SHIFT > g_nblocks en then g_nblocks en else u64 (off + len) div 2 ^ CBLK_SHIFT)]"
  have ok: "ok (\<lambda>b. {?D b}) [] w" using assms(1) st_ok_pages by (simp add: store_inv_def)
  have tr: "trim_range en off len w = fold (trim_block en) ?bs w" unfolding trim_range_def Let_def by simp
  have "ok (\<lambda>b. if b \<in> UNIV \<and> b \<in> set ?bs then {zero_page} else {?D b}) [] (fold (trim_block en) ?bs w)"
    by (rule alone.trim_blocks_ok [OF ok stab_any]) (auto split: if_splits)
  moreover have "(\<lambda>b. if b \<in> UNIV \<and> b \<in> set ?bs then {zero_page} else {?D b}) = (\<lambda>b. {?Z b})"
    unfolding trim_bounds [OF assms(2,3)] by (simp add: fun_eq_iff)
  ultimately have ok': "ok (\<lambda>b. {?Z b}) [] (trim_range en off len w)" unfolding tr by simp
  then show ?thesis using st_ok_top st_ok_page_at(1) [OF ok'] by (auto simp: store_inv_def)
qed

end

end
