(* ===== verification/Store_Setup.thy ===== *)
theory Store_Setup
  imports Store_Image
begin

text \<open>
  Setting the block store up and tearing it down: @store_init@ maps the index, builds the
  allocator and leaves every block unwritten; @store_fini@ gives the memory back. Whether
  mmap and the two callocs succeed is the record @host_mem@.
\<close>

section \<open>Setup and release\<close>

record host_mem =
  mmap_ok :: "nat \<Rightarrow> bool"
  calloc_ext_ok :: bool
  calloc_bm_ok :: bool

text \<open>The pointers @g_index@ (with the size it was mapped with), @g_ext@ and @g_extbm@, when not NULL.\<close>

record store_ptrs =
  p_index :: "nat option"
  p_ext :: bool
  p_extbm :: bool

datatype release = Munmap nat | Free_Ext | Free_Extbm

definition no_ptrs :: store_ptrs where
  "no_ptrs = \<lparr>p_index = None, p_ext = False, p_extbm = False\<rparr>"

definition idx_sz :: "'d env \<Rightarrow> nat" where
  "idx_sz en = u64 (g_nblocks en * 8)"

definition world_boot :: "'d env \<Rightarrow> heap \<Rightarrow> 'd \<Rightarrow> 'd world" where
  "world_boot en h d =
     \<lparr>w_heap = h, g_index = replicate (g_nblocks en) 0, w_dev = d, g_blocks_live = 0, g_codec_bytes = 0,
      g_raw_blocks = 0, g_enospc = 0, g_trim_blocks = 0, g_read_retry = 0, w_tick = 0\<rparr>"

text \<open>@None@ is the return value -1; the pointers are what is allocated by then.\<close>

definition store_init :: "'d env \<Rightarrow> host_mem \<Rightarrow> 'd \<Rightarrow> store_ptrs \<times> 'd world option" where
  "store_init en hm d =
     (if \<not> mmap_ok hm (idx_sz en) then (no_ptrs, None)
      else let ptrs = no_ptrs\<lparr>p_index := Some (idx_sz en)\<rparr>
           in case heap_init (en_ext_shift en) (g_vram_size en) of
                None \<Rightarrow> (ptrs, None)
              | Some h \<Rightarrow>
                  let ptrs1 = ptrs\<lparr>p_ext := calloc_ext_ok hm, p_extbm := calloc_bm_ok hm\<rparr>
                  in if \<not> calloc_ext_ok hm \<or> \<not> calloc_bm_ok hm then (ptrs1, None)
                     else (ptrs1, Some (world_boot en h d)))"

definition store_fini :: "'d env \<Rightarrow> store_ptrs \<Rightarrow> release list \<times> store_ptrs" where
  "store_fini en ptrs =
     ((if p_index ptrs \<noteq> None then [Munmap (idx_sz en)] else []) @
      (if p_ext ptrs then [Free_Ext] else []) @ (if p_extbm ptrs then [Free_Extbm] else []), no_ptrs)"

section \<open>The initial image\<close>

lemma boot_unwritten: "written (world_boot en h d) = {}" "live_grains (world_boot en h d) = {}"
proof -
  show "written (world_boot en h d) = {}" by (auto simp: written_def world_boot_def clen_of_def ent_clen_def)
  then show "live_grains (world_boot en h d) = {}" by (simp add: live_grains_def)
qed

lemma boot_content: "b < g_nblocks en \<Longrightarrow> block_content en mem (world_boot en h d) b = Some zero_page"
  by (simp add: block_content_def world_boot_def clen_of_def ent_clen_def)

lemma boot_inv:
  assumes "heap_inv h" "heap_map h = Map.empty" "heap_geom h = (en_ext_shift en, g_vram_size en div 2 ^ en_ext_shift en)"
  shows "store_inv en mem {} (world_boot en h d)"
proof -
  have f: "w_heap (world_boot en h d) = h" "length (g_index (world_boot en h d)) = g_nblocks en"
    by (simp_all add: world_boot_def)
  have "store_wf en (world_boot en h d)" using assms f by (simp add: store_wf_def boot_unwritten)
  moreover have "tight (\<lambda>_. {}) [] (world_boot en h d)" using assms(2) f by (simp add: tight_def boot_unwritten holds_def)
  moreover have "pages_in en mem (\<lambda>_. UNIV) (world_boot en h d)"
    by (simp add: pages_in_def boot_content zero_page_def)
  ultimately show ?thesis by (simp add: store_inv_def st_ok_def)
qed

text \<open>The sizes main settles on and the build's extent size let setup succeed.\<close>

definition store_sizes :: "'d env \<Rightarrow> bool" where
  "store_sizes en \<longleftrightarrow> 12 \<le> en_ext_shift en \<and> en_ext_shift en \<le> 20 \<and> 2 ^ en_ext_shift en \<le> g_vram_size en \<and>
     g_vram_size en div ALLOC_GRAIN < 2 ^ 30"

lemma store_init_success:
  assumes "store_sizes en" "mmap_ok hm (idx_sz en)" "calloc_ext_ok hm" "calloc_bm_ok hm"
  obtains h where "store_init en hm d = (\<lparr>p_index = Some (idx_sz en), p_ext = True, p_extbm = True\<rparr>, Some (world_boot en h d))"
    "store_inv en mem {} (world_boot en h d)" "g_n_extents h = g_vram_size en div 2 ^ en_ext_shift en"
proof -
  obtain h where h: "heap_init (en_ext_shift en) (g_vram_size en) = Some h" "heap_inv h" "heap_map h = Map.empty"
      "ext_shift h = en_ext_shift en" "g_n_extents h = g_vram_size en div 2 ^ en_ext_shift en"
    using assms(1) heap_init_success [of "en_ext_shift en" "g_vram_size en"] by (auto simp: store_sizes_def ALLOC_GRAIN_def)
  show thesis
    by (rule that [of h]) (use h assms(2-4) boot_inv [OF h(2,3), of en] in \<open>simp_all add: store_init_def no_ptrs_def heap_geom_def\<close>)
qed

end
