(* ===== verification/Store_Properties.thy ===== *)
theory Store_Properties
  imports Store_Setup
begin

text \<open>
  The block store as a disk: what a fresh store holds, what reading, writing and trimming a
  byte range do to the image, which errors they report, and that with room nothing is refused.
  One worker runs at a time here; @Store_Rival@ has others beside it.
\<close>

section \<open>What the store relies on\<close>

text \<open>
  The driver keeps the promises of @cuda_sync@ on the allocation, the codec library its
  documented one, the allocation is in the device's address space and the sizes are 64-bit.
\<close>

definition store_env :: "'d env \<Rightarrow> ('d \<Rightarrow> nat \<Rightarrow> byte) \<Rightarrow> bool" where
  "store_env en mem \<longleftrightarrow>
     cuda_sync (en_cuda en) mem (g_vram_ptr en) (g_vram_ptr en + g_vram_size en) \<and>
     codec_lib_ok (en_lib en) \<and> g_vram_ptr en + g_vram_size en \<le> 2 ^ 64 \<and> g_disk_size en < 2 ^ 64"

lemma single_workerI: "store_env en mem \<Longrightarrow> quiet en \<Longrightarrow> single_worker en mem"
  by (simp add: store_env_def single_worker_def single_worker_axioms_def store_driver_def)

lemma disk_bytes_64: "store_env en mem \<Longrightarrow> n \<le> g_nblocks en * CBLK_SIZE \<Longrightarrow> n < 2 ^ 64"
proof -
  assume e: "store_env en mem" and n: "n \<le> g_nblocks en * CBLK_SIZE"
  note n
  also have "g_nblocks en * CBLK_SIZE \<le> g_disk_size en" by (simp add: g_nblocks_def)
  also have "g_disk_size en < 2 ^ 64" using e by (simp add: store_env_def)
  finally show "n < 2 ^ 64" .
qed

text \<open>A concrete store: the test stub, a codec that packs runs, 64 KiB of VRAM, two blocks.\<close>

definition demo :: "(nat \<Rightarrow> byte) env" where
  "demo = \<lparr>en_cuda = fakecuda, en_lib = run_codec,
     en_codec = \<lparr>g_codec = CODEC_ZSTD, g_zstd_level = 1, g_static_ctx = False\<rparr>, en_cc = plain_ctx, en_ext_shift = 14,
     g_vram_ptr = 65536, g_vram_size = 65536, g_disk_size = 8192, g_batch_depth = 32, others = \<lambda>k held w. w\<rparr>"

definition demo_host :: host_mem where
  "demo_host = \<lparr>mmap_ok = \<lambda>n. 0 < n, calloc_ext_ok = True, calloc_bm_ok = True\<rparr>"

definition demo_world :: "(nat \<Rightarrow> byte) world" where
  "demo_world = the (snd (store_init demo demo_host (\<lambda>_. 170)))"

lemma demo_fields [simp]:
  "en_cuda demo = fakecuda" "en_lib demo = run_codec" "g_vram_ptr demo = 65536" "g_vram_size demo = 65536"
  "g_disk_size demo = 8192" "en_ext_shift demo = 14" "g_nblocks demo = 2"
  by (simp_all add: demo_def g_nblocks_def)

lemma demo_env: "store_env demo (\<lambda>m. m)" "quiet demo" "faultless demo" "store_sizes demo"
  using fake.cuda_sync_axioms run_codec_ok
  by (simp_all add: store_env_def faultless_def store_sizes_def ALLOC_GRAIN_def)
    (simp_all add: quiet_def demo_def fakecuda_def fake_HtoD_def fake_DtoH_def CUDA_SUCCESS_def)

lemma demo_host_ok: "mmap_ok demo_host (idx_sz demo)" "calloc_ext_ok demo_host" "calloc_bm_ok demo_host"
  by (simp_all add: demo_host_def idx_sz_def u64_def)

text \<open>With two extents for every block a worker that runs alone never runs out of slots.\<close>

context single_worker
begin

lemma store_range_roomy:
  assumes "faultless en" "store_inv en mem X w" "finite X"
    and "2 * g_nblocks en + card X \<le> g_vram_size en div 2 ^ en_ext_shift en"
    and "src \<noteq> []" "off + length src \<le> g_nblocks en * CBLK_SIZE" "off + length src < 2 ^ 64"
  shows "fst (store_range en off src w) = 0"
proof -
  obtain e w' where r: "store_range en off src w = (e, w')" by fastforce
  have "alone.roomy (g_nblocks en)" by (rule alone.roomyI) (use assms(3,4) in auto)
  with store_range_single [OF assms(2,5-7) r] assms(1) r show ?thesis by auto
qed

end

interpretation demo: single_worker demo "\<lambda>m. m" X for X
  by (rule single_workerI [OF demo_env(1,2)])

lemma demo_world: "store_inv demo (\<lambda>m. m) {} demo_world"
  by (rule store_init_success [OF demo_env(4) demo_host_ok, of "\<lambda>_. 170" "\<lambda>m. m"]) (simp add: demo_world_def)

section \<open>One worker\<close>

lemma page_disk:
  assumes "page_at en mem w' (x div CBLK_SIZE) = patch off src (page_at en mem w) (x div CBLK_SIZE)"
  shows "disk en mem w' x = (if off \<le> x \<and> x < off + length src then src ! (x - off) else disk en mem w x)"
proof -
  have "x div CBLK_SIZE * CBLK_SIZE + x mod CBLK_SIZE = x" by simp
  then show ?thesis unfolding disk_def assms by (simp add: patch_nth)
qed

lemma block_lt: "x < n * CBLK_SIZE \<Longrightarrow> x div CBLK_SIZE < n"
  by (simp add: less_mult_imp_div_less)

lemma store_init_fresh:
  assumes "store_sizes en" "store_init en hm d = (ptrs, Some w)" "x < g_nblocks en * CBLK_SIZE"
  shows "store_inv en mem {} w \<and> disk en mem w x = 0"
proof -
  have ok: "mmap_ok hm (idx_sz en)" "calloc_ext_ok hm" "calloc_bm_ok hm"
    using assms(2) by (auto simp: store_init_def Let_def split: if_splits option.splits)
  obtain h where h: "w = world_boot en h d" "store_inv en mem {} (world_boot en h d)"
    by (rule store_init_success [OF assms(1) ok, of d mem]) (use assms(2) in auto)
  have "page_at en mem w (x div CBLK_SIZE) = zero_page"
    using boot_content [OF block_lt [OF assms(3)]] by (simp add: page_at_def h(1))
  then show ?thesis using h by (simp add: disk_def zero_page_def)
qed

text \<open>
  A store that was just set up satisfies the store invariant and reads as zeros, whatever
  bytes the device memory held before.
\<close>

theorem store_init_reads_zero:
  assumes "store_sizes en" "store_init en hm d = (ptrs, Some w)" "x < g_nblocks en * CBLK_SIZE"
  shows "store_inv en mem {} w \<and> disk en mem w x = 0"
  by (rule store_init_fresh [OF assms])

theorem store_init_reads_zero_witness:
  "store_inv demo (\<lambda>m. m) {} demo_world \<and> disk demo (\<lambda>m. m) demo_world 5000 = 0"
proof -
  obtain h where "store_init demo demo_host (\<lambda>_. 170) =
      (\<lparr>p_index = Some (idx_sz demo), p_ext = True, p_extbm = True\<rparr>, Some (world_boot demo h (\<lambda>_. 170)))"
    by (rule store_init_success [OF demo_env(4) demo_host_ok])
  then have "store_init demo demo_host (\<lambda>_. 170) = (\<lparr>p_index = Some (idx_sz demo), p_ext = True, p_extbm = True\<rparr>, Some demo_world)"
    by (simp add: demo_world_def)
  from store_init_reads_zero [OF demo_env(4) this, of 5000 "\<lambda>m. m"] show ?thesis by simp
qed

text \<open>
  C2. Writing a byte range. With no error exactly the bytes of the range change, to the bytes
  given, and every slot is still accounted for. The only errors are ENOSPC and, when the
  driver refuses a copy, EIO; then every block holds its old page or the page with the new
  bytes, never a mixture, and slots are lost only after EIO.
\<close>

theorem store_range_writes:
  assumes "store_env en mem" "quiet en" "store_inv en mem X w" "src \<noteq> []"
    and "off + length src \<le> g_nblocks en * CBLK_SIZE" "store_range en off src w = (e, w')"
  shows "(e = 0 \<or> e = ENOSPC \<or> e = EIO \<and> \<not> faultless en) \<and>
    (\<exists>X'. store_inv en mem X' w' \<and> X \<subseteq> X' \<and> (e \<noteq> EIO \<longrightarrow> X' = X)) \<and>
    (e = 0 \<longrightarrow> (\<forall>x < g_nblocks en * CBLK_SIZE. disk en mem w' x =
       (if off \<le> x \<and> x < off + length src then src ! (x - off) else disk en mem w x))) \<and>
    (\<forall>b < g_nblocks en. page_at en mem w' b = page_at en mem w b \<or>
       page_at en mem w' b = patch off src (page_at en mem w) b)"
  using single_worker.store_range_single [OF single_workerI [OF assms(1,2)] assms(3-5) disk_bytes_64 [OF assms(1,5)] assms(6)]
    page_disk block_lt by blast

theorem store_range_writes_witness:
  "\<exists>w'. store_range demo 4095 [1, 2] demo_world = (0, w') \<and> disk demo (\<lambda>m. m) w' 4096 = 2"
proof -
  obtain e w' where r: "store_range demo 4095 [1, 2] demo_world = (e, w')" by fastforce
  have "e = 0" using demo.store_range_roomy [OF demo_env(3) demo_world, of "[1, 2]" 4095] r by simp
  moreover from store_range_writes [OF demo_env(1,2) demo_world _ _ r] this
  have "disk demo (\<lambda>m. m) w' 4096 = 2" by simp
  ultimately show ?thesis using r by blast
qed

text \<open>
  C25. Writing succeeds when there is room: with a driver that accepts every copy, and at least
  two extents for each block of the device besides those held by lost slots, a write inside the
  device reports no error.
\<close>

theorem store_range_succeeds:
  assumes "store_env en mem" "quiet en" "faultless en" "store_inv en mem X w" "finite X"
    and "2 * g_nblocks en + card X \<le> g_vram_size en div 2 ^ en_ext_shift en"
    and "src \<noteq> []" "off + length src \<le> g_nblocks en * CBLK_SIZE"
  shows "fst (store_range en off src w) = 0"
  by (rule single_worker.store_range_roomy [OF single_workerI [OF assms(1,2)] assms(3-8) disk_bytes_64 [OF assms(1,8)]])

theorem store_range_succeeds_witness: "fst (store_range demo 10 (replicate 8000 9) demo_world) = 0"
  by (rule store_range_succeeds [OF demo_env(1-3) demo_world]) simp_all

text \<open>
  C8. Reading a byte range returns the bytes of the image and changes no block; the only error is
  EIO, when the driver refuses a copy.
\<close>

theorem load_range_reads:
  assumes "store_env en mem" "quiet en" "store_inv en mem X w" "off + n \<le> g_nblocks en * CBLK_SIZE"
    and "load_range en off n w = (e, bs, w')"
  shows "(e = 0 \<and> bs = map (disk en mem w) [off..<off + n] \<or> e = EIO \<and> \<not> faultless en) \<and> store_inv en mem X w' \<and>
    (\<forall>x < g_nblocks en * CBLK_SIZE. disk en mem w' x = disk en mem w x)"
  using single_worker.load_range_single [OF single_workerI [OF assms(1,2)] assms(3,4) disk_bytes_64 [OF assms(1,4)] assms(5)]
    block_lt by (simp add: disk_def)

theorem load_range_reads_witness:
  "\<exists>w'. load_range demo 100 3 demo_world = (0, map (disk demo (\<lambda>m. m) demo_world) [100..<103], w')"
proof -
  obtain e bs w' where r: "load_range demo 100 3 demo_world = (e, bs, w')" by (metis prod_cases3)
  from load_range_reads [OF demo_env(1,2) demo_world _ r] demo_env(3) r show ?thesis by auto
qed

text \<open>
  C7. What a successful write stores, a read of the same range returns, whatever the alignment
  and the sizes of the pages' compressed forms.
\<close>

theorem store_load_roundtrip:
  assumes "store_env en mem" "quiet en" "faultless en" "store_inv en mem X w" "src \<noteq> []"
    and "off + length src \<le> g_nblocks en * CBLK_SIZE" "store_range en off src w = (0, w')"
  shows "\<exists>w''. load_range en off (length src) w' = (0, src, w'')"
proof -
  obtain e bs w'' where r: "load_range en off (length src) w' = (e, bs, w'')" by (metis prod_cases3)
  note w = single_worker.store_range_single [OF single_workerI [OF assms(1,2)] assms(4-6) disk_bytes_64 [OF assms(1,6)] assms(7)]
  then have "store_inv en mem X w'" by auto
  from single_worker.load_range_single [OF single_workerI [OF assms(1,2)] this assms(6) disk_bytes_64 [OF assms(1,6)] r]
  have "e = 0" "bs = map (disk en mem w') [off..<off + length src]" using assms(3) by auto
  moreover have "map (disk en mem w') [off..<off + length src] = src"
  proof (rule nth_equalityI)
    fix i assume i: "i < length (map (disk en mem w') [off..<off + length src])"
    then have "(off + i) div CBLK_SIZE < g_nblocks en" using assms(6) by (intro block_lt) simp
    with w page_disk [of en mem w' "off + i" off src w] i
    show "map (disk en mem w') [off..<off + length src] ! i = src ! i" by simp
  qed simp
  ultimately show ?thesis using r by simp
qed

theorem store_load_roundtrip_witness:
  "\<exists>w' w''. store_range demo 4090 [1, 2, 3, 4, 5, 6, 7, 8] demo_world = (0, w') \<and>
     load_range demo 4090 8 w' = (0, [1, 2, 3, 4, 5, 6, 7, 8], w'')"
proof -
  obtain e w' where r: "store_range demo 4090 [1, 2, 3, 4, 5, 6, 7, 8] demo_world = (e, w')" by fastforce
  have "e = 0" using demo.store_range_roomy [OF demo_env(3) demo_world, of "[1, 2, 3, 4, 5, 6, 7, 8]" 4090] r by simp
  have len: "length [1, 2, 3, 4, 5, 6, 7, 8 :: byte] = 8" by simp
  from store_load_roundtrip [OF demo_env(1-3) demo_world _ _ r [unfolded \<open>e = 0\<close>]]
  have "\<exists>w''. load_range demo 4090 8 w' = (0, [1, 2, 3, 4, 5, 6, 7, 8], w'')" unfolding len by simp
  with r \<open>e = 0\<close> show ?thesis by auto
qed

text \<open>
  C22. TRIM zeroes exactly the blocks that lie wholly inside its range, leaves every other block as
  it was, and loses no slot.
\<close>

theorem trim_range_zeroes:
  assumes "store_env en mem" "quiet en" "store_inv en mem X w"
    and "off + len \<le> g_nblocks en * CBLK_SIZE" "off + len + CBLK_SIZE \<le> 2 ^ 64" "x < g_nblocks en * CBLK_SIZE"
  shows "store_inv en mem X (trim_range en off len w) \<and>
    disk en mem (trim_range en off len w) x =
      (if off \<le> x div CBLK_SIZE * CBLK_SIZE \<and> (x div CBLK_SIZE + 1) * CBLK_SIZE \<le> off + len then 0
       else disk en mem w x)"
  using single_worker.trim_range_single [OF single_workerI [OF assms(1,2)] assms(3-5)] block_lt [OF assms(6)]
  by (simp add: disk_def zero_page_def)

theorem trim_range_zeroes_witness:
  "store_inv demo (\<lambda>m. m) {} (trim_range demo 1 8191 demo_world) \<and>
   disk demo (\<lambda>m. m) (trim_range demo 1 8191 demo_world) 4096 = 0 \<and>
   disk demo (\<lambda>m. m) (trim_range demo 1 8191 demo_world) 7 = disk demo (\<lambda>m. m) demo_world 7"
  using trim_range_zeroes [OF demo_env(1,2) demo_world, of 1 8191 4096]
    trim_range_zeroes [OF demo_env(1,2) demo_world, of 1 8191 7] by simp

end
