(* ===== verification/Store_Rival.thy ===== *)
theory Store_Rival
  imports Store_Properties
begin

text \<open>
  Any number of workers on one store. At any moments, between any two accesses of this worker to
  shared state, the others write into blocks or discard them, each operation run to its end, unless this
  worker holds the lock of the block's stripe. The theory shows that such workers meet what @shared_store@
  relies on, for fewer than 2^21 operations, and states
  what a reader and a writer then see: no torn page, no page of another block, no lost write.
\<close>

section \<open>The index under one worker\<close>

context single_worker
begin

lemma quiet_index [store_simps]:
  "g_index (yield en held w) = g_index w" "g_index (snd (alloc_slot en held n w)) = g_index w"
  "g_index (free_slot en held g w) = g_index w" "g_index (snd (copy_in en held g bs w)) = g_index w"
  "g_index (snd (snd (copy_out en held g n w))) = g_index w" "g_index (sync en held w) = g_index w"
  by (simp_all add: yield_quiet [OF quiet] alloc_slot_def free_slot_def copy_in_def copy_out_def sync_def Let_def case_prod_unfold)

lemma displace_index [store_simps]: "g_index (displace en held old clen w) = g_index w"
  by (simp add: displace_def release_old_def Let_def store_simps)

lemma quiet_heap [store_simps]:
  "w_heap (yield en held w) = w_heap w" "w_heap (sync en held w) = w_heap w" "w_heap (snd (snd (copy_out en held g n w))) = w_heap w"
  by (simp_all add: yield_quiet [OF quiet] copy_out_def sync_def Let_def case_prod_unfold)

lemma fetch_locked_quiet [store_simps]:
  "g_index (snd (fetch_locked en b e w)) = g_index w" "w_heap (snd (fetch_locked en b e w)) = w_heap w"
  by (simp_all add: fetch_locked_def Let_def case_prod_unfold store_simps)

text \<open>A read-modify-write publishes its block once, or leaves the index as it is.\<close>

lemma rmw_block_index:
  assumes "ok A R w" "rmw_block en b boff src w = (e, w')"
  shows "g_index w' = g_index w \<or>
    (\<exists>g n. g < 2 ^ 30 \<and> n < 2 ^ 13 \<and> g_index w' = (g_index w)[b := ent_publish (g, n) (g_index w ! b)])"
proof -
  let ?w = "yield en None w"
  obtain po w2 where f: "fetch_locked en b (g_index w ! b) ?w = (po, w2)" by fastforce
  have w2: "g_index w2 = g_index w" "w_heap w2 = w_heap w"
    using fetch_locked_quiet [of b "g_index w ! b" ?w] f by (simp_all add: store_simps)
  show ?thesis
  proof (cases po)
    case None
    then show ?thesis using assms(2) f w2 by (simp add: rmw_block_def idx_load_def Let_def store_simps)
  next
    case (Some page)
    obtain n slot where cb: "comp_block (en_lib en) (en_codec en) (en_cc en) (overlay page boff src) = (n, slot)" by fastforce
    obtain g w3 where al: "alloc_slot en (Some (IDXL b)) n w2 = (g, w3)" by fastforce
    note n = comp_block_length [OF cb]
    have w3: "g_index w3 = g_index w" using quiet_index(2) [of "Some (IDXL b)" n w2] al w2(1) by simp
    have g: "g < 2 ^ 30" if "g \<noteq> SLOT_NONE"
    proof -
      have inv: "heap_inv (w_heap w)" using st_okD(1) [OF assms(1)] by (simp add: store_wf_def)
      obtain sb h where sa: "slot_alloc n (w_heap w) = (g, sb, h)"
        using al w2(2) by (auto simp: alloc_slot_def store_simps Let_def split: prod.splits)
      note s = slab.alloc_some [OF inv n(1) _ sa that]
      have "heap_inv h" "heap_map h g = Some sb" using s n(2) by auto
      then show ?thesis using slab.resv_bounds by blast
    qed
    then have "g_index w' = g_index w \<or> g \<noteq> SLOT_NONE \<and> g_index w' = (g_index w)[b := ent_publish (g, n) (g_index w ! b)]"
      using assms(2) Some w3
      by (auto simp: rmw_block_def note_enospc_def idx_load_def f cb al Let_def case_prod_unfold store_simps split: if_splits)
    moreover have "n < 2 ^ 13" using n(2) by simp
    ultimately show ?thesis using g by blast
  qed
qed

text \<open>So does the discarding of a block.\<close>

lemma trim_block_index:
  "g_index (trim_block en b w) = g_index w \<or> g_index (trim_block en b w) = (g_index w)[b := ent_publish (0, 0) (g_index w ! b)]"
  by (simp add: trim_block_def release_old_def idx_publish_def idx_load_def Let_def store_simps)

end

section \<open>The other workers\<close>

text \<open>What another worker does to a block: a write of some of its bytes, or a discard.\<close>

datatype rop = RWrite nat nat "byte list" | RTrim nat

fun rop_block :: "rop \<Rightarrow> nat" where
  "rop_block (RWrite c boff src) = c"
| "rop_block (RTrim c) = c"

fun rop_ok :: "nat \<Rightarrow> rop \<Rightarrow> bool" where
  "rop_ok n (RWrite c boff src) = (c < n \<and> boff + length src \<le> CBLK_SIZE)"
| "rop_ok n (RTrim c) = (c < n)"

fun rop_page :: "rop \<Rightarrow> byte list \<Rightarrow> byte list" where
  "rop_page (RWrite c boff src) p = overlay p boff src"
| "rop_page (RTrim c) p = zero_page"

fun rop_run :: "'d env \<Rightarrow> rop \<Rightarrow> 'd world \<Rightarrow> 'd world" where
  "rop_run en (RWrite c boff src) w = snd (rmw_block en c boff src w)"
| "rop_run en (RTrim c) w = trim_block en c w"

text \<open>@plan t@ is what the others do at moment @t@, one operation after the other; the lock of a stripe keeps them off its blocks.\<close>

definition rival :: "'d env \<Rightarrow> nat option \<Rightarrow> rop \<Rightarrow> 'd world \<Rightarrow> 'd world" where
  "rival en held rp w = (if held = Some (IDXL (rop_block rp)) then w else rop_run en rp w)"

definition beside :: "'d env \<Rightarrow> (nat \<Rightarrow> rop list) \<Rightarrow> 'd env" where
  "beside en plan = en\<lparr>others := (\<lambda>t held. fold (rival en held) (plan t))\<rparr>"

definition planned :: "(nat \<Rightarrow> rop list) \<Rightarrow> rop set" where
  "planned plan = (\<Union>t. set (plan t))"

definition busy :: "(nat \<Rightarrow> rop list) \<Rightarrow> nat set" where
  "busy plan = rop_block ` planned plan"

definition moments :: "(nat \<Rightarrow> rop list) \<Rightarrow> nat \<Rightarrow> nat \<Rightarrow> nat" where
  "moments plan i j = (\<Sum>t \<in> {i..<j}. length (plan t))"

lemma moments_add: "i \<le> j \<Longrightarrow> j \<le> k \<Longrightarrow> moments plan i j + moments plan j k = moments plan i k"
  unfolding moments_def by (rule sum.atLeastLessThan_concat)

text \<open>The pages block @b@ may come to have when it starts as @p@: what any of the planned operations on it make of each other's results.\<close>

inductive_set pages_by :: "rop set \<Rightarrow> nat \<Rightarrow> byte list \<Rightarrow> byte list set" for W b p where
  own: "p \<in> pages_by W b p"
| step: "q \<in> pages_by W b p \<Longrightarrow> rp \<in> W \<Longrightarrow> rop_block rp = b \<Longrightarrow> rop_page rp q \<in> pages_by W b p"

lemma pages_by_idle:
  assumes "b \<notin> rop_block ` W"
  shows "pages_by W b p = {p}"
proof -
  have "q = p" if "q \<in> pages_by W b p" for q using that assms by (induction rule: pages_by.induct) auto
  then show ?thesis by (auto intro: pages_by.own)
qed

text \<open>How an entry changes while the others run: by at most as many publishes as they had operations.\<close>

definition bumped :: "nat \<Rightarrow> 'd world \<Rightarrow> 'd world \<Rightarrow> nat \<Rightarrow> bool" where
  "bumped k w w' b \<longleftrightarrow> unat (ent_gen (g_index w' ! b)) = (unat (ent_gen (g_index w ! b)) + k) mod 2 ^ 21 \<and>
     (k = 0 \<longrightarrow> g_index w' ! b = g_index w ! b)"

definition drifts :: "nat \<Rightarrow> (nat \<Rightarrow> rop list) \<Rightarrow> 'd world \<Rightarrow> 'd world \<Rightarrow> bool" where
  "drifts n plan w w' \<longleftrightarrow> w_tick w \<le> w_tick w' \<and> (\<forall>b < n. \<exists>k \<le> moments plan (w_tick w) (w_tick w'). bumped k w w' b)"

lemma bumped_0: "g_index w' ! b = g_index w ! b \<Longrightarrow> bumped 0 w w' b"
  using unat_ent_gen_bound by (simp add: bumped_def)

lemma bumped_add: "bumped k w w' b \<Longrightarrow> bumped l w' w'' b \<Longrightarrow> bumped (k + l) w w'' b"
  by (auto simp: bumped_def mod_add_left_eq add.assoc)

lemma drifts_same: "g_index w' = g_index w \<Longrightarrow> w_tick w \<le> w_tick w' \<Longrightarrow> drifts n plan w w'"
  by (auto simp: drifts_def intro!: exI [of _ 0] bumped_0)

lemma drifts_trans:
  assumes "drifts n plan w w'" "drifts n plan w' w''"
  shows "drifts n plan w w''"
proof -
  have le: "w_tick w \<le> w_tick w'" "w_tick w' \<le> w_tick w''" using assms by (simp_all add: drifts_def)
  have "\<exists>k \<le> moments plan (w_tick w) (w_tick w''). bumped k w w'' b" if b: "b < n" for b
  proof -
    obtain k l where "k \<le> moments plan (w_tick w) (w_tick w')" "bumped k w w' b" "l \<le> moments plan (w_tick w') (w_tick w'')" "bumped l w' w'' b"
      using assms b unfolding drifts_def by blast
    then show ?thesis using moments_add [OF le, of plan] by (intro exI [of _ "k + l"]) (auto intro: bumped_add)
  qed
  then show ?thesis using le by (simp add: drifts_def)
qed

text \<open>The others have fewer operations in all than there are generations.\<close>

definition few :: "(nat \<Rightarrow> rop list) \<Rightarrow> bool" where
  "few plan \<longleftrightarrow> (\<forall>t. moments plan 0 t < 2 ^ 21)"

lemma drifts_no_return:
  assumes "few plan" "drifts n plan w0 w1" "drifts n plan w1 w2" "b < n" "g_index w2 ! b = g_index w0 ! b"
  shows "g_index w1 ! b = g_index w0 ! b"
proof -
  have le: "w_tick w0 \<le> w_tick w1" "w_tick w1 \<le> w_tick w2" using assms(2,3) by (simp_all add: drifts_def)
  obtain k l where k: "k \<le> moments plan (w_tick w0) (w_tick w1)" "bumped k w0 w1 b" "l \<le> moments plan (w_tick w1) (w_tick w2)" "bumped l w1 w2 b"
    using assms(2-4) unfolding drifts_def by blast
  have "moments plan 0 (w_tick w0) + moments plan (w_tick w0) (w_tick w2) < 2 ^ 21"
    using assms(1) moments_add [of 0 "w_tick w0" "w_tick w2" plan] le by (simp add: few_def)
  then have "k + l < 2 ^ 21" using k(1,3) moments_add [OF le, of plan] by linarith
  moreover have "unat (ent_gen (g_index w0 ! b)) = (unat (ent_gen (g_index w0 ! b)) + (k + l)) mod 2 ^ 21"
    using bumped_add [OF k(2,4)] assms(5) by (simp add: bumped_def)
  ultimately have "k + l = 0" using unat_ent_gen_bound by (intro mod_add_fixed)
  with k(2) show ?thesis by (simp add: bumped_def)
qed

section \<open>The others meet the contract\<close>

lemma st_ok_others: "st_ok (en\<lparr>others := f\<rparr>) = (st_ok en :: ('d \<Rightarrow> nat \<Rightarrow> byte) \<Rightarrow> _)"
proof -
  have nb: "g_nblocks (en\<lparr>others := f\<rparr>) = g_nblocks en" by (simp add: g_nblocks_def)
  have at: "slot_at (en\<lparr>others := f\<rparr>) = (slot_at en :: ('d \<Rightarrow> nat \<Rightarrow> byte) \<Rightarrow> _)"
    by (simp add: slot_at_def dev_at_def fun_eq_iff)
  have bc: "block_content (en\<lparr>others := f\<rparr>) = (block_content en :: ('d \<Rightarrow> nat \<Rightarrow> byte) \<Rightarrow> _)"
    by (simp add: block_content_def at Let_def fun_eq_iff)
  have wf: "store_wf (en\<lparr>others := f\<rparr>) = store_wf en" by (simp add: store_wf_def nb fun_eq_iff)
  have h: "hold_ok (en\<lparr>others := f\<rparr>) = (hold_ok en :: ('d \<Rightarrow> nat \<Rightarrow> byte) \<Rightarrow> _)" by (simp add: hold_ok_def at fun_eq_iff)
  have p: "pages_in (en\<lparr>others := f\<rparr>) = (pages_in en :: ('d \<Rightarrow> nat \<Rightarrow> byte) \<Rightarrow> _)" by (simp add: pages_in_def bc nb fun_eq_iff)
  show ?thesis by (simp add: st_ok_def wf h p fun_eq_iff)
qed

lemma beside_fields [simp]:
  "en_cuda (beside en plan) = en_cuda en" "en_lib (beside en plan) = en_lib en"
  "g_vram_ptr (beside en plan) = g_vram_ptr en" "g_vram_size (beside en plan) = g_vram_size en"
  "g_disk_size (beside en plan) = g_disk_size en" "g_nblocks (beside en plan) = g_nblocks en"
  by (simp_all add: beside_def g_nblocks_def)

lemma beside_st_ok: "st_ok (beside en plan) = (st_ok en :: ('d \<Rightarrow> nat \<Rightarrow> byte) \<Rightarrow> _)"
  unfolding beside_def by (rule st_ok_others)

lemma yield_beside: "yield (beside en plan) held w = (fold (rival en held) (plan (w_tick w)) w)\<lparr>w_tick := Suc (w_tick w)\<rparr>"
  by (simp add: yield_def beside_def)

context single_worker
begin

lemma ok_tick: "ok A R (w\<lparr>w_tick := t\<rparr>) = ok A R w"
  by (rule st_ok_cong) simp_all

text \<open>An operation turns one of the pages its block may have into the page it makes of it, or changes nothing.\<close>

lemma rop_run_ok:
  assumes "ok A R w" "rop_ok (g_nblocks en) rp"
  shows "(\<exists>q \<in> A (rop_block rp). ok (A(rop_block rp := {rop_page rp q})) R (rop_run en rp w)) \<or> ok A R (rop_run en rp w)"
proof (cases rp)
  case (RWrite c boff src)
  obtain e w' where r: "rmw_block en c boff src w = (e, w')" by fastforce
  from alone.rmw_block_ok [OF assms(1) stab_any _ _ _ r] show ?thesis
    using assms(2) RWrite r by (auto simp: alone.upd_def)
next
  case (RTrim c)
  then have c: "c < g_nblocks en" using assms(2) by simp
  obtain q where "q \<in> A c" using alone.pick_page [OF assms(1) c] by blast
  then show ?thesis using alone.trim_block_ok [OF assms(1) stab_any c] RTrim by (auto simp: alone.upd_def)
qed

lemma rop_run_index:
  assumes "ok A R w"
  shows "g_index (rop_run en rp w) = g_index w \<or>
    (\<exists>g n. g < 2 ^ 30 \<and> n < 2 ^ 13 \<and> g_index (rop_run en rp w) = (g_index w)[rop_block rp := ent_publish (g, n) (g_index w ! rop_block rp)])"
proof (cases rp)
  case (RWrite c boff src)
  obtain e w' where r: "rmw_block en c boff src w = (e, w')" by fastforce
  from rmw_block_index [OF assms r] show ?thesis by (simp add: RWrite r)
next
  case (RTrim c)
  from trim_block_index [of c w] show ?thesis unfolding RTrim rop_run.simps rop_block.simps by (meson zero_less_numeral zero_less_power)
qed

lemma rivals_rely:
  assumes W: "\<forall>rp \<in> planned plan. rop_ok (g_nblocks en) rp"
    and st: "stable (- busy plan) (\<lambda>b. pages_by (planned plan) b (D b)) held A" and ops: "set ops \<subseteq> planned plan" and ok: "ok A R w"
  shows "ok A R (fold (rival en held) ops w)"
  using ops ok
proof (induction ops arbitrary: w)
  case (Cons rp ops)
  let ?c = "rop_block rp"
  have rp: "rp \<in> planned plan" "rop_ok (g_nblocks en) rp" using Cons.prems(1) W by auto
  have "ok A R (rival en held rp w)"
  proof (cases "held = Some (IDXL ?c)")
    case False
    have Ac: "A ?c = pages_by (planned plan) ?c (D ?c)" using st False rp(1) by (auto simp: stable_def holds_lock_def busy_def)
    from rop_run_ok [OF Cons.prems(2) rp(2)] have "ok A R (rop_run en rp w)"
    proof
      assume "\<exists>q \<in> A ?c. ok (A(?c := {rop_page rp q})) R (rop_run en rp w)"
      then obtain q where q: "q \<in> A ?c" "ok (A(?c := {rop_page rp q})) R (rop_run en rp w)" by blast
      then have "rop_page rp q \<in> A ?c" using Ac rp(1) by (auto intro: pages_by.step)
      with q(2) show ?thesis by (rule alone.unpick_page)
    qed
    then show ?thesis using False by (simp add: rival_def)
  qed (use Cons.prems(2) in \<open>simp add: rival_def\<close>)
  then show ?case using Cons by simp
qed simp

lemma rivals_index:
  assumes W: "\<forall>rp \<in> set ops. rop_ok (g_nblocks en) rp" and ok: "ok A R w" and b: "b < g_nblocks en"
  shows "\<exists>k \<le> length ops. bumped k w (fold (rival en held) ops w) b"
    "held = Some (IDXL b) \<Longrightarrow> g_index (fold (rival en held) ops w) ! b = g_index w ! b"
proof -
  have "(\<exists>k \<le> length ops. bumped k w (fold (rival en held) ops w) b) \<and>
      (held = Some (IDXL b) \<longrightarrow> g_index (fold (rival en held) ops w) ! b = g_index w ! b)"
    using W ok
  proof (induction ops arbitrary: w A)
    case Nil
    then show ?case by (auto intro: bumped_0)
  next
    case (Cons rp ops)
    let ?c = "rop_block rp" and ?w = "rival en held rp w"
    have len: "length (g_index w) = g_nblocks en" using st_okD(1) [OF Cons.prems(2)] by (simp add: store_wf_def)
    have "(\<exists>A'. ok A' R ?w) \<and> (\<exists>k \<le> 1. bumped k w ?w b) \<and> (held = Some (IDXL b) \<longrightarrow> g_index ?w ! b = g_index w ! b)"
    proof (cases "held = Some (IDXL ?c)")
      case True
      then show ?thesis using Cons.prems(2) by (auto simp: rival_def intro!: exI [of _ 0] bumped_0)
    next
      case False
      then have r: "?w = rop_run en rp w" by (simp add: rival_def)
      have "\<exists>A'. ok A' R ?w" using rop_run_ok [OF Cons.prems(2), of rp] Cons.prems(1) r by auto
      moreover have "\<exists>k \<le> 1. bumped k w ?w b"
      proof (cases "g_index ?w ! b = g_index w ! b")
        case False
        then obtain g n where g: "g < 2 ^ 30" "n < 2 ^ 13" "g_index ?w = (g_index w)[?c := ent_publish (g, n) (g_index w ! ?c)]" "b = ?c"
          using rop_run_index [OF Cons.prems(2), of rp] r by (metis nth_list_update_neq)
        then have "bumped 1 w ?w b" using ent_publish_fields(3) [OF g(1,2)] len b by (simp add: bumped_def)
        then show ?thesis by blast
      qed (auto intro: bumped_0)
      moreover have "g_index ?w ! b = g_index w ! b" if "held = Some (IDXL b)"
        using rop_run_index [OF Cons.prems(2), of rp] r that False by (metis nth_list_update_neq)
      ultimately show ?thesis by blast
    qed
    then obtain A' k where A': "ok A' R ?w" and k: "k \<le> 1" "bumped k w ?w b" and h: "held = Some (IDXL b) \<longrightarrow> g_index ?w ! b = g_index w ! b"
      by blast
    have "\<forall>rp \<in> set ops. rop_ok (g_nblocks en) rp" using Cons.prems(1) by simp
    from Cons.IH [OF this A'] obtain l where l: "l \<le> length ops" "bumped l ?w (fold (rival en held) ops ?w) b"
      and h': "held = Some (IDXL b) \<longrightarrow> g_index (fold (rival en held) ops ?w) ! b = g_index ?w ! b" by blast
    from bumped_add [OF k(2) l(2)] k(1) l(1) h h' show ?case by (auto intro!: exI [of _ "k + l"])
  qed
  then show "\<exists>k \<le> length ops. bumped k w (fold (rival en held) ops w) b"
    "held = Some (IDXL b) \<Longrightarrow> g_index (fold (rival en held) ops w) ! b = g_index w ! b" by blast+
qed

lemma beside_shared:
  assumes W: "\<forall>rp \<in> planned plan. rop_ok (g_nblocks en) rp" and "few plan"
  shows "shared_store (beside en plan) mem (\<lambda>_. X) (- busy plan) (\<lambda>b. pages_by (planned plan) b (D b)) (drifts (g_nblocks en) plan)"
proof -
  have sub: "set (plan t) \<subseteq> planned plan" for t by (auto simp: planned_def)
  then have rok: "\<forall>rp \<in> set (plan t). rop_ok (g_nblocks en) rp" for t using W by blast
  show ?thesis
  proof (intro shared_store.intro store_driver.intro shared_store_axioms.intro, goal_cases)
    case (4 held A R w)
    then show ?case unfolding beside_st_ok yield_beside ok_tick by (intro rivals_rely [OF W _ sub])
  next
    case (5 A R w b held)
    then have "ok A R w" "held = Some (IDXL b)" by (simp_all add: beside_st_ok holds_lock_def)
    then show ?case using rivals_index(2) [OF rok] 5(2) by (simp add: yield_beside)
  next
    case (6 A R w held)
    then have "\<exists>k \<le> length (plan (w_tick w)). bumped k w (fold (rival en held) (plan (w_tick w)) w) b" if "b < g_nblocks en" for b
      using rivals_index(1) [OF rok _ that] by (simp add: beside_st_ok)
    then show ?case by (simp add: drifts_def yield_beside bumped_def moments_def)
  next
    case (7 w' w)
    then show ?case by (simp add: drifts_same)
  next
    case (8 w w' w'')
    then show ?case using drifts_trans by blast
  next
    case (9 w0 w1 w2 b)
    then show ?case using drifts_no_return [OF assms(2)] by simp
  qed (use driver codec vram_addr in simp_all)
qed

end

text \<open>An instance: the small store while others write three bytes into block 1 and discard it, four times each.\<close>

definition demo_plan :: "nat \<Rightarrow> rop list" where
  "demo_plan t = (if t < 4 then [RWrite 1 100 [1, 2, 3], RTrim 1] else [])"

lemma demo_plan:
  "planned demo_plan = {RWrite 1 100 [1, 2, 3], RTrim 1}" "busy demo_plan = {1}"
  "\<forall>rp \<in> planned demo_plan. rop_ok (g_nblocks demo) rp" "few demo_plan"
proof -
  have "\<exists>t :: nat. t < 4" by (rule exI [of _ 0]) simp
  then show p: "planned demo_plan = {RWrite 1 100 [1, 2, 3], RTrim 1}"
    by (auto simp: planned_def demo_plan_def split: if_splits)
  then show "busy demo_plan = {1}" "\<forall>rp \<in> planned demo_plan. rop_ok (g_nblocks demo) rp"
    by (simp_all add: busy_def demo_def g_nblocks_def)
  have "moments demo_plan 0 t \<le> (\<Sum>i \<in> {0..<4 :: nat}. 2)" for t
  proof -
    have "moments demo_plan 0 t = (\<Sum>i \<in> {0..<t} \<inter> {i. i < 4}. 2)" by (simp add: moments_def demo_plan_def sum.If_cases if_distrib cong: if_cong)
    also have "\<dots> \<le> (\<Sum>i \<in> {0..<4 :: nat}. 2)" by (rule sum_mono2) auto
    finally show ?thesis .
  qed
  then have "moments demo_plan 0 t \<le> 8" for t by simp
  then show "few demo_plan" unfolding few_def by (rule allI [OF le_less_trans]) simp
qed

interpretation crowd: shared_store "beside demo demo_plan" "\<lambda>m. m" "\<lambda>_. X" "- busy demo_plan"
  "\<lambda>b. pages_by (planned demo_plan) b zero_page" "drifts (g_nblocks demo) demo_plan" for X
  by (rule demo.beside_shared [OF demo_plan(3,4)])

section \<open>Properties beside other workers\<close>

lemma beside_faultless: "faultless (beside en plan) = faultless en"
  by (simp add: faultless_def)

text \<open>What holds of the blocks at the start: the image, with the blocks of the others free to change.\<close>

definition image_or :: "'d env \<Rightarrow> ('d \<Rightarrow> nat \<Rightarrow> byte) \<Rightarrow> 'd world \<Rightarrow> (nat \<Rightarrow> rop list) \<Rightarrow> nat \<Rightarrow> byte list set" where
  "image_or en mem w plan b = pages_by (planned plan) b (page_at en mem w b)"

lemma image_or_start:
  assumes "store_inv en mem X w"
  shows "st_ok (beside en plan) mem (\<lambda>_. X) (image_or en mem w plan) [] w"
    "stable (- busy plan) (\<lambda>b. pages_by (planned plan) b (page_at en mem w b)) None (image_or en mem w plan)"
proof -
  have "st_ok en mem (\<lambda>_. X) (\<lambda>b. {page_at en mem w b}) [] w" using assms st_ok_pages by (simp add: store_inv_def)
  then show "st_ok (beside en plan) mem (\<lambda>_. X) (image_or en mem w plan) [] w"
    unfolding beside_st_ok by (rule st_ok_mono) (auto simp: image_or_def intro: pages_by.own)
  show "stable (- busy plan) (\<lambda>b. pages_by (planned plan) b (page_at en mem w b)) None (image_or en mem w plan)"
    by (simp add: stable_def image_or_def)
qed





end
