(* ===== verification/Statistics.thy ===== *)
theory Statistics
  imports Store_Properties
begin

text \<open>
  The reporting thread: the survey of the extents behind @extents_log@, the figure of
  @heap_occupancy@, and @stats_worker@ with its two warnings and their
  hysteresis. The percentages that the code truncates to int are integer divisions: the
  doubles it divides are exact and below 2^43, so the truncated quotient is the exact one.
\<close>

section \<open>The extent survey\<close>

record ext_survey =
  s_bin :: "nat list"
  s_used :: nat
  s_partial :: nat
  s_classes :: nat
  s_seen :: "bool list"

definition survey_start :: ext_survey where
  "survey_start = \<lparr>s_bin = replicate NBINS 0, s_used = 0, s_partial = 0, s_classes = 0, s_seen = replicate NCLASS False\<rparr>"

definition survey_step :: "extent \<Rightarrow> ext_survey \<Rightarrow> ext_survey" where
  "survey_step e s =
     (if \<not> e_used e then s
      else let s1 = s\<lparr>s_used := s_used s + 1\<rparr>
           in if e_nfree e = 0 then s1
              else let s2 = s1\<lparr>s_partial := s_partial s1 + 1, s_bin := (s_bin s1)[ext_bin e := s_bin s1 ! ext_bin e + 1]\<rparr>
                   in if s_seen s2 ! e_cls e then s2
                      else s2\<lparr>s_seen := (s_seen s2)[e_cls e := True], s_classes := s_classes s2 + 1\<rparr>)"

definition extents_survey :: "heap \<Rightarrow> ext_survey" where
  "extents_survey h = fold (\<lambda>i. survey_step (g_ext h ! i)) [0..<g_n_extents h] survey_start"

text \<open>The four numbers of the line and the lower ends of its percentage buckets.\<close>

definition bucket_lo :: "nat \<Rightarrow> nat" where
  "bucket_lo b = (NBINS - 1 - b) * 100 div NBINS"

definition extents_log :: "heap \<Rightarrow> nat \<times> nat \<times> nat \<times> nat \<times> nat \<times> (nat \<times> nat \<times> nat) list" where
  "extents_log h =
     (let s = extents_survey h
      in (s_used s, s_used s - s_partial s, s_partial s, g_n_extents h - s_used s, s_classes s,
          map (\<lambda>b. (bucket_lo b, bucket_lo b + 100 div NBINS, s_bin s ! b)) [0..<NBINS]))"

text \<open>The partial extents among the first @k@.\<close>

definition partials :: "heap \<Rightarrow> nat \<Rightarrow> nat set" where
  "partials h k = {i. i < k \<and> e_used (g_ext h ! i) \<and> 0 < e_nfree (g_ext h ! i)}"

definition classes_of :: "heap \<Rightarrow> nat set \<Rightarrow> nat set" where
  "classes_of h A = (\<lambda>i. e_cls (g_ext h ! i)) ` A"

lemma finite_partials [simp]: "finite (partials h k)"
  by (simp add: partials_def)

lemma partials_Suc: "partials h (Suc k) = (if e_used (g_ext h ! k) \<and> 0 < e_nfree (g_ext h ! k) then insert k (partials h k) else partials h k)"
  by (auto simp: partials_def less_Suc_eq)

lemma bin_card_insert:
  assumes "finite A" "k \<notin> A"
  shows "card {i \<in> insert k A. f i = b} = card {i \<in> A. f i = b} + (if f k = b then 1 else 0)"
proof -
  have "{i \<in> insert k A. f i = b} = (if f k = b then insert k {i \<in> A. f i = b} else {i \<in> A. f i = b})" by auto
  then show ?thesis using assms by simp
qed

definition survey_at :: "heap \<Rightarrow> nat \<Rightarrow> ext_survey \<Rightarrow> bool" where
  "survey_at h k s \<longleftrightarrow> s_used s = card {i. i < k \<and> e_used (g_ext h ! i)} \<and> s_partial s = card (partials h k) \<and>
     length (s_bin s) = NBINS \<and> (\<forall>b < NBINS. s_bin s ! b = card {i \<in> partials h k. ext_bin (g_ext h ! i) = b}) \<and>
     length (s_seen s) = NCLASS \<and> (\<forall>c < NCLASS. s_seen s ! c \<longleftrightarrow> c \<in> classes_of h (partials h k)) \<and>
     s_classes s = card (classes_of h (partials h k))"

lemma ext_bin_lt: "ext_bin e < NBINS"
  by (simp add: ext_bin_def NBINS_def Let_def)

lemma used_Suc: "{i. i < Suc k \<and> P i} = (if P k then insert k {i. i < k \<and> P i} else {i. i < k \<and> P i})"
  by (auto simp: less_Suc_eq)

lemma survey_step_at:
  assumes "survey_at h k s" "e_used (g_ext h ! k) \<longrightarrow> e_cls (g_ext h ! k) < NCLASS"
  shows "survey_at h (Suc k) (survey_step (g_ext h ! k) s)"
proof (cases "e_used (g_ext h ! k) \<and> 0 < e_nfree (g_ext h ! k)")
  case False
  then show ?thesis using assms by (auto simp: survey_at_def survey_step_def partials_Suc used_Suc)
next
  case True
  let ?e = "g_ext h ! k"
  have k: "k \<notin> partials h k" by (simp add: partials_def)
  have P: "partials h (Suc k) = insert k (partials h k)" using True by (simp add: partials_Suc)
  have C: "classes_of h (partials h (Suc k)) = insert (e_cls ?e) (classes_of h (partials h k))" by (simp add: P classes_of_def)
  have fin: "finite (classes_of h (partials h k))" by (simp add: classes_of_def)
  have c: "e_cls ?e < NCLASS" using assms(2) True by simp
  define s2 where "s2 = s\<lparr>s_used := s_used s + 1, s_partial := s_partial s + 1, s_bin := (s_bin s)[ext_bin ?e := s_bin s ! ext_bin ?e + 1]\<rparr>"
  have st: "survey_step ?e s = (if s_seen s ! e_cls ?e then s2 else s2\<lparr>s_seen := (s_seen s)[e_cls ?e := True], s_classes := s_classes s + 1\<rparr>)"
    using True by (simp add: survey_step_def s2_def Let_def)
  have bins: "s_bin s2 ! b = card {i \<in> partials h (Suc k). ext_bin (g_ext h ! i) = b}" if "b < NBINS" for b
    using assms(1) that bin_card_insert [OF finite_partials k, of "\<lambda>i. ext_bin (g_ext h ! i)" b]
    by (auto simp: survey_at_def s2_def P nth_list_update)
  have nums: "s_used s2 = card {i. i < Suc k \<and> e_used (g_ext h ! i)}" "s_partial s2 = card (partials h (Suc k))" "length (s_bin s2) = NBINS"
    "s_seen s2 = s_seen s" "s_classes s2 = s_classes s"
    using assms(1) True k by (simp_all add: survey_at_def s2_def P used_Suc)
  show ?thesis
    using assms(1) c fin nums bins
    by (auto simp: st survey_at_def C nth_list_update insert_absorb card_insert_if)
qed

lemma extents_survey_at:
  assumes "\<forall>i < g_n_extents h. e_used (g_ext h ! i) \<longrightarrow> e_cls (g_ext h ! i) < NCLASS"
  shows "survey_at h (g_n_extents h) (extents_survey h)"
proof -
  have "survey_at h k (fold (\<lambda>i. survey_step (g_ext h ! i)) [0..<k] survey_start)" if "k \<le> g_n_extents h" for k
    using that
  proof (induction k)
    case 0
    then show ?case by (simp add: survey_at_def survey_start_def partials_def classes_of_def)
  next
    case (Suc k)
    then show ?case using survey_step_at assms by simp
  qed
  then show ?thesis by (simp add: extents_survey_def)
qed

lemma div_is_iff: "0 < n \<Longrightarrow> a div n = q \<longleftrightarrow> q * n \<le> a \<and> a < (q + 1) * n" for a n q :: nat
  using div_times_less_eq_dividend [of a n] dividend_less_div_times [of n a] by (auto intro: div_nat_eqI simp: mult.commute)

lemma ext_bin_bucket:
  assumes "0 < e_nfree e" "e_nfree e \<le> e_nslots e" "e_nslots e < 2 ^ 16" "b < NBINS"
  shows "ext_bin e = b \<longleftrightarrow> bucket_lo b * e_nslots e \<le> 100 * (e_nslots e - e_nfree e) \<and>
    100 * (e_nslots e - e_nfree e) < (bucket_lo b + 100 div NBINS) * e_nslots e"
proof -
  let ?n = "e_nslots e" and ?u = "e_nslots e - e_nfree e"
  have "sub32 ?n (e_nfree e) = ?u" using assms(2,3) by (simp add: sub32_exact)
  moreover have "u32 (?u * 4) = ?u * 4" using assms(3) by (simp add: u32_small)
  ultimately have "ext_bin e = (let q = ?u * 4 div ?n in 3 - (if q \<ge> 4 then 3 else q))" by (auto simp: ext_bin_def NBINS_def Let_def)
  moreover have "?u * 4 div ?n < 4" using assms(1,2) by (intro less_mult_imp_div_less) simp
  ultimately have x: "ext_bin e = 3 - ?u * 4 div ?n" "?u * 4 div ?n \<le> 3" by simp_all
  have b: "b \<le> 3" "bucket_lo b = (3 - b) * 25" using assms(4) by (auto simp: bucket_lo_def NBINS_def)
  have "ext_bin e = b \<longleftrightarrow> ?u * 4 div ?n = 3 - b" using x b(1) by auto
  also have "\<dots> \<longleftrightarrow> (3 - b) * ?n \<le> ?u * 4 \<and> ?u * 4 < (3 - b + 1) * ?n"
    using assms(1,2) by (intro div_is_iff) simp
  also have "\<dots> \<longleftrightarrow> bucket_lo b * ?n \<le> 100 * ?u \<and> 100 * ?u < (bucket_lo b + 25) * ?n"
    unfolding b(2) by (auto simp: algebra_simps)
  finally show ?thesis by (simp add: NBINS_def)
qed

lemma used_extent:
  assumes "heap_inv h" "ei < g_n_extents h" "e_used (g_ext h ! ei)"
  shows "e_cls (g_ext h ! ei) < NCLASS" "e_nfree (g_ext h ! ei) \<le> e_nslots (g_ext h ! ei)" "e_nslots (g_ext h ! ei) < 2 ^ 16"
proof -
  have c: "shape_ok h" "ext_ok h ei" using assms(1,2) heap_coreD by (auto simp: heap_inv_def)
  then show cl: "e_cls (g_ext h ! ei) < NCLASS" using assms(3) by (simp add: ext_ok_def Let_def)
  have n: "e_nslots (g_ext h ! ei) = ext_nslots h (e_cls (g_ext h ! ei))" "e_nfree (g_ext h ! ei) = card (free_slots h ei)"
    using c(2) assms(3) by (simp_all add: ext_ok_def Let_def)
  then show "e_nslots (g_ext h ! ei) < 2 ^ 16" using ext_nslots_bounds [OF c(1) cl] by simp
  have "free_slots h ei \<subseteq> {..<e_nslots (g_ext h ! ei)}" by (auto simp: free_slots_def)
  from card_mono [OF _ this] n(2) show "e_nfree (g_ext h ! ei) \<le> e_nslots (g_ext h ! ei)" by simp
qed

text \<open>The classes that own a partial extent are the ones with a list to allocate from.\<close>

lemma partial_classes:
  assumes "heap_inv h"
  shows "classes_of h (partials h (g_n_extents h)) = {c. c < NCLASS \<and> g_class_head h ! c \<noteq> EXT_NONE}"
proof -
  have l: "lists_are h (members h)" using assms heap_coreD by (simp add: heap_inv_def)
  have "g_class_head h ! c \<noteq> EXT_NONE \<longleftrightarrow> members h (ClassHead c) \<noteq> {}" if "c < NCLASS" for c
    using lists_are_head [OF l, of "ClassHead c"] that by (auto simp del: members.simps)
  moreover have "c \<in> classes_of h (partials h (g_n_extents h)) \<longleftrightarrow> members h (ClassHead c) \<noteq> {}" for c
    by (auto simp: classes_of_def partials_def)
  moreover have "c < NCLASS" if "c \<in> classes_of h (partials h (g_n_extents h))" for c
    using that used_extent(1) [OF assms] by (auto simp: classes_of_def partials_def)
  ultimately show ?thesis by blast
qed

lemma card_split: "finite A \<Longrightarrow> card A = card {i \<in> A. Q i} + card {i \<in> A. \<not> Q i}"
  by (subst card_Un_disjoint [symmetric]) (auto intro: arg_cong [where f = card])

text \<open>
  C38. The extents line is exact: its used count is the allocator's own, full plus partial make up used and used
  plus free the whole heap, the class count is the number of classes with a slot to hand out, and each bucket counts the partial
  extents whose fullness lies in the percentages printed beside it.
\<close>

theorem extents_log_exact:
  assumes "heap_inv h"
  shows "extents_log h =
    (g_extents_used h, card {i \<in> used_exts h. e_nfree (g_ext h ! i) = 0}, card {i \<in> used_exts h. 0 < e_nfree (g_ext h ! i)},
     card {i. i < g_n_extents h \<and> \<not> e_used (g_ext h ! i)}, card {c. c < NCLASS \<and> g_class_head h ! c \<noteq> EXT_NONE},
     map (\<lambda>b. (75 - 25 * b, 100 - 25 * b, card {i \<in> used_exts h. 0 < e_nfree (g_ext h ! i) \<and>
        (75 - 25 * b) * e_nslots (g_ext h ! i) \<le> 100 * (e_nslots (g_ext h ! i) - e_nfree (g_ext h ! i)) \<and>
        100 * (e_nslots (g_ext h ! i) - e_nfree (g_ext h ! i)) < (100 - 25 * b) * e_nslots (g_ext h ! i)})) [0..<4])"
proof -
  let ?n = "g_n_extents h" and ?s = "extents_survey h"
  have at: "survey_at h ?n ?s" by (rule extents_survey_at) (use used_extent(1) [OF assms] in blast)
  have U: "{i. i < ?n \<and> e_used (g_ext h ! i)} = used_exts h" by (simp add: used_exts_def)
  have P: "partials h ?n = {i \<in> used_exts h. 0 < e_nfree (g_ext h ! i)}" by (auto simp: partials_def used_exts_def)
  have fin: "finite (used_exts h)" by (simp add: used_exts_def)
  have u: "s_used ?s = card (used_exts h)" "g_extents_used h = card (used_exts h)"
    using at assms heap_coreD by (auto simp: survey_at_def U heap_inv_def)
  have full: "s_used ?s - s_partial ?s = card {i \<in> used_exts h. e_nfree (g_ext h ! i) = 0}"
  proof -
    have "s_partial ?s = card {i \<in> used_exts h. 0 < e_nfree (g_ext h ! i)}" using at by (simp add: survey_at_def P)
    with card_split [OF fin, of "\<lambda>i. e_nfree (g_ext h ! i) = 0"] u(1) show ?thesis by simp
  qed
  have "?n = card (used_exts h) + card {i. i < ?n \<and> \<not> e_used (g_ext h ! i)}"
    using card_split [of "{..<?n}" "\<lambda>i. e_used (g_ext h ! i)"] by (simp add: used_exts_def)
  then have free: "?n - s_used ?s = card {i. i < ?n \<and> \<not> e_used (g_ext h ! i)}" using u(1) by linarith
  have bin: "s_bin ?s ! b = card {i \<in> used_exts h. 0 < e_nfree (g_ext h ! i) \<and>
        (75 - 25 * b) * e_nslots (g_ext h ! i) \<le> 100 * (e_nslots (g_ext h ! i) - e_nfree (g_ext h ! i)) \<and>
        100 * (e_nslots (g_ext h ! i) - e_nfree (g_ext h ! i)) < (100 - 25 * b) * e_nslots (g_ext h ! i)}" if b: "b < 4" for b
  proof -
    have lo: "bucket_lo b = 75 - 25 * b" "bucket_lo b + 100 div NBINS = 100 - 25 * b" using b by (auto simp: bucket_lo_def NBINS_def)
    have "ext_bin (g_ext h ! i) = b \<longleftrightarrow> (75 - 25 * b) * e_nslots (g_ext h ! i) \<le> 100 * (e_nslots (g_ext h ! i) - e_nfree (g_ext h ! i)) \<and>
        100 * (e_nslots (g_ext h ! i) - e_nfree (g_ext h ! i)) < (100 - 25 * b) * e_nslots (g_ext h ! i)" if "i \<in> partials h ?n" for i
      using that ext_bin_bucket [of "g_ext h ! i" b] used_extent [OF assms, of i] b unfolding lo by (auto simp: partials_def NBINS_def)
    then show ?thesis using at b by (auto simp: survey_at_def NBINS_def P intro!: arg_cong [where f = card])
  qed
  show ?thesis
    unfolding extents_log_def Let_def full free using at u P bin partial_classes [OF assms]
    by (auto simp: survey_at_def bucket_lo_def NBINS_def)
qed

theorem extents_log_exact_witness: "fst (extents_log heap64k_1) = g_extents_used heap64k_1"
proof -
  have "heap_inv heap64k_1" by (rule heap64k_reserved)
  from extents_log_exact [OF this] show ?thesis by simp
qed

section \<open>The reporting thread\<close>

text \<open>@heap_occupancy@ as the int the thread compares, and the committed share of the VRAM.\<close>

definition heap_occupancy :: "heap \<Rightarrow> nat" where
  "heap_occupancy h = (if heap_committed h \<noteq> 0 then 100 * g_slot_bytes h div heap_committed h else 0)"

definition committed_pct :: "nat \<Rightarrow> heap \<Rightarrow> nat" where
  "committed_pct vram h = (if vram \<noteq> 0 then u64 (100 * heap_committed h) div vram else 0)"

definition warn_level :: "nat \<Rightarrow> nat" where
  "warn_level pct = (if pct \<ge> 99 then 3 else if pct \<ge> 95 then 2 else if pct \<ge> 90 then 1 else 0)"

record reporter =
  r_tick :: nat
  r_warned :: nat
  r_frag_warned :: bool

definition reporter_start :: reporter where
  "reporter_start = \<lparr>r_tick = 0, r_warned = 0, r_frag_warned = False\<rparr>"

datatype message = Heap_Filling nat | Heap_Fragmented nat nat | Stats_Lines

text \<open>One round of the loop body: the two warnings, then the report when the interval is over.\<close>

definition warn_filling :: "nat \<Rightarrow> reporter \<Rightarrow> message list \<times> reporter" where
  "warn_filling pct r =
     (if warn_level pct > r_warned r then ([Heap_Filling pct], r\<lparr>r_warned := warn_level pct\<rparr>)
      else if warn_level pct < r_warned r \<and> pct < 85 then ([], r\<lparr>r_warned := warn_level pct\<rparr>)
      else ([], r))"

definition warn_fragmented :: "nat \<Rightarrow> nat \<Rightarrow> reporter \<Rightarrow> message list \<times> reporter" where
  "warn_fragmented pct occ r =
     (if \<not> r_frag_warned r \<and> pct \<ge> 75 \<and> occ < 50 then ([Heap_Fragmented pct occ], r\<lparr>r_frag_warned := True\<rparr>)
      else if r_frag_warned r \<and> (pct < 65 \<or> occ \<ge> 60) then ([], r\<lparr>r_frag_warned := False\<rparr>)
      else ([], r))"

definition stats_round :: "nat \<Rightarrow> nat \<Rightarrow> heap \<Rightarrow> reporter \<Rightarrow> message list \<times> reporter" where
  "stats_round vram interval h r =
     (let pct = committed_pct vram h; occ = heap_occupancy h;
          (m1, r1) = warn_filling pct r; (m2, r2) = warn_fragmented pct occ r1; t = r_tick r2 + 1
      in if t < interval then (m1 @ m2, r2\<lparr>r_tick := t\<rparr>) else (m1 @ m2 @ [Stats_Lines], r2\<lparr>r_tick := 0\<rparr>))"

text \<open>The heaps the thread finds second by second, until it sees @g_running@ cleared and prints its final report.\<close>

fun stats_worker :: "nat \<Rightarrow> nat \<Rightarrow> heap list \<Rightarrow> reporter \<Rightarrow> message list" where
  "stats_worker vram interval [] r = [Stats_Lines]"
| "stats_worker vram interval (h # hs) r =
     (let (ms, r') = stats_round vram interval h r in ms @ stats_worker vram interval hs r')"

definition filling :: "message list \<Rightarrow> nat" where
  "filling ms = length (filter (\<lambda>m. case m of Heap_Filling _ \<Rightarrow> True | _ \<Rightarrow> False) ms)"

definition fragmented :: "message list \<Rightarrow> nat" where
  "fragmented ms = length (filter (\<lambda>m. case m of Heap_Fragmented _ _ \<Rightarrow> True | _ \<Rightarrow> False) ms)"

definition reports :: "message list \<Rightarrow> nat" where
  "reports ms = length (filter (\<lambda>m. m = Stats_Lines) ms)"

lemmas message_counts = filling_def fragmented_def reports_def

lemma counts_append [simp]:
  "filling (xs @ ys) = filling xs + filling ys" "fragmented (xs @ ys) = fragmented xs + fragmented ys" "reports (xs @ ys) = reports xs + reports ys"
  by (simp_all add: message_counts)

lemma counts_simps [simp]:
  "filling [] = 0" "fragmented [] = 0" "reports [] = 0" "filling [Stats_Lines] = 0" "fragmented [Stats_Lines] = 0" "reports [Stats_Lines] = 1"
  by (simp_all add: message_counts)

lemma stats_round_counts:
  assumes "stats_round vram interval h r = (ms, r')"
  shows "filling ms = filling (fst (warn_filling (committed_pct vram h) r))" "r_warned r' = r_warned (snd (warn_filling (committed_pct vram h) r))"
    "fragmented ms = fragmented (fst (warn_fragmented (committed_pct vram h) (heap_occupancy h) r))"
    "r_frag_warned r' = r_frag_warned (snd (warn_fragmented (committed_pct vram h) (heap_occupancy h) r))"
    "reports ms = (if r_tick r + 1 < interval then 0 else 1)" "r_tick r' = (if r_tick r + 1 < interval then r_tick r + 1 else 0)"
  using assms by (auto simp: stats_round_def warn_filling_def warn_fragmented_def message_counts Let_def split: if_splits)

text \<open>
  C40. The warnings do not flood the journal: while the heap stays at 85 per cent or more the filling warning appears at most
  three times, once per level, and while it stays fragmented the fragmentation warning appears at most once.
\<close>

theorem warnings_bounded:
  "((\<forall>h \<in> set hs. 85 \<le> committed_pct vram h) \<longrightarrow> filling (stats_worker vram interval hs reporter_start) \<le> 3) \<and>
   ((\<forall>h \<in> set hs. 65 \<le> committed_pct vram h \<and> heap_occupancy h < 60) \<longrightarrow> fragmented (stats_worker vram interval hs reporter_start) \<le> 1)"
proof -
  have f: "filling (stats_worker vram interval hs r) + r_warned r \<le> max 3 (r_warned r)" if "\<forall>h \<in> set hs. 85 \<le> committed_pct vram h" for hs r
    using that
  proof (induction hs arbitrary: r)
    case (Cons h hs)
    obtain ms r' where s: "stats_round vram interval h r = (ms, r')" by fastforce
    have "warn_level (committed_pct vram h) \<le> 3" by (simp add: warn_level_def)
    with Cons.IH [of r'] Cons.prems stats_round_counts(1,2) [OF s] s show ?case
      by (auto simp: warn_filling_def message_counts split: if_splits)
  qed simp
  have g: "fragmented (stats_worker vram interval hs r) \<le> (if r_frag_warned r then 0 else 1)"
    if "\<forall>h \<in> set hs. 65 \<le> committed_pct vram h \<and> heap_occupancy h < 60" for hs r
    using that
  proof (induction hs arbitrary: r)
    case (Cons h hs)
    obtain ms r' where s: "stats_round vram interval h r = (ms, r')" by fastforce
    with Cons.IH [of r'] Cons.prems stats_round_counts(3,4) [OF s] show ?case
      by (auto simp: warn_fragmented_def message_counts split: if_splits)
  qed simp
  show ?thesis using f [of hs reporter_start] g [of hs reporter_start] by (simp add: reporter_start_def)
qed

text \<open>A heap of four extents, all committed and all empty.\<close>

definition holey :: heap where
  "holey = heap64k\<lparr>g_extents_used := 4, g_slot_bytes := 0\<rparr>"

lemma holey: "committed_pct 65536 holey = 100" "heap_occupancy holey = 0"
proof -
  have "ext_shift heap64k = 14"
    by (rule heap_init_success [of 14 "2 ^ 16"]) (use heap64k(1) in auto)
  then show "committed_pct 65536 holey = 100" "heap_occupancy holey = 0"
    by (simp_all add: committed_pct_def heap_occupancy_def heap_committed_def EXTENT_SIZE_def holey_def u64_def)
qed

theorem warnings_bounded_witness:
  "filling (stats_worker 65536 60 (replicate 200 holey) reporter_start) \<le> 3 \<and> fragmented (stats_worker 65536 60 (replicate 200 holey) reporter_start) \<le> 1"
  using warnings_bounded [of "replicate 200 holey" 65536 60] holey by simp

text \<open>
  The thread reports once per interval and once at the end: over @n@ seconds there are n div interval reports and the final one.
\<close>

theorem reports_on_time:
  assumes "0 < interval"
  shows "reports (stats_worker vram interval hs reporter_start) = length hs div interval + 1"
proof -
  have "reports (stats_worker vram interval hs r) = (length hs + r_tick r) div interval + 1" if "r_tick r < interval" for r
    using that
  proof (induction hs arbitrary: r)
    case (Cons h hs)
    obtain ms r' where s: "stats_round vram interval h r = (ms, r')" by fastforce
    note c = stats_round_counts(5,6) [OF s]
    show ?case
    proof (cases "r_tick r + 1 < interval")
      case True
      then show ?thesis using Cons.IH [of r'] c s by simp
    next
      case False
      then have i: "interval = r_tick r + 1" using Cons.prems by simp
      have "(length (h # hs) + r_tick r) div interval = (length hs + interval) div interval" by (simp add: i)
      also have "\<dots> = length hs div interval + 1" using assms div_add_self2 [of interval "length hs"] by simp
      finally show ?thesis using Cons.IH [of r'] c s i by simp
    qed
  qed simp
  from this [of reporter_start] assms show ?thesis by (simp add: reporter_start_def)
qed

theorem reports_on_time_witness: "reports (stats_worker 65536 60 (replicate 200 heap64k) reporter_start) = 4"
  using reports_on_time [of 60 65536 "replicate 200 heap64k"] by simp

end
