(* ===== verification/Nbd_Wire.thy ===== *)
theory Nbd_Wire
  imports Nbd_Prelude
begin

text \<open>
  The connection to the NBD client: a stream socket with short reads and short writes, the
  loops @recv_all@, @send_all@, @drain@ and @recv_hdr_nb@ over it, network byte order, and
  the header of a request. The lemmas show that what is received depends only on the bytes
  the client sent, never on how they were cut into segments.
\<close>

section \<open>Network byte order\<close>

text \<open>@htons@, @htonl@ and @htobe64@ are @be@ of 2, 4 and 8 bytes, @be_nat@ their inverse.\<close>

fun be :: "nat \<Rightarrow> nat \<Rightarrow> byte list" where
  "be 0 v = []"
| "be (Suc n) v = be n (v div 256) @ [of_nat v]"

definition be_nat :: "byte list \<Rightarrow> nat" where
  "be_nat bs = foldl (\<lambda>a b. a * 256 + unat b) 0 bs"

lemma length_be [simp]: "length (be n v) = n"
  by (induction n arbitrary: v) simp_all

lemma be_nat_snoc: "be_nat (bs @ [b]) = be_nat bs * 256 + unat b"
  by (simp add: be_nat_def)

lemma be_nat_be: "be_nat (be n v) = v mod 256 ^ n"
proof (induction n arbitrary: v)
  case 0
  then show ?case by (simp add: be_nat_def)
next
  case (Suc n)
  have "be_nat (be (Suc n) v) = v div 256 mod 256 ^ n * 256 + v mod 256"
    by (simp add: be_nat_snoc Suc unat_of_nat)
  also have "\<dots> = v mod (256 * 256 ^ n)" by (simp add: mod_mult2_eq)
  finally show ?case by (simp add: mult.commute)
qed

lemma be_nat_bound: "be_nat bs < 256 ^ length bs"
proof (induction bs rule: rev_induct)
  case Nil
  then show ?case by (simp add: be_nat_def)
next
  case (snoc b bs)
  have "unat b < 256" using unsigned_less [of b] by simp
  with snoc show ?case by (simp add: be_nat_snoc)
qed

lemma be_be_nat: "be (length bs) (be_nat bs) = bs"
proof (induction bs rule: rev_induct)
  case Nil
  then show ?case by simp
next
  case (snoc b bs)
  have "unat b < 256" using unsigned_less [of b] by simp
  then have "be_nat (bs @ [b]) div 256 = be_nat bs" by (simp add: be_nat_snoc)
  moreover have "(256 :: byte) = 0" by (rule word_unat_eq_iff [THEN iffD2]) simp
  then have "of_nat (be_nat (bs @ [b])) = b" by (simp only: be_nat_snoc of_nat_add of_nat_mult of_nat_numeral) simp
  ultimately show ?case using snoc by simp
qed

lemma be_nat_Nil [simp]: "be_nat [] = 0"
  by (simp add: be_nat_def)

section \<open>The socket\<close>

text \<open>
  What the peer's bytes look like to recv: segments, moments at which nothing is queued, and
  a connection that fails. The end of the list is an orderly close. @so_send@ bounds how many
  bytes each further send accepts, 0 for an error; once it is used up sends are accepted whole.
\<close>

datatype rx = Bytes "byte list" | Pause | Fail

record sock =
  so_in :: "rx list"
  so_send :: "nat list"
  so_out :: "byte list"

text \<open>The bytes that can still be received.\<close>

fun avail :: "rx list \<Rightarrow> byte list" where
  "avail [] = []"
| "avail (Bytes bs # r) = bs @ avail r"
| "avail (Pause # r) = avail r"
| "avail (Fail # r) = []"

text \<open>One blocking recv of at most @len@ bytes; @None@ is a result of 0 or -1.\<close>

fun rx_recv :: "nat \<Rightarrow> rx list \<Rightarrow> byte list option \<times> rx list" where
  "rx_recv len [] = (None, [])"
| "rx_recv len (Bytes bs # r) =
     (if bs = [] then rx_recv len r
      else (Some (take len bs), if length bs \<le> len then r else Bytes (drop len bs) # r))"
| "rx_recv len (Pause # r) = rx_recv len r"
| "rx_recv len (Fail # r) = (None, Fail # r)"

text \<open>One recv with MSG_DONTWAIT.\<close>

datatype nb = Got "byte list" | Would_Block | Gone

fun rx_recv_nb :: "nat \<Rightarrow> rx list \<Rightarrow> nb \<times> rx list" where
  "rx_recv_nb len [] = (Gone, [])"
| "rx_recv_nb len (Bytes bs # r) =
     (if bs = [] then rx_recv_nb len r
      else (Got (take len bs), if length bs \<le> len then r else Bytes (drop len bs) # r))"
| "rx_recv_nb len (Pause # r) = (Would_Block, r)"
| "rx_recv_nb len (Fail # r) = (Gone, Fail # r)"

lemma rx_recv_some:
  assumes "rx_recv len r = (Some bs, r')" "0 < len"
  shows "0 < length bs" "length bs \<le> len" "avail r = bs @ avail r'"
  using assms by (induction len r rule: rx_recv.induct) (auto split: if_splits)

lemma rx_recv_none: "rx_recv len r = (None, r') \<Longrightarrow> avail r = []"
  by (induction len r rule: rx_recv.induct) (auto split: if_splits)

lemma rx_recv_avail: "rx_recv len r = (x, r') \<Longrightarrow> length (avail r') \<le> length (avail r)"
  by (induction len r rule: rx_recv.induct) (auto split: if_splits)

lemma rx_recv_nb_avail:
  assumes "rx_recv_nb len r = (x, r')" "0 < len"
  shows "case x of Got bs \<Rightarrow> 0 < length bs \<and> length bs \<le> len \<and> avail r = bs @ avail r'
    | Would_Block \<Rightarrow> avail r' = avail r | Gone \<Rightarrow> avail r = []"
  using assms by (induction len r rule: rx_recv_nb.induct) (auto split: if_splits nb.splits)

lemma rx_recv_nb_gone: "rx_recv_nb len r = (Gone, r') \<Longrightarrow> avail r' = []"
  by (induction len r rule: rx_recv_nb.induct) (auto split: if_splits)

section \<open>Whole buffers\<close>

function recv_all :: "nat \<Rightarrow> sock \<Rightarrow> byte list option \<times> sock" where
  "recv_all len s =
     (if len = 0 then (Some [], s)
      else case rx_recv len (so_in s) of
             (None, r) \<Rightarrow> (None, s\<lparr>so_in := r\<rparr>)
           | (Some bs, r) \<Rightarrow>
               (case recv_all (len - length bs) (s\<lparr>so_in := r\<rparr>) of
                  (None, s1) \<Rightarrow> (None, s1)
                | (Some rest, s1) \<Rightarrow> (Some (bs @ rest), s1)))"
  by pat_completeness auto
termination
  by (relation "measure fst") (auto dest: rx_recv_some [OF sym])

text \<open>One send: how many of @n@ bytes are accepted, 0 for an error.\<close>

definition tx_send :: "nat \<Rightarrow> nat list \<Rightarrow> nat \<times> nat list" where
  "tx_send n ks = (case ks of [] \<Rightarrow> (n, []) | k # ks' \<Rightarrow> (min k n, ks'))"

function send_all :: "byte list \<Rightarrow> sock \<Rightarrow> bool \<times> sock" where
  "send_all buf s =
     (if buf = [] then (True, s)
      else case tx_send (length buf) (so_send s) of
             (n, ks) \<Rightarrow>
               if n = 0 then (False, s\<lparr>so_send := ks\<rparr>)
               else send_all (drop n buf) (s\<lparr>so_send := ks, so_out := so_out s @ take n buf\<rparr>))"
  by pat_completeness auto
termination
  by (relation "measure (length \<circ> fst)") (auto simp: tx_send_def split: list.splits)

text \<open>@drain@ throws away @len@ bytes, at most 4096 at a time.\<close>

function drain :: "nat \<Rightarrow> sock \<Rightarrow> bool \<times> sock" where
  "drain len s =
     (if len = 0 then (True, s)
      else let chunk = (if len > 4096 then 4096 else len)
           in case recv_all chunk s of
                (None, s1) \<Rightarrow> (False, s1)
              | (Some bs, s1) \<Rightarrow> drain (len - chunk) s1)"
  by pat_completeness auto
termination
  by (relation "measure fst") auto

declare recv_all.simps [simp del] send_all.simps [simp del] drain.simps [simp del]

datatype hdr = Hdr "byte list" | No_Hdr | Hdr_Error

text \<open>A header without waiting for one to begin: @Hdr@ is the return value 1, @No_Hdr@ 0, @Hdr_Error@ -1.\<close>

definition recv_hdr_nb :: "sock \<Rightarrow> hdr \<times> sock" where
  "recv_hdr_nb s =
     (case rx_recv_nb 28 (so_in s) of
        (Gone, r) \<Rightarrow> (Hdr_Error, s\<lparr>so_in := r\<rparr>)
      | (Would_Block, r) \<Rightarrow> (No_Hdr, s\<lparr>so_in := r\<rparr>)
      | (Got bs, r) \<Rightarrow>
          if length bs = 28 then (Hdr bs, s\<lparr>so_in := r\<rparr>)
          else case recv_all (28 - length bs) (s\<lparr>so_in := r\<rparr>) of
                 (None, s1) \<Rightarrow> (Hdr_Error, s1)
               | (Some rest, s1) \<Rightarrow> (Hdr (bs @ rest), s1))"

section \<open>What is received and sent\<close>

abbreviation pending :: "sock \<Rightarrow> byte list" where
  "pending s \<equiv> avail (so_in s)"

text \<open>Two sockets that differ only in what has been received.\<close>

definition rx_only :: "sock \<Rightarrow> sock \<Rightarrow> bool" where
  "rx_only s s' \<longleftrightarrow> so_send s' = so_send s \<and> so_out s' = so_out s"

lemma rx_only_refl [simp]: "rx_only s s" and rx_only_in [simp]: "rx_only s (s\<lparr>so_in := r\<rparr>)"
  by (simp_all add: rx_only_def)

lemma rx_only_trans: "rx_only s s' \<Longrightarrow> rx_only s' s'' \<Longrightarrow> rx_only s s''"
  by (simp add: rx_only_def)

lemma recv_all_spec:
  assumes "recv_all len s = (x, s')"
  shows "rx_only s s' \<and> (if len \<le> length (pending s) then x = Some (take len (pending s)) \<and> pending s' = drop len (pending s)
    else x = None)"
  using assms
proof (induction len s arbitrary: x s' rule: recv_all.induct)
  case (1 len s)
  show ?case
  proof (cases "len = 0")
    case True
    then show ?thesis using "1.prems" by (simp add: recv_all.simps)
  next
    case False
    obtain y r where rx: "rx_recv len (so_in s) = (y, r)" by fastforce
    show ?thesis
    proof (cases y)
      case None
      then show ?thesis using "1.prems" False rx rx_recv_none [of len "so_in s" r] by (auto simp: recv_all.simps [of len])
    next
      case (Some bs)
      obtain z s1 where rec: "recv_all (len - length bs) (s\<lparr>so_in := r\<rparr>) = (z, s1)" by fastforce
      note b = rx_recv_some [OF rx [unfolded Some]]
      note IH = "1.IH" [OF False rx [symmetric] Some rec]
      have "x = map_option ((@) bs) z" "s' = s1"
        using "1.prems" False rx Some rec by (auto simp: recv_all.simps [of len] split: option.splits)
      then show ?thesis using IH b False rx_only_trans [OF rx_only_in [of s r]] by auto
    qed
  qed
qed

text \<open>A failed receive has taken what there was.\<close>

lemma recv_all_shrinks: "length (pending (snd (recv_all len s))) \<le> length (pending s)"
proof (induction len s rule: recv_all.induct)
  case (1 len s)
  obtain y r where rx: "rx_recv len (so_in s) = (y, r)" by fastforce
  have a: "length (avail r) \<le> length (pending s)" if "0 < len"
    using rx_recv_avail [OF rx] by auto
  show ?case
  proof (cases "len = 0")
    case True
    then show ?thesis by (simp add: recv_all.simps)
  next
    case False
    show ?thesis
    proof (cases y)
      case None
      then show ?thesis using False rx a by (simp add: recv_all.simps [of len])
    next
      case (Some bs)
      then show ?thesis using "1.IH" [OF False rx [symmetric] Some] False rx a
        by (auto simp: recv_all.simps [of len] split: prod.splits option.splits)
    qed
  qed
qed

lemma recv_all_some:
  assumes "recv_all len s = (Some bs, s')"
  shows "length bs = len" "pending s = bs @ pending s'" "rx_only s s'"
  using recv_all_spec [OF assms] by (auto split: if_splits)

lemma drain_spec:
  assumes "drain len s = (x, s')"
  shows "rx_only s s' \<and> x = (len \<le> length (pending s)) \<and> (x \<longrightarrow> pending s' = drop len (pending s))"
  using assms
proof (induction len s arbitrary: x s' rule: drain.induct)
  case (1 len s)
  let ?c = "if len > 4096 then 4096 else len"
  obtain y s1 where r: "recv_all ?c s = (y, s1)" by fastforce
  note rs = recv_all_spec [OF r]
  show ?case
  proof (cases "len = 0 \<or> y = None")
    case True
    then show ?thesis using "1.prems" rs r by (auto simp: drain.simps [of len] Let_def split: if_splits)
  next
    case False
    then obtain bs where y: "y = Some bs" by auto
    have d: "drain (len - ?c) s1 = (x, s')"
      using "1.prems" False r y by (simp add: drain.simps [of len] Let_def)
    have "rx_only s1 s' \<and> x = (len - ?c \<le> length (pending s1)) \<and> (x \<longrightarrow> pending s' = drop (len - ?c) (pending s1))"
      by (rule "1.IH" [OF _ refl r [symmetric] y d]) (use False in auto)
    then show ?thesis using rs y rx_only_trans [of s s1] by (auto split: if_splits)
  qed
qed

lemma recv_hdr_nb_some:
  assumes "recv_hdr_nb s = (Hdr bs, s')"
  shows "length bs = 28" "pending s = bs @ pending s'" "rx_only s s'"
proof -
  obtain x r where n: "rx_recv_nb 28 (so_in s) = (x, r)" by fastforce
  then obtain c where x: "x = Got c" using assms by (cases x) (auto simp: recv_hdr_nb_def)
  have c: "length c \<le> 28" "pending s = c @ avail r" using rx_recv_nb_avail [OF n] x by auto
  have "length bs = 28 \<and> pending s = bs @ pending s' \<and> rx_only s s'"
  proof (cases "length c = 28")
    case True
    then show ?thesis using assms n x c by (auto simp: recv_hdr_nb_def)
  next
    case False
    then obtain rest where "recv_all (28 - length c) (s\<lparr>so_in := r\<rparr>) = (Some rest, s')" "bs = c @ rest"
      using assms n x by (auto simp: recv_hdr_nb_def split: prod.splits option.splits)
    with recv_all_some [OF this(1)] c show ?thesis using rx_only_trans [OF rx_only_in [of s r]] by auto
  qed
  then show "length bs = 28" "pending s = bs @ pending s'" "rx_only s s'" by auto
qed

lemma recv_hdr_nb_none:
  assumes "recv_hdr_nb s = (No_Hdr, s')"
  shows "pending s' = pending s" "rx_only s s'"
  using assms rx_recv_nb_avail [of 28 "so_in s" Would_Block]
  by (auto simp: recv_hdr_nb_def split: prod.splits nb.splits option.splits if_splits)

lemma recv_hdr_nb_shrinks: "length (pending (snd (recv_hdr_nb s))) \<le> length (pending s)"
proof -
  obtain x r where n: "rx_recv_nb 28 (so_in s) = (x, r)" by fastforce
  have "length (avail r) \<le> length (pending s)"
    using rx_recv_nb_avail [OF n] n by (cases x) (auto dest: rx_recv_nb_gone)
  moreover have "length (pending (snd (recv_all m (s\<lparr>so_in := r\<rparr>)))) \<le> length (avail r)" for m
    using recv_all_shrinks [of m "s\<lparr>so_in := r\<rparr>"] by simp
  ultimately show ?thesis
    by (cases x) (auto simp: recv_hdr_nb_def n case_prod_unfold split: option.splits intro: order_trans)
qed

text \<open>What was sent is a prefix of the buffer, all of it on success.\<close>

lemma send_all_spec:
  assumes "send_all buf s = (x, s')"
  shows "so_in s' = so_in s \<and> (\<exists>n \<le> length buf. so_out s' = so_out s @ take n buf \<and> (if x then n = length buf else n < length buf))"
  using assms
proof (induction buf s arbitrary: x s' rule: send_all.induct)
  case (1 buf s)
  show ?case
  proof (cases "buf = []")
    case True
    then show ?thesis using "1.prems" by (simp add: send_all.simps)
  next
    case False
    obtain n ks where t: "tx_send (length buf) (so_send s) = (n, ks)" by fastforce
    have n: "n \<le> length buf" using t by (auto simp: tx_send_def split: list.splits)
    show ?thesis
    proof (cases "n = 0")
      case True
      then show ?thesis using "1.prems" False t by (auto simp: send_all.simps [of buf])
    next
      case nz: False
      let ?s = "s\<lparr>so_send := ks, so_out := so_out s @ take n buf\<rparr>"
      have "send_all (drop n buf) ?s = (x, s')" using "1.prems" False t nz by (simp add: send_all.simps [of buf])
      from "1.IH" [OF False t [symmetric] nz this] obtain m where
        m: "so_in s' = so_in s" "m \<le> length buf - n" "so_out s' = so_out s @ take n buf @ take m (drop n buf)"
          "if x then m = length (drop n buf) else m < length (drop n buf)" by auto
      have "take n buf @ take m (drop n buf) = take (n + m) buf" by (simp add: take_add)
      with m n show ?thesis by (intro conjI exI [of _ "n + m"]) (auto split: if_splits)
    qed
  qed
qed

lemma send_all_ok:
  assumes "send_all buf s = (True, s')"
  shows "so_out s' = so_out s @ buf" "so_in s' = so_in s"
  using send_all_spec [OF assms] by auto

text \<open>A peer that takes everything it is sent.\<close>

definition healthy :: "sock \<Rightarrow> bool" where
  "healthy s \<longleftrightarrow> 0 \<notin> set (so_send s)"

lemma tx_send_healthy:
  assumes "tx_send n ks = (k, ks')" "0 \<notin> set ks"
  shows "0 \<notin> set ks'" "0 < n \<Longrightarrow> 0 < k"
  using assms by (auto simp: tx_send_def split: list.splits)

lemma send_all_healthy:
  assumes "healthy s"
  shows "fst (send_all buf s)" "healthy (snd (send_all buf s))"
proof -
  have "fst (send_all buf s) \<and> healthy (snd (send_all buf s))"
    using assms
  proof (induction buf s rule: send_all.induct)
    case (1 buf s)
    obtain n ks where t: "tx_send (length buf) (so_send s) = (n, ks)" by fastforce
    show ?case
    proof (cases "buf = []")
      case True
      then show ?thesis using "1.prems" by (simp add: send_all.simps)
    next
      case False
      have h: "0 \<notin> set ks" "n \<noteq> 0" using tx_send_healthy [OF t] "1.prems" False by (auto simp: healthy_def)
      have "fst (send_all (drop n buf) (s\<lparr>so_send := ks, so_out := so_out s @ take n buf\<rparr>)) \<and>
          healthy (snd (send_all (drop n buf) (s\<lparr>so_send := ks, so_out := so_out s @ take n buf\<rparr>)))"
        by (rule "1.IH" [OF False t [symmetric] h(2)]) (use h in \<open>simp add: healthy_def\<close>)
      then show ?thesis using False t h by (simp add: send_all.simps [of buf])
    qed
  qed
  then show "fst (send_all buf s)" "healthy (snd (send_all buf s))" by auto
qed

lemma send_all_healthy_eq:
  assumes "healthy s"
  obtains s' where "send_all buf s = (True, s')" "so_out s' = so_out s @ buf" "so_in s' = so_in s" "healthy s'"
proof -
  obtain x s' where r: "send_all buf s = (x, s')" by fastforce
  then have "x" "healthy s'" using send_all_healthy [OF assms, of buf] by auto
  with r send_all_ok [of buf s s'] that show thesis by auto
qed

lemma rx_only_healthy: "rx_only s s' \<Longrightarrow> healthy s' = healthy s"
  by (simp add: rx_only_def healthy_def)

section \<open>The request header\<close>

record nbd_req =
  rq_magic :: nat
  rq_flags :: nat
  rq_type :: nat
  rq_handle :: "byte list"
  rq_from :: nat
  rq_len :: nat

text \<open>The 28 bytes of @struct nbd_req_hdr@, in host order but for the handle.\<close>

definition decode_req :: "byte list \<Rightarrow> nbd_req" where
  "decode_req bs =
     \<lparr>rq_magic = be_nat (take 4 bs), rq_flags = be_nat (take 2 (drop 4 bs)), rq_type = be_nat (take 2 (drop 6 bs)),
      rq_handle = take 8 (drop 8 bs), rq_from = be_nat (take 8 (drop 16 bs)), rq_len = be_nat (take 4 (drop 24 bs))\<rparr>"

definition encode_req :: "nbd_req \<Rightarrow> byte list" where
  "encode_req h = be 4 (rq_magic h) @ be 2 (rq_flags h) @ be 2 (rq_type h) @ rq_handle h @ be 8 (rq_from h) @ be 4 (rq_len h)"

definition NBD_REQUEST_MAGIC :: nat where "NBD_REQUEST_MAGIC = 0x25609513"
definition NBD_RESPONSE_MAGIC :: nat where "NBD_RESPONSE_MAGIC = 0x67446698"

text \<open>@struct nbd_resp_hdr@.\<close>

definition resp_hdr :: "nat \<Rightarrow> byte list \<Rightarrow> byte list" where
  "resp_hdr error handle = be 4 NBD_RESPONSE_MAGIC @ be 4 error @ handle"

definition req_ok :: "nbd_req \<Rightarrow> bool" where
  "req_ok h \<longleftrightarrow> rq_magic h < 2 ^ 32 \<and> rq_flags h < 2 ^ 16 \<and> rq_type h < 2 ^ 16 \<and> length (rq_handle h) = 8 \<and>
     rq_from h < 2 ^ 64 \<and> rq_len h < 2 ^ 32"

lemma length_encode_req: "req_ok h \<Longrightarrow> length (encode_req h) = 28"
  by (simp add: encode_req_def req_ok_def)

lemma decode_encode_req: "req_ok h \<Longrightarrow> decode_req (encode_req h) = h"
  by (simp add: decode_req_def encode_req_def req_ok_def be_nat_be)

lemma decode_req_ok: "length bs = 28 \<Longrightarrow> req_ok (decode_req bs)"
  using be_nat_bound [of "take 4 bs"] be_nat_bound [of "take 2 (drop 4 bs)"] be_nat_bound [of "take 2 (drop 6 bs)"]
    be_nat_bound [of "take 8 (drop 16 bs)"] be_nat_bound [of "take 4 (drop 24 bs)"]
  by (simp add: req_ok_def decode_req_def)

end
