(* ===== verification/Nbd_Handshake.thy ===== *)
theory Nbd_Handshake
  imports Nbd_Wire
begin

text \<open>
  The fixed-newstyle handshake: the greeting, the client's flags and the option haggling that
  ends with the transmission phase or with a dropped connection. An abstract conversation (a
  list of options with their payloads) is the specification the byte-level loop implements.
\<close>

section \<open>Constants\<close>

definition NBD_MAGIC_INIT :: nat where "NBD_MAGIC_INIT = 0x4e42444d41474943"
definition NBD_IHAVEOPT :: nat where "NBD_IHAVEOPT = 0x49484156454f5054"
definition NBD_OPT_REP_MAGIC :: nat where "NBD_OPT_REP_MAGIC = 0x3e889045565a9"

definition NBD_FLAG_FIXED_NEWSTYLE :: nat where "NBD_FLAG_FIXED_NEWSTYLE = 1"
definition NBD_FLAG_NO_ZEROES :: nat where "NBD_FLAG_NO_ZEROES = 2"

definition NBD_OPT_EXPORT_NAME :: nat where "NBD_OPT_EXPORT_NAME = 1"
definition NBD_OPT_ABORT :: nat where "NBD_OPT_ABORT = 2"
definition NBD_OPT_LIST :: nat where "NBD_OPT_LIST = 3"
definition NBD_OPT_INFO :: nat where "NBD_OPT_INFO = 6"
definition NBD_OPT_GO :: nat where "NBD_OPT_GO = 7"

definition NBD_REP_ACK :: nat where "NBD_REP_ACK = 1"
definition NBD_REP_SERVER :: nat where "NBD_REP_SERVER = 2"
definition NBD_REP_INFO :: nat where "NBD_REP_INFO = 3"
definition NBD_REP_ERR_UNSUP :: nat where "NBD_REP_ERR_UNSUP = 0x80000000 + 1"

definition NBD_INFO_EXPORT :: nat where "NBD_INFO_EXPORT = 0"

text \<open>NBD_FLAG_HAS_FLAGS, NBD_FLAG_SEND_FLUSH, NBD_FLAG_SEND_TRIM and NBD_FLAG_CAN_MULTI_CONN.\<close>

definition tx_flags :: nat where "tx_flags = 0x0001 + 0x0004 + 0x0020 + 0x0100"

lemmas opt_codes = NBD_OPT_EXPORT_NAME_def NBD_OPT_ABORT_def NBD_OPT_LIST_def NBD_OPT_INFO_def NBD_OPT_GO_def

section \<open>Option replies\<close>

definition send_opt_reply :: "nat \<Rightarrow> nat \<Rightarrow> byte list \<Rightarrow> sock \<Rightarrow> bool \<times> sock" where
  "send_opt_reply opt reply_type data s =
     (case send_all (be 8 NBD_OPT_REP_MAGIC @ be 4 opt @ be 4 reply_type @ be 4 (length data)) s of
        (ok, s1) \<Rightarrow> if \<not> ok then (False, s1) else if data \<noteq> [] then send_all data s1 else (True, s1))"

definition send_export_info :: "nat \<Rightarrow> nat \<Rightarrow> sock \<Rightarrow> bool \<times> sock" where
  "send_export_info opt sz s =
     send_opt_reply opt NBD_REP_INFO (be 2 NBD_INFO_EXPORT @ be 8 sz @ be 2 tx_flags) s"

text \<open>Two steps of which the second is not tried when the first fails.\<close>

definition both :: "(sock \<Rightarrow> bool \<times> sock) \<Rightarrow> (sock \<Rightarrow> bool \<times> sock) \<Rightarrow> sock \<Rightarrow> bool \<times> sock" where
  "both f g s = (case f s of (ok, s1) \<Rightarrow> if ok then g s1 else (False, s1))"

section \<open>One option\<close>

datatype opt_next = Transmit | Reject | More_Options

definition next_if :: "opt_next \<Rightarrow> bool \<times> sock \<Rightarrow> opt_next \<times> sock" where
  "next_if n r = (if fst r then n else Reject, snd r)"

definition handle_opt :: "nat \<Rightarrow> bool \<Rightarrow> nat \<Rightarrow> nat \<Rightarrow> sock \<Rightarrow> opt_next \<times> sock" where
  "handle_opt disk_size no_zeroes opt opt_len s =
     (if opt = NBD_OPT_EXPORT_NAME then
        next_if Transmit (both (drain opt_len) (both (send_all (be 8 disk_size @ be 2 tx_flags))
          (\<lambda>s. if no_zeroes then (True, s) else send_all (replicate 124 0) s)) s)
      else if opt = NBD_OPT_GO \<or> opt = NBD_OPT_INFO then
        next_if (if opt = NBD_OPT_GO then Transmit else More_Options)
          (both (drain opt_len) (both (send_export_info opt disk_size) (send_opt_reply opt NBD_REP_ACK [])) s)
      else if opt = NBD_OPT_LIST then
        next_if More_Options
          (both (drain opt_len) (both (send_opt_reply opt NBD_REP_SERVER (be 4 0)) (send_opt_reply opt NBD_REP_ACK [])) s)
      else if opt = NBD_OPT_ABORT then
        (Reject, snd (send_opt_reply opt NBD_REP_ACK [] (snd (drain opt_len s))))
      else next_if More_Options (both (drain opt_len) (send_opt_reply opt NBD_REP_ERR_UNSUP []) s))"

section \<open>Input is only consumed\<close>

definition shrinks :: "(sock \<Rightarrow> 'a \<times> sock) \<Rightarrow> bool" where
  "shrinks f \<longleftrightarrow> (\<forall>s. length (pending (snd (f s))) \<le> length (pending s))"

lemma shrinks_send: "shrinks (send_all buf)"
  using send_all_spec [of buf] by (metis (no_types, lifting) shrinks_def order_refl prod.collapse)

lemma drain_shrinks_any: "length (pending (snd (drain len s))) \<le> length (pending s)"
proof (induction len s rule: drain.induct)
  case (1 len s)
  let ?c = "if len > 4096 then 4096 else len"
  obtain y s1 where r: "recv_all ?c s = (y, s1)" by fastforce
  have p: "length (pending s1) \<le> length (pending s)" using recv_all_shrinks [of ?c s] r by simp
  show ?case
  proof (cases "len = 0 \<or> y = None")
    case True
    then show ?thesis using r p by (auto simp: drain.simps [of len] Let_def)
  next
    case False
    then obtain bs where y: "y = Some bs" by auto
    have "length (pending (snd (drain (len - ?c) s1))) \<le> length (pending s1)"
      by (rule "1.IH" [OF _ refl r [symmetric] y]) (use False in auto)
    then show ?thesis using False r y p by (simp add: drain.simps [of len] Let_def)
  qed
qed

lemma shrinks_drain: "shrinks (drain len)"
  by (simp add: shrinks_def drain_shrinks_any)

lemma shrinks_both: "shrinks f \<Longrightarrow> shrinks g \<Longrightarrow> shrinks (both f g)"
  by (auto simp: shrinks_def both_def case_prod_unfold intro: order_trans)

lemma shrinks_reply: "shrinks (send_opt_reply opt rt data)"
  unfolding shrinks_def send_opt_reply_def
  using shrinks_send by (auto simp: shrinks_def case_prod_unfold intro: order_trans)

lemma shrinks_info: "shrinks (send_export_info opt sz)"
  unfolding shrinks_def send_export_info_def using shrinks_reply by (simp add: shrinks_def)

lemma shrinks_zeroes: "shrinks (\<lambda>s. if nz then (True, s) else send_all buf s)"
  using shrinks_send by (simp add: shrinks_def)

lemma handle_opt_shrinks: "length (pending (snd (handle_opt sz nz opt len s))) \<le> length (pending s)"
proof -
  have b: "length (pending (snd (both f g s))) \<le> length (pending s)" if "shrinks f" "shrinks g" for f g
    using shrinks_both [OF that] by (simp add: shrinks_def)
  have a: "length (pending (snd (send_opt_reply opt NBD_REP_ACK [] (snd (drain len s))))) \<le> length (pending s)"
    using shrinks_reply shrinks_drain by (meson shrinks_def order_trans)
  show ?thesis
    using a by (auto simp: handle_opt_def next_if_def intro!: b shrinks_both shrinks_drain shrinks_reply shrinks_info
        shrinks_send shrinks_zeroes)
qed

section \<open>The handshake\<close>

text \<open>The result is True when transmission begins and False for the return value -1.\<close>

function opt_loop :: "nat \<Rightarrow> bool \<Rightarrow> sock \<Rightarrow> bool \<times> sock" where
  "opt_loop disk_size no_zeroes s =
     (case recv_all 16 s of
        (None, s1) \<Rightarrow> (False, s1)
      | (Some h, s1) \<Rightarrow>
          if be_nat (take 8 h) \<noteq> NBD_IHAVEOPT then (False, s1)
          else let opt = be_nat (take 4 (drop 8 h)); opt_len = be_nat (drop 12 h)
               in if opt_len > 65536 then (False, s1)
                  else case handle_opt disk_size no_zeroes opt opt_len s1 of
                         (Transmit, s2) \<Rightarrow> (True, s2)
                       | (Reject, s2) \<Rightarrow> (False, s2)
                       | (More_Options, s2) \<Rightarrow> opt_loop disk_size no_zeroes s2)"
  by pat_completeness auto

termination
proof (relation "measure (\<lambda>(sz, nz, s). length (pending s))", goal_cases)
  case 1
  then show ?case by simp
next
  case (2 sz nz s x s1 h opt len y s2)
  have "length (pending s2) \<le> length (pending s1)"
    using handle_opt_shrinks [of sz nz opt len s1] 2(6,7) by (metis snd_conv)
  moreover have "length (pending s) = 16 + length (pending s1)"
    using recv_all_some(1,2) [of 16 s h s1] 2(1,2) by simp
  ultimately show ?case by simp
qed

declare opt_loop.simps [simp del]

definition greeting :: "byte list" where
  "greeting = be 8 NBD_MAGIC_INIT @ be 8 NBD_IHAVEOPT @ be 2 (NBD_FLAG_FIXED_NEWSTYLE + NBD_FLAG_NO_ZEROES)"

definition nbd_handshake :: "nat \<Rightarrow> sock \<Rightarrow> bool \<times> sock" where
  "nbd_handshake disk_size s =
     (case send_all greeting s of
        (ok, s1) \<Rightarrow>
          if \<not> ok then (False, s1)
          else case recv_all 4 s1 of
                 (None, s2) \<Rightarrow> (False, s2)
               | (Some client_flags, s2) \<Rightarrow> opt_loop disk_size (bit (be_nat client_flags) 1) s2)"

section \<open>The conversation it implements\<close>

text \<open>An option as the client means it: its code and its payload.\<close>

definition enc_opt :: "nat \<times> byte list \<Rightarrow> byte list" where
  "enc_opt x = be 8 NBD_IHAVEOPT @ be 4 (fst x) @ be 4 (length (snd x)) @ snd x"

definition opt_reply :: "nat \<Rightarrow> nat \<Rightarrow> byte list \<Rightarrow> byte list" where
  "opt_reply opt rt data = be 8 NBD_OPT_REP_MAGIC @ be 4 opt @ be 4 rt @ be 4 (length data) @ data"

text \<open>What the server answers to an option, and what happens then.\<close>

definition opt_answer :: "nat \<Rightarrow> bool \<Rightarrow> nat \<Rightarrow> byte list" where
  "opt_answer sz nz opt =
     (if opt = NBD_OPT_EXPORT_NAME then be 8 sz @ be 2 tx_flags @ (if nz then [] else replicate 124 0)
      else if opt = NBD_OPT_GO \<or> opt = NBD_OPT_INFO then
        opt_reply opt NBD_REP_INFO (be 2 NBD_INFO_EXPORT @ be 8 sz @ be 2 tx_flags) @ opt_reply opt NBD_REP_ACK []
      else if opt = NBD_OPT_LIST then opt_reply opt NBD_REP_SERVER (be 4 0) @ opt_reply opt NBD_REP_ACK []
      else if opt = NBD_OPT_ABORT then opt_reply opt NBD_REP_ACK []
      else opt_reply opt NBD_REP_ERR_UNSUP [])"

definition opt_outcome :: "nat \<Rightarrow> opt_next" where
  "opt_outcome opt =
     (if opt = NBD_OPT_EXPORT_NAME \<or> opt = NBD_OPT_GO then Transmit else if opt = NBD_OPT_ABORT then Reject else More_Options)"

definition opt_ok :: "nat \<times> byte list \<Rightarrow> bool" where
  "opt_ok x \<longleftrightarrow> fst x < 2 ^ 32 \<and> length (snd x) \<le> 65536"

text \<open>A step that on a healthy connection consumes @rx@ and sends @tx@.\<close>

definition exchanges :: "byte list \<Rightarrow> byte list \<Rightarrow> (sock \<Rightarrow> bool \<times> sock) \<Rightarrow> bool" where
  "exchanges rx tx f \<longleftrightarrow> (\<forall>s rest. healthy s \<longrightarrow> pending s = rx @ rest \<longrightarrow>
     (\<exists>s'. f s = (True, s') \<and> healthy s' \<and> pending s' = rest \<and> so_out s' = so_out s @ tx))"

lemma exchanges_both:
  assumes "exchanges rx1 tx1 f" "exchanges rx2 tx2 g"
  shows "exchanges (rx1 @ rx2) (tx1 @ tx2) (both f g)"
  unfolding exchanges_def
proof (intro allI impI)
  fix s rest assume h: "healthy s" "pending s = (rx1 @ rx2) @ rest"
  from assms(1) h obtain s1 where 1: "f s = (True, s1)" "healthy s1" "pending s1 = rx2 @ rest" "so_out s1 = so_out s @ tx1"
    unfolding exchanges_def by (metis append.assoc)
  from assms(2) 1 obtain s2 where 2: "g s1 = (True, s2)" "healthy s2" "pending s2 = rest" "so_out s2 = so_out s1 @ tx2"
    unfolding exchanges_def by blast
  with 1 show "\<exists>s'. both f g s = (True, s') \<and> healthy s' \<and> pending s' = rest \<and> so_out s' = so_out s @ tx1 @ tx2"
    by (simp add: both_def)
qed

lemma exchanges_send: "exchanges [] buf (send_all buf)"
  unfolding exchanges_def by (metis append_Nil send_all_healthy_eq)

lemma exchanges_drain: "exchanges pl [] (drain (length pl))"
  unfolding exchanges_def
proof (intro allI impI)
  fix s rest assume h: "healthy s" "pending s = pl @ rest"
  obtain x s' where d: "drain (length pl) s = (x, s')" by fastforce
  have "x" "pending s' = rest" "rx_only s s'" using drain_spec [OF d] h(2) by auto
  then show "\<exists>s'. drain (length pl) s = (True, s') \<and> healthy s' \<and> pending s' = rest \<and> so_out s' = so_out s @ []"
    using d h(1) rx_only_healthy [of s s'] by (simp add: rx_only_def)
qed

lemma exchanges_reply: "exchanges [] (opt_reply opt rt data) (send_opt_reply opt rt data)"
proof (cases "data = []")
  case True
  then have "send_opt_reply opt rt data = send_all (opt_reply opt rt data)"
    by (auto simp: send_opt_reply_def opt_reply_def fun_eq_iff split: prod.splits)
  then show ?thesis by (simp add: exchanges_send)
next
  case False
  then have "send_opt_reply opt rt data =
      both (send_all (be 8 NBD_OPT_REP_MAGIC @ be 4 opt @ be 4 rt @ be 4 (length data))) (send_all data)"
    by (simp add: send_opt_reply_def both_def fun_eq_iff split: prod.splits)
  with exchanges_both [OF exchanges_send exchanges_send,
      of "be 8 NBD_OPT_REP_MAGIC @ be 4 opt @ be 4 rt @ be 4 (length data)" data] show ?thesis by (simp add: opt_reply_def)
qed

lemma exchanges_zeroes: "exchanges [] (if nz then [] else buf) (\<lambda>s. if nz then (True, s) else send_all buf s)"
  using exchanges_send [of buf] by (simp add: exchanges_def)

lemma exchangesD:
  assumes "exchanges rx tx f" "healthy s" "pending s = rx @ rest"
  obtains s' where "f s = (True, s')" "healthy s'" "pending s' = rest" "so_out s' = so_out s @ tx"
  using assms unfolding exchanges_def by blast

lemma handle_opt_answers:
  assumes "healthy s" "pending s = pl @ rest"
  obtains s' where "handle_opt sz nz opt (length pl) s = (opt_outcome opt, s')" "healthy s'" "pending s' = rest"
    "so_out s' = so_out s @ opt_answer sz nz opt"
proof -
  note finish = that
  have drained: thesis
    if g: "exchanges [] (opt_answer sz nz opt) g"
      and h: "handle_opt sz nz opt (length pl) s = next_if (opt_outcome opt) (both (drain (length pl)) g s)" for g
  proof (rule exchangesD [OF exchanges_both [OF exchanges_drain g], of s pl rest])
    fix s' assume "both (drain (length pl)) g s = (True, s')" "healthy s'" "pending s' = rest" "so_out s' = so_out s @ [] @ opt_answer sz nz opt"
    then show thesis using h finish by (simp add: next_if_def)
  qed (use assms in simp_all)
  note two = exchanges_both [where ?rx1.0 = "[]" and ?rx2.0 = "[]", simplified]
  consider (name) "opt = NBD_OPT_EXPORT_NAME" | (go) "opt = NBD_OPT_GO \<or> opt = NBD_OPT_INFO" | (list) "opt = NBD_OPT_LIST"
    | (abort) "opt = NBD_OPT_ABORT"
    | (other) "opt \<notin> {NBD_OPT_EXPORT_NAME, NBD_OPT_GO, NBD_OPT_INFO, NBD_OPT_LIST, NBD_OPT_ABORT}" by blast
  then show thesis
  proof cases
    case name
    have "exchanges [] (opt_answer sz nz opt) (both (send_all (be 8 sz @ be 2 tx_flags))
        (\<lambda>s. if nz then (True, s) else send_all (replicate 124 0) s))"
      using two [OF exchanges_send exchanges_zeroes, of "be 8 sz @ be 2 tx_flags" nz "replicate 124 0"] name
      by (simp add: opt_answer_def)
    then show ?thesis by (rule drained) (use name in \<open>auto simp: handle_opt_def opt_outcome_def\<close>)
  next
    case go
    have "exchanges [] (opt_answer sz nz opt) (both (send_export_info opt sz) (send_opt_reply opt NBD_REP_ACK []))"
      using two [OF exchanges_reply exchanges_reply] go by (auto simp: opt_answer_def send_export_info_def [abs_def] opt_codes)
    then show ?thesis by (rule drained) (use go in \<open>auto simp: handle_opt_def opt_outcome_def opt_codes\<close>)
  next
    case list
    have "exchanges [] (opt_answer sz nz opt) (both (send_opt_reply opt NBD_REP_SERVER (be 4 0)) (send_opt_reply opt NBD_REP_ACK []))"
      using two [OF exchanges_reply exchanges_reply] list by (simp add: opt_answer_def opt_codes)
    then show ?thesis by (rule drained) (use list in \<open>auto simp: handle_opt_def opt_outcome_def opt_codes\<close>)
  next
    case abort
    obtain s1 where 1: "drain (length pl) s = (True, s1)" "healthy s1" "pending s1 = rest" "so_out s1 = so_out s @ []"
      by (rule exchangesD [OF exchanges_drain assms])
    obtain s2 where 2: "send_opt_reply opt NBD_REP_ACK [] s1 = (True, s2)" "healthy s2" "pending s2 = rest"
        "so_out s2 = so_out s1 @ opt_reply opt NBD_REP_ACK []"
      by (rule exchangesD [OF exchanges_reply 1(2), of rest]) (use 1(3) in auto)
    show ?thesis
      by (rule finish) (use 1 2 abort in \<open>auto simp: handle_opt_def opt_outcome_def opt_answer_def opt_codes\<close>)
  next
    case other
    have "exchanges [] (opt_answer sz nz opt) (send_opt_reply opt NBD_REP_ERR_UNSUP [])"
      using exchanges_reply other by (simp add: opt_answer_def)
    then show ?thesis by (rule drained) (use other in \<open>auto simp: handle_opt_def opt_outcome_def\<close>)
  qed
qed

lemma opt_loop_step:
  assumes "healthy s" "opt_ok x" "pending s = enc_opt x @ rest"
  obtains s' where "healthy s'" "pending s' = rest" "so_out s' = so_out s @ opt_answer sz nz (fst x)"
    "opt_loop sz nz s = (case opt_outcome (fst x) of Transmit \<Rightarrow> (True, s') | Reject \<Rightarrow> (False, s') | More_Options \<Rightarrow> opt_loop sz nz s')"
proof -
  let ?h = "be 8 NBD_IHAVEOPT @ be 4 (fst x) @ be 4 (length (snd x))"
  have p: "pending s = ?h @ snd x @ rest" using assms(3) by (simp add: enc_opt_def)
  obtain y s1 where r: "recv_all 16 s = (y, s1)" by fastforce
  have s1: "y = Some ?h" "pending s1 = snd x @ rest" "rx_only s s1" using recv_all_spec [OF r] p by auto
  have dec: "be_nat (take 8 ?h) = NBD_IHAVEOPT" "be_nat (take 4 (drop 8 ?h)) = fst x" "be_nat (drop 12 ?h) = length (snd x)"
    using assms(2) by (auto simp: be_nat_be opt_ok_def NBD_IHAVEOPT_def)
  have "healthy s1" using rx_only_healthy [OF s1(3)] assms(1) by simp
  from handle_opt_answers [OF this s1(2), of sz nz "fst x"] obtain s' where
    s': "handle_opt sz nz (fst x) (length (snd x)) s1 = (opt_outcome (fst x), s')" "healthy s'" "pending s' = rest"
      "so_out s' = so_out s1 @ opt_answer sz nz (fst x)" by blast
  have "opt_loop sz nz s = (case opt_outcome (fst x) of Transmit \<Rightarrow> (True, s') | Reject \<Rightarrow> (False, s') | More_Options \<Rightarrow> opt_loop sz nz s')"
    using assms(2) unfolding opt_loop.simps [of sz nz s] r s1(1) Let_def prod.case option.case dec s'(1) by (simp add: opt_ok_def)
  then show thesis using that [of s'] s' s1(3) by (simp add: rx_only_def)
qed

lemma opt_loop_conversation:
  assumes "healthy s" "pending s = concat (map enc_opt opts) @ enc_opt fin @ rest"
    and "\<And>x. x \<in> set opts \<Longrightarrow> opt_ok x \<and> opt_outcome (fst x) = More_Options" "opt_ok fin" "opt_outcome (fst fin) \<noteq> More_Options"
  shows "\<exists>s'. opt_loop sz nz s = (opt_outcome (fst fin) = Transmit, s') \<and> healthy s' \<and> pending s' = rest \<and>
    so_out s' = so_out s @ concat (map (\<lambda>x. opt_answer sz nz (fst x)) opts) @ opt_answer sz nz (fst fin)"
  using assms
proof (induction opts arbitrary: s)
  case Nil
  obtain s' where "healthy s'" "pending s' = rest" "so_out s' = so_out s @ opt_answer sz nz (fst fin)"
    "opt_loop sz nz s = (case opt_outcome (fst fin) of Transmit \<Rightarrow> (True, s') | Reject \<Rightarrow> (False, s') | More_Options \<Rightarrow> opt_loop sz nz s')"
    by (rule opt_loop_step [OF Nil.prems(1,4), of rest]) (use Nil.prems(2) in auto)
  then show ?case using Nil.prems(5) by (cases "opt_outcome (fst fin)") auto
next
  case (Cons x opts)
  have x: "opt_ok x" "opt_outcome (fst x) = More_Options" using Cons.prems(3) by auto
  obtain s1 where s1: "healthy s1" "pending s1 = concat (map enc_opt opts) @ enc_opt fin @ rest"
    "so_out s1 = so_out s @ opt_answer sz nz (fst x)" "opt_loop sz nz s = opt_loop sz nz s1"
    by (rule opt_loop_step [OF Cons.prems(1) x(1), of "concat (map enc_opt opts) @ enc_opt fin @ rest"]) (use Cons.prems(2) x(2) in auto)
  from Cons.IH [OF s1(1,2)] Cons.prems(3-5) s1(3,4) show ?case by auto
qed

lemma handshake_converses:
  assumes "healthy s" "pending s = be 4 flags @ concat (map enc_opt opts) @ enc_opt fin @ rest" "flags < 2 ^ 32"
    and "\<And>x. x \<in> set opts \<Longrightarrow> opt_ok x \<and> opt_outcome (fst x) = More_Options" "opt_ok fin" "opt_outcome (fst fin) \<noteq> More_Options"
  shows "\<exists>s'. nbd_handshake disk_size s = (opt_outcome (fst fin) = Transmit, s') \<and> pending s' = rest \<and> healthy s' \<and>
    so_out s' = so_out s @ greeting @ concat (map (\<lambda>x. opt_answer disk_size (bit flags 1) (fst x)) opts) @
      opt_answer disk_size (bit flags 1) (fst fin)"
proof -
  obtain s1 where g: "send_all greeting s = (True, s1)" "so_out s1 = so_out s @ greeting" "so_in s1 = so_in s" "healthy s1"
    by (rule send_all_healthy_eq [OF assms(1)])
  obtain y s2 where r: "recv_all 4 s1 = (y, s2)" by fastforce
  have s2: "y = Some (be 4 flags)" "pending s2 = concat (map enc_opt opts) @ enc_opt fin @ rest" "rx_only s1 s2"
    using recv_all_spec [OF r] assms(2) g(3) by auto
  have h2: "healthy s2" using rx_only_healthy [OF s2(3)] g(4) by simp
  have "be_nat (be 4 flags) = flags" using assms(3) by (simp add: be_nat_be)
  then have "nbd_handshake disk_size s = opt_loop disk_size (bit flags 1) s2"
    by (simp add: nbd_handshake_def g(1) r s2(1))
  with opt_loop_conversation [OF h2 s2(2) assms(4-6), of disk_size "bit flags 1"] s2(3) g(2) show ?thesis
    by (auto simp: rx_only_def)
qed

text \<open>
  C23. The handshake implements the option conversation. Whatever way the client's bytes are cut into
  segments: after the client's flags and any options that keep the conversation going (LIST,
  INFO, unknown ones), an EXPORT_NAME or GO starts transmission and an ABORT ends the
  connection; the server has then sent the greeting and the answer to each option in
  order, with the 124 zero bytes after EXPORT_NAME only for a client that did not waive them, and has
  consumed exactly the conversation, so that the next byte it reads is the first of a request.
\<close>

theorem handshake_conversation:
  assumes "healthy s" "pending s = be 4 flags @ concat (map enc_opt opts) @ enc_opt fin @ rest" "flags < 2 ^ 32"
    and "\<And>x. x \<in> set opts \<Longrightarrow> opt_ok x \<and> opt_outcome (fst x) = More_Options" "opt_ok fin" "opt_outcome (fst fin) \<noteq> More_Options"
  shows "\<exists>s'. nbd_handshake disk_size s = (opt_outcome (fst fin) = Transmit, s') \<and> pending s' = rest \<and> healthy s' \<and>
    so_out s' = so_out s @ greeting @ concat (map (\<lambda>x. opt_answer disk_size (bit flags 1) (fst x)) opts) @
      opt_answer disk_size (bit flags 1) (fst fin)"
  by (rule handshake_converses [OF assms])

text \<open>A client that lists the exports, asks for the export and starts, in small segments.\<close>

definition demo_sock :: sock where
  "demo_sock = \<lparr>so_in = [Bytes (be 4 3 @ take 5 (enc_opt (NBD_OPT_LIST, []))), Pause, Bytes (drop 5 (enc_opt (NBD_OPT_LIST, []))),
     Bytes (enc_opt (NBD_OPT_GO, [0, 0, 0, 0, 0, 0])), Pause], so_send = [1, 7], so_out = []\<rparr>"

theorem handshake_conversation_witness:
  "\<exists>s'. nbd_handshake 8192 demo_sock = (True, s') \<and> pending s' = [] \<and>
     so_out s' = greeting @ opt_answer 8192 True NBD_OPT_LIST @ opt_answer 8192 True NBD_OPT_GO"
proof -
  have p: "pending demo_sock = be 4 3 @ concat (map enc_opt [(NBD_OPT_LIST, [])]) @ enc_opt (NBD_OPT_GO, [0, 0, 0, 0, 0, 0]) @ []"
    by (simp add: demo_sock_def)
  have b: "bit (3 :: nat) 1" by (simp add: bit_iff_odd)
  have "opt_ok x \<and> opt_outcome (fst x) = More_Options" if "x \<in> set [(NBD_OPT_LIST, [])]" for x
    using that by (simp add: opt_ok_def opt_outcome_def opt_codes)
  from handshake_conversation [OF _ p _ this, of 8192] show ?thesis using b
    by (auto simp: healthy_def demo_sock_def opt_ok_def opt_outcome_def opt_codes)
qed

end
