(* ===== verification/Nbd_Server.thy ===== *)
theory Nbd_Server
  imports Block_Store Nbd_Handshake
begin

text \<open>
  The transmission phase of one connection: the per-request path @handle_one@, the batched
  path (@batch_admit@, the gathering loop of @handle_client@ and @flush_batch@) and the loop
  that serves a client until it disconnects. Every loop reads the socket, and since a
  connection delivers finitely many bytes every loop ends.
\<close>

section \<open>State\<close>

text \<open>The connection, the store and the counters that VRAM_BATCH_DEBUG keeps.\<close>

record 'd srv =
  sv_sock :: sock
  sv_world :: "'d world"
  g_legacy_ops :: nat
  g_flush_count :: nat
  g_flush_ops :: nat
  g_flush_copies :: nat
  g_batch_count :: nat
  g_batch_ops :: nat

text \<open>The batching switches, and the value of @g_running@ each time the serving loop looks at it.\<close>

record srv_cfg =
  g_batch_enabled :: bool
  g_batch_debug :: bool
  g_running_at :: "nat \<Rightarrow> bool"

definition MAX_BATCH_COPIES :: nat where "MAX_BATCH_COPIES = 64"

section \<open>The per-request path\<close>

text \<open>The next window of an oversized request: it ends on a block boundary unless it is the last.\<close>

definition window :: "nat \<Rightarrow> nat \<Rightarrow> nat" where
  "window voff remaining =
     (let chunk = (if remaining > IO_BUF_SIZE then IO_BUF_SIZE else remaining)
      in if chunk < remaining
         then let stop = u64 (voff + chunk) div CBLK_SIZE * CBLK_SIZE in if stop > voff then u32 (stop - voff) else chunk
         else chunk)"

lemma IO_BUF_SIZE_val [simp]: "IO_BUF_SIZE = 262144"
  by (simp add: IO_BUF_SIZE_def LEGACY_WINDOW_BLOCKS_def)

lemma window_bounds:
  assumes "0 < remaining"
  shows "0 < window voff remaining" "window voff remaining \<le> remaining" "window voff remaining \<le> IO_BUF_SIZE"
proof -
  let ?c = "if remaining > IO_BUF_SIZE then IO_BUF_SIZE else remaining"
  let ?stop = "u64 (voff + ?c) div CBLK_SIZE * CBLK_SIZE"
  have "?stop \<le> u64 (voff + ?c)" by simp
  also have "\<dots> \<le> voff + ?c" by (simp add: u64_def)
  finally have c: "?stop - voff \<le> ?c" by linarith
  then have "?stop - voff < 2 ^ 32" by (rule le_less_trans) simp
  then have "window voff remaining = (if ?c < remaining \<and> ?stop > voff then ?stop - voff else ?c)"
    by (simp add: window_def Let_def u32_small)
  with assms c show "0 < window voff remaining" "window voff remaining \<le> remaining" "window voff remaining \<le> IO_BUF_SIZE"
    by (auto split: if_splits)
qed

text \<open>The payload of a WRITE, window by window; @None@ when the connection breaks.\<close>

function write_stream :: "'d env \<Rightarrow> nat \<Rightarrow> nat \<Rightarrow> nat \<Rightarrow> 'd srv \<Rightarrow> nat option \<times> 'd srv" where
  "write_stream en voff remaining error s =
     (if remaining = 0 then (Some error, s)
      else case recv_all (window voff remaining) (sv_sock s) of
             (None, k) \<Rightarrow> (None, s\<lparr>sv_sock := k\<rparr>)
           | (Some bs, k) \<Rightarrow>
               (case (if error = 0 then store_range en voff bs (sv_world s) else (0, sv_world s)) of
                  (e, w) \<Rightarrow> write_stream en (u64 (voff + window voff remaining)) (remaining - window voff remaining)
                             (note_err error e) (s\<lparr>sv_sock := k, sv_world := w\<rparr>)))"
  by pat_completeness auto
termination
  by (relation "measure (\<lambda>(en, voff, remaining, error, s). remaining)") (auto dest: window_bounds(1) intro!: diff_less)

text \<open>The data of a READ, after its reply header has gone out; False when the connection must be dropped.\<close>

function read_stream :: "'d env \<Rightarrow> nat \<Rightarrow> nat \<Rightarrow> 'd srv \<Rightarrow> bool \<times> 'd srv" where
  "read_stream en voff remaining s =
     (if remaining = 0 then (True, s)
      else case load_range en voff (window voff remaining) (sv_world s) of
             (e, bs, w) \<Rightarrow>
               if e \<noteq> 0 then (False, s\<lparr>sv_world := w\<rparr>)
               else case send_all bs (sv_sock s) of
                      (ok, k) \<Rightarrow>
                        if \<not> ok then (False, s\<lparr>sv_world := w, sv_sock := k\<rparr>)
                        else read_stream en (u64 (voff + window voff remaining)) (remaining - window voff remaining)
                               (s\<lparr>sv_world := w, sv_sock := k\<rparr>))"
  by pat_completeness auto
termination
  by (relation "measure (\<lambda>(en, voff, remaining, s). remaining)") (auto dest: window_bounds(1) intro!: diff_less)

declare write_stream.simps [simp del] read_stream.simps [simp del]

definition count_legacy :: "srv_cfg \<Rightarrow> nat \<Rightarrow> 'd srv \<Rightarrow> 'd srv" where
  "count_legacy cf cmd s =
     (if g_batch_debug cf \<and> (cmd = NBD_CMD_READ \<or> cmd = NBD_CMD_WRITE)
      then s\<lparr>g_legacy_ops := u64 (g_legacy_ops s + 1)\<rparr> else s)"

text \<open>Everything before the reply: the error it will carry, @None@ when the connection broke.\<close>

definition one_apply :: "'d env \<Rightarrow> nbd_req \<Rightarrow> 'd srv \<Rightarrow> nat option \<times> 'd srv" where
  "one_apply en h s =
     (let cmd = rq_type h;
          error = (if (cmd = NBD_CMD_READ \<or> cmd = NBD_CMD_WRITE \<or> cmd = NBD_CMD_TRIM) \<and> oob en (rq_from h) (rq_len h)
                   then EINVAL else 0)
      in if cmd = NBD_CMD_WRITE then write_stream en (rq_from h) (rq_len h) error s
         else if cmd = NBD_CMD_FLUSH then (Some error, s\<lparr>sv_world := sync en None (sv_world s)\<rparr>)
         else if cmd = NBD_CMD_TRIM \<and> error = 0
         then (Some error, s\<lparr>sv_world := trim_range en (rq_from h) (rq_len h) (sv_world s)\<rparr>)
         else (Some error, s))"

text \<open>True for the return value 0, keep serving.\<close>

definition handle_one :: "'d env \<Rightarrow> srv_cfg \<Rightarrow> nbd_req \<Rightarrow> 'd srv \<Rightarrow> bool \<times> 'd srv" where
  "handle_one en cf h s =
     (case one_apply en h (count_legacy cf (rq_type h) s) of
        (None, s1) \<Rightarrow> (False, s1)
      | (Some error, s1) \<Rightarrow>
          (case send_all (resp_hdr error (rq_handle h)) (sv_sock s1) of
             (ok, k) \<Rightarrow>
               let s2 = s1\<lparr>sv_sock := k\<rparr>
               in if \<not> ok \<or> error = EIO then (False, s2)
                  else if error \<noteq> 0 then (True, s2)
                  else if rq_type h = NBD_CMD_READ then read_stream en (rq_from h) (rq_len h) s2
                  else (True, s2)))"

section \<open>The batched path\<close>

record bop =
  bp_handle :: "byte list"
  bp_offset :: nat
  bp_len :: nat
  bp_cmd :: nat
  bp_error :: nat
  bp_op0 :: nat
  bp_nops :: nat

datatype admission = Batched | Not_Batchable | Adm_Error

definition batchable :: "nbd_req \<Rightarrow> bool" where
  "batchable h \<longleftrightarrow>
     \<not> ((rq_type h \<noteq> NBD_CMD_READ \<and> rq_type h \<noteq> NBD_CMD_WRITE) \<or> rq_len h = 0 \<or> rq_len h > BATCH_SLOT) \<and>
     \<not> (rq_from h mod CBLK_SIZE \<noteq> 0 \<or> rq_len h mod CBLK_SIZE \<noteq> 0)"

definition bop_set :: "'d env \<Rightarrow> nbd_req \<Rightarrow> nat \<Rightarrow> bop" where
  "bop_set en h op0 =
     (let error = (if oob en (rq_from h) (rq_len h) then EINVAL else 0)
      in \<lparr>bp_handle = rq_handle h, bp_offset = rq_from h, bp_len = rq_len h, bp_cmd = rq_type h, bp_error = error,
          bp_op0 = op0, bp_nops = (if error \<noteq> 0 then 0 else rq_len h div 2 ^ CBLK_SHIFT)\<rparr>)"

text \<open>The block operations of a request, with the pages of its payload.\<close>

definition req_ops :: "bop \<Rightarrow> nat \<Rightarrow> byte list \<Rightarrow> blkop list" where
  "req_ops rq ri payload =
     map (\<lambda>i. blkop_set (bp_offset rq div 2 ^ CBLK_SHIFT + i) (bp_cmd rq) (take CBLK_SIZE (drop (i * CBLK_SIZE) payload)) ri)
       [0..<bp_nops rq]"

text \<open>
  The arrays @reqs@ and @ops@ up to @nreq@ and @nops@ are the two lists; the new request
  takes the next free index of each.
\<close>

definition batch_admit ::
  "'d env \<Rightarrow> nbd_req \<Rightarrow> bop list \<Rightarrow> blkop list \<Rightarrow> sock \<Rightarrow> admission \<times> bop list \<times> blkop list \<times> sock" where
  "batch_admit en h reqs ops k =
     (if rq_magic h \<noteq> NBD_REQUEST_MAGIC then (Adm_Error, reqs, ops, k)
      else if \<not> batchable h then (Not_Batchable, reqs, ops, k)
      else let rq = bop_set en h (length ops)
           in if rq_type h = NBD_CMD_WRITE
              then case recv_all (rq_len h) k of
                     (None, k1) \<Rightarrow> (Adm_Error, reqs @ [rq], ops @ req_ops rq (length reqs) [], k1)
                   | (Some payload, k1) \<Rightarrow> (Batched, reqs @ [rq], ops @ req_ops rq (length reqs) payload, k1)
              else (Batched, reqs @ [rq], ops @ req_ops rq (length reqs) [], k))"

definition set_req_err :: "nat \<Rightarrow> nat \<Rightarrow> bop list \<Rightarrow> bop list" where
  "set_req_err i e reqs = reqs[i := (reqs ! i)\<lparr>bp_error := e\<rparr>]"

definition prepare_op :: "'d env \<Rightarrow> blkop \<Rightarrow> 'd world \<Rightarrow> blkop \<times> 'd world" where
  "prepare_op en bo w = (if bo_cmd bo = NBD_CMD_WRITE then wr_prepare en bo w else rd_prepare en bo w)"

text \<open>After the preparation: the last error of a request's blocks becomes the request's.\<close>

definition mark_failed :: "blkop list \<Rightarrow> bop list \<Rightarrow> bop list" where
  "mark_failed ops reqs = fold (\<lambda>bo reqs. if bo_err bo \<noteq> 0 then set_req_err (bo_req bo) (bo_err bo) reqs else reqs) ops reqs"

definition abort_op :: "'d env \<Rightarrow> bop list \<Rightarrow> blkop \<Rightarrow> 'd world \<Rightarrow> blkop \<times> 'd world" where
  "abort_op en reqs bo w =
     (if bo_cmd bo = NBD_CMD_WRITE \<and> bo_err bo = 0 \<and> bp_error (reqs ! bo_req bo) \<noteq> 0 then wr_abort en bo w else (bo, w))"

definition collect_errors :: "blkop list \<Rightarrow> bop list \<Rightarrow> bop list" where
  "collect_errors ops reqs =
     fold (\<lambda>bo reqs. set_req_err (bo_req bo) (note_err (bp_error (reqs ! bo_req bo)) (bo_err bo)) reqs) ops reqs"

text \<open>The staging slot of a request holds the pages of its blocks one after the other.\<close>

definition slot_bytes :: "bop \<Rightarrow> blkop list \<Rightarrow> byte list" where
  "slot_bytes rq ops = concat (map bo_page (take (bp_nops rq) (drop (bp_op0 rq) ops)))"

fun send_replies :: "bop list \<Rightarrow> blkop list \<Rightarrow> sock \<Rightarrow> bool \<times> sock" where
  "send_replies [] ops k = (True, k)"
| "send_replies (rq # reqs) ops k =
     (case send_all (resp_hdr (bp_error rq) (bp_handle rq)) k of
        (ok, k1) \<Rightarrow>
          if \<not> ok then (False, k1)
          else case (if bp_cmd rq = NBD_CMD_READ \<and> bp_error rq = 0 then send_all (slot_bytes rq ops) k1 else (True, k1)) of
                 (ok2, k2) \<Rightarrow> if \<not> ok2 then (False, k2) else send_replies reqs ops k2)"

definition count_flush :: "srv_cfg \<Rightarrow> nat \<Rightarrow> nat \<Rightarrow> 'd srv \<Rightarrow> 'd srv" where
  "count_flush cf nreq nops s =
     (if g_batch_debug cf
      then let s1 = s\<lparr>g_flush_count := u64 (g_flush_count s + 1), g_flush_ops := u64 (g_flush_ops s + nreq),
                     g_flush_copies := u64 (g_flush_copies s + nops)\<rparr>
           in if nreq > 1 then s1\<lparr>g_batch_count := u64 (g_batch_count s1 + 1), g_batch_ops := u64 (g_batch_ops s1 + nreq)\<rparr>
              else s1
      else s)"

text \<open>What the batch does to the store, and the requests with their final errors.\<close>

definition run_batch :: "'d env \<Rightarrow> bop list \<Rightarrow> blkop list \<Rightarrow> 'd world \<Rightarrow> bop list \<times> blkop list \<times> 'd world" where
  "run_batch en reqs ops w =
     (let (ops1, w1) = map_state (prepare_op en) ops w;
          reqs1 = mark_failed ops1 reqs;
          (ops2, w2) = map_state (abort_op en reqs1) ops1 w1;
          (ops3, w3) = do_blocks en ops2 w2
      in (collect_errors ops3 reqs1, ops3, w3))"

definition flush_batch :: "'d env \<Rightarrow> srv_cfg \<Rightarrow> bop list \<Rightarrow> blkop list \<Rightarrow> 'd srv \<Rightarrow> bool \<times> 'd srv" where
  "flush_batch en cf reqs ops s =
     (let (reqs1, ops1, w1) = run_batch en reqs ops (sv_world s);
          s1 = count_flush cf (length reqs) (length ops) (s\<lparr>sv_world := w1\<rparr>);
          (ok, k) = send_replies reqs1 ops1 (sv_sock s1)
      in (ok \<and> \<not> (\<exists>rq \<in> set reqs1. bp_error rq = EIO), s1\<lparr>sv_sock := k\<rparr>))"

section \<open>Serving a client\<close>

datatype gathered = G_Error | G_Done | G_Per_Op nbd_req | G_Disc

definition copy_cap :: "'d env \<Rightarrow> nat" where
  "copy_cap en = (let c = sub32 (maxops en) BATCH_BLOCKS in if c > MAX_BATCH_COPIES then MAX_BATCH_COPIES else c)"

lemma batch_admit_shrinks:
  "batch_admit en h reqs ops k = (a, reqs1, ops1, k1) \<Longrightarrow> length (pending k1) \<le> length (pending k)"
  using recv_all_shrinks [of "rq_len h" k]
  by (auto simp: batch_admit_def Let_def split: if_splits prod.splits option.splits)

text \<open>Draining whatever else is queued, without blocking.\<close>

function gather :: "'d env \<Rightarrow> bop list \<Rightarrow> blkop list \<Rightarrow> sock \<Rightarrow> gathered \<times> bop list \<times> blkop list \<times> sock" where
  "gather en reqs ops k =
     (if length reqs < g_batch_depth en \<and> length ops < copy_cap en
      then case recv_hdr_nb k of
             (Hdr_Error, k1) \<Rightarrow> (G_Error, reqs, ops, k1)
           | (No_Hdr, k1) \<Rightarrow> (G_Done, reqs, ops, k1)
           | (Hdr bs, k1) \<Rightarrow>
               let h = decode_req bs
               in if rq_magic h \<noteq> NBD_REQUEST_MAGIC then (G_Error, reqs, ops, k1)
                  else if rq_type h = NBD_CMD_DISC then (G_Disc, reqs, ops, k1)
                  else case batch_admit en h reqs ops k1 of
                         (Adm_Error, reqs1, ops1, k2) \<Rightarrow> (G_Error, reqs1, ops1, k2)
                       | (Not_Batchable, reqs1, ops1, k2) \<Rightarrow> (G_Per_Op h, reqs1, ops1, k2)
                       | (Batched, reqs1, ops1, k2) \<Rightarrow> gather en reqs1 ops1 k2
      else (G_Done, reqs, ops, k))"
  by pat_completeness auto
termination
proof (relation "measure (\<lambda>(en, reqs, ops, k). length (pending k))", goal_cases)
  case 1
  then show ?case by simp
next
  case (2 en reqs ops k x k1 bs h y p reqs1 z ops1 k2)
  have "length (pending k) = 28 + length (pending k1)" using recv_hdr_nb_some(1,2) [of k bs k1] 2 by simp
  moreover have "length (pending k2) \<le> length (pending k1)"
    using batch_admit_shrinks [of en h reqs ops k1] 2 by metis
  ultimately show ?case by simp
qed

declare gather.simps [simp del]

text \<open>One turn of the serving loop, once its first header is in: drop the connection, leave the loop, or go on.\<close>

datatype serve_next = Drop | Quit | Again

definition again_if :: "bool \<times> 'd srv \<Rightarrow> serve_next \<times> 'd srv" where
  "again_if r = (if fst r then Again else Drop, snd r)"

definition serve_batch :: "'d env \<Rightarrow> srv_cfg \<Rightarrow> bop list \<Rightarrow> blkop list \<Rightarrow> 'd srv \<Rightarrow> serve_next \<times> 'd srv" where
  "serve_batch en cf reqs ops s =
     (case gather en reqs ops (sv_sock s) of
        (g, reqs1, ops1, k) \<Rightarrow>
          let s1 = s\<lparr>sv_sock := k\<rparr>
          in if g = G_Error then (Drop, s1)
             else case flush_batch en cf reqs1 ops1 s1 of
                    (ok, s2) \<Rightarrow>
                      if \<not> ok then (Drop, s2)
                      else case g of G_Per_Op h \<Rightarrow> again_if (handle_one en cf h s2)
                                   | G_Disc \<Rightarrow> (Quit, s2)
                                   | _ \<Rightarrow> (Again, s2))"

definition serve_req :: "'d env \<Rightarrow> srv_cfg \<Rightarrow> nbd_req \<Rightarrow> 'd srv \<Rightarrow> serve_next \<times> 'd srv" where
  "serve_req en cf h s =
     (if rq_magic h \<noteq> NBD_REQUEST_MAGIC then (Drop, s)
      else if rq_type h = NBD_CMD_DISC then (Quit, s)
      else if \<not> g_batch_enabled cf then again_if (handle_one en cf h s)
      else case batch_admit en h [] [] (sv_sock s) of
             (Adm_Error, reqs, ops, k) \<Rightarrow> (Drop, s\<lparr>sv_sock := k\<rparr>)
           | (Not_Batchable, reqs, ops, k) \<Rightarrow> again_if (handle_one en cf h (s\<lparr>sv_sock := k\<rparr>))
           | (Batched, reqs, ops, k) \<Rightarrow> serve_batch en cf reqs ops (s\<lparr>sv_sock := k\<rparr>))"

subsection \<open>Input is only consumed\<close>

lemma send_all_in: "so_in (snd (send_all buf k)) = so_in k"
  using send_all_spec [of buf k] by (metis prod.collapse)

lemma send_replies_in: "so_in (snd (send_replies reqs ops k)) = so_in k"
  by (induction reqs ops k rule: send_replies.induct) (auto simp: send_all_in split: prod.splits, (metis send_all_in snd_conv)+)

lemma flush_batch_in: "so_in (sv_sock (snd (flush_batch en cf reqs ops s))) = so_in (sv_sock s)"
  by (simp add: flush_batch_def count_flush_def Let_def case_prod_unfold send_replies_in)

lemma write_stream_shrinks: "length (pending (sv_sock (snd (write_stream en voff remaining error s)))) \<le> length (pending (sv_sock s))"
proof (induction en voff remaining error s rule: write_stream.induct)
  case (1 en voff remaining error s)
  obtain x k where r: "recv_all (window voff remaining) (sv_sock s) = (x, k)" by fastforce
  have k: "length (pending k) \<le> length (pending (sv_sock s))"
    using recv_all_shrinks [of "window voff remaining" "sv_sock s"] r by simp
  show ?case
  proof (cases "remaining = 0 \<or> x = None")
    case True
    then show ?thesis using r k by (auto simp: write_stream.simps [of en voff remaining])
  next
    case False
    then obtain bs where x: "x = Some bs" by auto
    obtain e w where sr: "(if error = 0 then store_range en voff bs (sv_world s) else (0, sv_world s)) = (e, w)" by fastforce
    have "length (pending (sv_sock (snd (write_stream en (u64 (voff + window voff remaining)) (remaining - window voff remaining)
        (note_err error e) (s\<lparr>sv_sock := k, sv_world := w\<rparr>))))) \<le> length (pending k)"
      using "1.IH" [OF _ r [symmetric] x sr [symmetric]] False by simp
    then show ?thesis using False r k x sr by (simp add: write_stream.simps [of en voff remaining])
  qed
qed

lemma read_stream_in: "so_in (sv_sock (snd (read_stream en voff remaining s))) = so_in (sv_sock s)"
proof (induction en voff remaining s rule: read_stream.induct)
  case (1 en voff remaining s)
  obtain e bs w where l: "load_range en voff (window voff remaining) (sv_world s) = (e, bs, w)" by (metis prod_cases3)
  obtain ok k where sd: "send_all bs (sv_sock s) = (ok, k)" by fastforce
  have k: "so_in k = so_in (sv_sock s)" using send_all_in [of bs "sv_sock s"] sd by simp
  show ?case
  proof (cases "remaining = 0 \<or> e \<noteq> 0 \<or> \<not> ok")
    case True
    then show ?thesis using l sd k by (auto simp: read_stream.simps [of en voff remaining])
  next
    case False
    then show ?thesis using "1.IH" [OF _ l [symmetric] refl _ sd [symmetric]] l sd k
      by (simp add: read_stream.simps [of en voff remaining])
  qed
qed

lemma handle_one_shrinks: "length (pending (sv_sock (snd (handle_one en cf h s)))) \<le> length (pending (sv_sock s))"
proof -
  let ?s = "count_legacy cf (rq_type h) s"
  have c: "sv_sock ?s = sv_sock s" by (simp add: count_legacy_def)
  obtain x s1 where a: "one_apply en h ?s = (x, s1)" by fastforce
  have "length (pending (sv_sock (snd (one_apply en h ?s)))) \<le> length (pending (sv_sock ?s))"
    using write_stream_shrinks by (auto simp: one_apply_def Let_def)
  then have s1: "length (pending (sv_sock s1)) \<le> length (pending (sv_sock s))" using a c by simp
  then show ?thesis
    by (cases x) (auto simp: handle_one_def a Let_def case_prod_unfold send_all_in read_stream_in)
qed

lemma gather_shrinks: "gather en reqs ops k = (g, reqs1, ops1, k1) \<Longrightarrow> length (pending k1) \<le> length (pending k)"
proof (induction en reqs ops k arbitrary: g reqs1 ops1 k1 rule: gather.induct)
  case (1 en reqs ops k)
  obtain x k0 where r: "recv_hdr_nb k = (x, k0)" by fastforce
  show ?case
  proof (cases "\<exists>bs. x = Hdr bs \<and> length reqs < g_batch_depth en \<and> length ops < copy_cap en \<and>
      rq_magic (decode_req bs) = NBD_REQUEST_MAGIC \<and> rq_type (decode_req bs) \<noteq> NBD_CMD_DISC")
    case False
    have "length (pending k0) \<le> length (pending k)" using recv_hdr_nb_shrinks [of k] r by simp
    with False "1.prems" r show ?thesis
      by (auto simp: gather.simps [of en reqs] Let_def split: if_splits hdr.splits)
  next
    case True
    then obtain bs where bs: "x = Hdr bs" "length reqs < g_batch_depth en" "length ops < copy_cap en"
      "rq_magic (decode_req bs) = NBD_REQUEST_MAGIC" "rq_type (decode_req bs) \<noteq> NBD_CMD_DISC" by blast
    obtain a r2 o2 k2 where ad: "batch_admit en (decode_req bs) reqs ops k0 = (a, r2, o2, k2)" by (metis prod_cases4)
    have "length (pending k0) \<le> length (pending k)" using recv_hdr_nb_shrinks [of k] r by simp
    then have k2: "length (pending k2) \<le> length (pending k)" using batch_admit_shrinks [OF ad] by simp
    have IH: "length (pending k1) \<le> length (pending k2)" if "a = Batched" "gather en r2 o2 k2 = (g, reqs1, ops1, k1)"
      by (rule "1.IH" [OF _ r [symmetric] bs(1) refl _ bs(5) ad [symmetric] that(1) refl refl that(2)]) (use bs in auto)
    show ?thesis using "1.prems" bs r ad k2 IH
      by (cases a) (auto simp: gather.simps [of en reqs])
  qed
qed

lemma serve_req_shrinks: "length (pending (sv_sock (snd (serve_req en cf h s)))) \<le> length (pending (sv_sock s))"
proof -
  have one: "length (pending (sv_sock (snd (again_if (handle_one en cf h s))))) \<le> length (pending (sv_sock s))" for h and s :: "'a srv"
    using handle_one_shrinks by (simp add: again_if_def)
  have batch: "length (pending (sv_sock (snd (serve_batch en cf reqs ops s)))) \<le> length (pending (sv_sock s))" for reqs ops and s :: "'a srv"
  proof -
    obtain g r1 o1 k where g: "gather en reqs ops (sv_sock s) = (g, r1, o1, k)" by (metis prod_cases4)
    obtain ok s2 where f: "flush_batch en cf r1 o1 (s\<lparr>sv_sock := k\<rparr>) = (ok, s2)" by fastforce
    have "so_in (sv_sock s2) = so_in k" using flush_batch_in [of en cf r1 o1 "s\<lparr>sv_sock := k\<rparr>"] f by simp
    then show ?thesis using gather_shrinks [OF g] one [of _ s2] order_trans
      by (cases g) (fastforce simp: serve_batch_def g f Let_def)+
  qed
  obtain a r1 o1 k where ad: "batch_admit en h [] [] (sv_sock s) = (a, r1, o1, k)" by (metis prod_cases4)
  have k: "length (pending k) \<le> length (pending (sv_sock s))" using batch_admit_shrinks [OF ad] .
  show ?thesis
    using one [of h s] one [of h "s\<lparr>sv_sock := k\<rparr>"] batch [of r1 o1 "s\<lparr>sv_sock := k\<rparr>"] k
    by (cases a) (auto simp: serve_req_def ad)
qed

section \<open>The connection\<close>

text \<open>The loop of @handle_client@; @n@ counts its turns.\<close>

function serve :: "'d env \<Rightarrow> srv_cfg \<Rightarrow> nat \<Rightarrow> 'd srv \<Rightarrow> bool \<times> 'd srv" where
  "serve en cf n s =
     (if \<not> g_running_at cf n then (True, s)
      else case recv_all 28 (sv_sock s) of
             (None, k) \<Rightarrow> (False, s\<lparr>sv_sock := k\<rparr>)
           | (Some bs, k) \<Rightarrow>
               (case serve_req en cf (decode_req bs) (s\<lparr>sv_sock := k\<rparr>) of
                  (Drop, s1) \<Rightarrow> (False, s1)
                | (Quit, s1) \<Rightarrow> (True, s1)
                | (Again, s1) \<Rightarrow> serve en cf (n + 1) s1))"
  by pat_completeness auto
termination
proof (relation "measure (\<lambda>(en, cf, n, s). length (pending (sv_sock s)))", goal_cases)
  case 1
  then show ?case by simp
next
  case (2 en cf n s x k bs y s1)
  have "length (pending (sv_sock s)) = 28 + length (pending k)" using recv_all_some(1,2) [of 28 "sv_sock s" bs k] 2 by simp
  moreover have "length (pending (sv_sock s1)) \<le> length (pending k)"
    using serve_req_shrinks [of en cf "decode_req bs" "s\<lparr>sv_sock := k\<rparr>"] 2 by (metis snd_conv srv.select_convs(1) srv.surjective srv.update_convs(1))
  ultimately show ?case by simp
qed

declare serve.simps [simp del]

definition handle_client :: "'d env \<Rightarrow> srv_cfg \<Rightarrow> 'd srv \<Rightarrow> bool \<times> 'd srv" where
  "handle_client en cf s =
     (case nbd_handshake (g_disk_size en) (sv_sock s) of
        (ok, k) \<Rightarrow> if \<not> ok then (False, s\<lparr>sv_sock := k\<rparr>) else serve en cf 0 (s\<lparr>sv_sock := k\<rparr>))"

end
