(* ===== verification/Server_Batch.thy ===== *)
theory Server_Batch
  imports Nbd_Server Store_Properties
begin

text \<open>
  The batched path: the shape of the arrays a batch is assembled in and that they never
  overflow, how the errors of block operations reach their requests, and what @run_batch@
  does to the store and returns to the client.
\<close>

section \<open>The shape of a batch\<close>

text \<open>@pl i@ is the payload of request @i@; a request that is out of bounds has no block operations.\<close>

definition batch_ops :: "bop list \<Rightarrow> (nat \<Rightarrow> byte list) \<Rightarrow> blkop list" where
  "batch_ops reqs pl = concat (map (\<lambda>i. req_ops (reqs ! i) i (pl i)) [0..<length reqs])"

definition req_wf :: "'d env \<Rightarrow> bop \<Rightarrow> bool" where
  "req_wf en rq \<longleftrightarrow> (bp_cmd rq = NBD_CMD_READ \<or> bp_cmd rq = NBD_CMD_WRITE) \<and> bp_len rq mod CBLK_SIZE = 0 \<and>
     bp_offset rq mod CBLK_SIZE = 0 \<and> 0 < bp_len rq \<and> bp_len rq \<le> BATCH_SLOT \<and>
     bp_error rq = (if oob en (bp_offset rq) (bp_len rq) then EINVAL else 0) \<and>
     bp_nops rq = (if bp_error rq \<noteq> 0 then 0 else bp_len rq div CBLK_SIZE)"

definition batch_wf :: "'d env \<Rightarrow> bop list \<Rightarrow> (nat \<Rightarrow> byte list) \<Rightarrow> blkop list \<Rightarrow> bool" where
  "batch_wf en reqs pl ops \<longleftrightarrow> ops = batch_ops reqs pl \<and>
     (\<forall>i < length reqs. req_wf en (reqs ! i) \<and> bp_op0 (reqs ! i) = length (batch_ops (take i reqs) pl) \<and>
        (bp_cmd (reqs ! i) = NBD_CMD_WRITE \<longrightarrow> length (pl i) = bp_len (reqs ! i)))"

lemma BATCH_vals [simp]: "BATCH_SLOT = 65536" "BATCH_BLOCKS = 16" "MAX_BATCH_COPIES = 64"
  by (simp_all add: BATCH_SLOT_def BATCH_BLOCKS_def MAX_BATCH_COPIES_def)

lemma length_req_ops [simp]: "length (req_ops rq ri pl) = bp_nops rq"
  by (simp add: req_ops_def)

lemma batch_ops_snoc:
  "batch_ops (reqs @ [rq]) pl = batch_ops reqs pl @ req_ops rq (length reqs) (pl (length reqs))"
proof -
  have same: "map (\<lambda>i. req_ops ((reqs @ [rq]) ! i) i (pl i)) [0..<length reqs] = map (\<lambda>i. req_ops (reqs ! i) i (pl i)) [0..<length reqs]"
    by (rule map_cong) (auto simp: nth_append)
  have "[0..<length (reqs @ [rq])] = [0..<length reqs] @ [length reqs]" by simp
  then show ?thesis unfolding batch_ops_def map_append concat_append by (simp only: map_append concat_append same) simp
qed

lemma batch_ops_cong: "(\<And>i. i < length reqs \<Longrightarrow> pl i = pl' i) \<Longrightarrow> batch_ops reqs pl = batch_ops reqs pl'"
  unfolding batch_ops_def by (rule arg_cong [where f = concat]) (auto intro!: map_cong)

lemma batch_wf_Nil: "batch_wf en [] pl []"
  by (simp add: batch_wf_def batch_ops_def)

lemma batch_wf_snoc:
  assumes "batch_wf en reqs pl ops" "req_wf en rq" "bp_op0 rq = length ops"
    and "bp_cmd rq = NBD_CMD_WRITE \<longrightarrow> length p = bp_len rq"
  shows "batch_wf en (reqs @ [rq]) (pl(length reqs := p)) (ops @ req_ops rq (length reqs) p)"
proof -
  let ?pl = "pl(length reqs := p)"
  have same: "batch_ops (take i reqs) ?pl = batch_ops (take i reqs) pl" for i by (rule batch_ops_cong) simp
  have "batch_ops reqs ?pl = ops" using same [of "length reqs"] assms(1) by (simp add: batch_wf_def)
  then show ?thesis using assms same
    by (auto simp: batch_wf_def batch_ops_snoc nth_append less_Suc_eq)
qed

lemma bop_set_wf:
  assumes "batchable h"
  shows "req_wf en (bop_set en h n)" "bp_op0 (bop_set en h n) = n" "bp_cmd (bop_set en h n) = rq_type h" "bp_len (bop_set en h n) = rq_len h"
  using assms by (auto simp: req_wf_def bop_set_def batchable_def Let_def)

lemma req_wf_nops: "req_wf en rq \<Longrightarrow> bp_nops rq \<le> BATCH_BLOCKS"
  using div_le_mono [of "bp_len rq" 65536 4096] by (auto simp: req_wf_def)

lemma batch_admit_wf:
  assumes "batch_wf en reqs pl ops" "batch_admit en h reqs ops k = (Batched, reqs1, ops1, k1)"
  shows "\<exists>pl1. batch_wf en reqs1 pl1 ops1" "length reqs1 = length reqs + 1" "length ops1 \<le> length ops + BATCH_BLOCKS"
proof -
  let ?rq = "bop_set en h (length ops)"
  from assms(2) obtain p where b: "batchable h" "reqs1 = reqs @ [?rq]" "ops1 = ops @ req_ops ?rq (length reqs) p"
      "rq_type h = NBD_CMD_WRITE \<longrightarrow> length p = rq_len h"
    by (auto simp: batch_admit_def Let_def split: if_splits option.splits prod.splits dest: recv_all_some(1))
  note rq = bop_set_wf [OF b(1), of en "length ops"]
  show "\<exists>pl1. batch_wf en reqs1 pl1 ops1" using batch_wf_snoc [OF assms(1) rq(1,2), of p] b rq(3,4) by auto
  show "length reqs1 = length reqs + 1" "length ops1 \<le> length ops + BATCH_BLOCKS" using b(2,3) req_wf_nops [OF rq(1)] by auto
qed

section \<open>The arrays are large enough\<close>

lemma copy_cap_bound: "copy_cap en + BATCH_BLOCKS \<le> maxops en" "0 < copy_cap en"
proof -
  have m: "64 \<le> maxops en" "maxops en < 2 ^ 32"
    using maxops_ge by (auto simp: maxops_def Let_def u32_def LEGACY_WINDOW_BLOCKS_def)
  then have "sub32 (maxops en) 16 = maxops en - 16" by (intro sub32_exact) auto
  with m show "copy_cap en + BATCH_BLOCKS \<le> maxops en" "0 < copy_cap en" by (auto simp: copy_cap_def Let_def)
qed

lemma gather_wf:
  assumes "batch_wf en reqs pl ops" "length reqs \<le> g_batch_depth en" "length ops \<le> maxops en"
    and "gather en reqs ops k = (g, reqs1, ops1, k1)" "g \<noteq> G_Error"
  shows "length reqs1 \<le> g_batch_depth en \<and> length ops1 \<le> maxops en \<and> (\<exists>pl1. batch_wf en reqs1 pl1 ops1)"
  using assms
proof (induction en reqs ops k arbitrary: g reqs1 ops1 k1 pl rule: gather.induct)
  case (1 en reqs ops k)
  obtain x k0 where r: "recv_hdr_nb k = (x, k0)" by fastforce
  show ?case
  proof (cases "\<exists>bs. x = Hdr bs \<and> length reqs < g_batch_depth en \<and> length ops < copy_cap en \<and>
      rq_magic (decode_req bs) = NBD_REQUEST_MAGIC \<and> rq_type (decode_req bs) \<noteq> NBD_CMD_DISC")
    case False
    with "1.prems" r show ?thesis
      by (auto simp: gather.simps [of en reqs] Let_def split: if_splits hdr.splits)
  next
    case True
    then obtain bs where bs: "x = Hdr bs" "length reqs < g_batch_depth en" "length ops < copy_cap en"
      "rq_magic (decode_req bs) = NBD_REQUEST_MAGIC" "rq_type (decode_req bs) \<noteq> NBD_CMD_DISC" by blast
    obtain a r2 o2 k2 where ad: "batch_admit en (decode_req bs) reqs ops k0 = (a, r2, o2, k2)" by (metis prod_cases4)
    have gr: "gather en reqs ops k = (case a of Adm_Error \<Rightarrow> (G_Error, r2, o2, k2) | Not_Batchable \<Rightarrow> (G_Per_Op (decode_req bs), r2, o2, k2)
        | Batched \<Rightarrow> gather en r2 o2 k2)"
      using bs r ad by (simp add: gather.simps [of en reqs] split: admission.split)
    show ?thesis
    proof (cases a)
      case Batched
      note w = batch_admit_wf [OF "1.prems"(1) ad [unfolded Batched]]
      then obtain pl2 where pl2: "batch_wf en r2 pl2 o2" by blast
      show ?thesis
        by (rule "1.IH" [OF _ r [symmetric] bs(1) refl _ bs(5) ad [symmetric] Batched refl refl pl2])
          (use bs w(2,3) copy_cap_bound(1) [of en] "1.prems"(4,5) gr Batched in auto)
    next
      case Not_Batchable
      then have "r2 = reqs" "o2 = ops" using ad by (auto simp: batch_admit_def Let_def split: if_splits option.splits prod.splits)
      then show ?thesis using "1.prems" gr Not_Batchable by auto
    next
      case Adm_Error
      then show ?thesis using "1.prems"(4,5) gr by auto
    qed
  qed
qed

text \<open>Even when the connection breaks while a payload is read, the arrays were large enough for the request.\<close>

lemma batch_admit_bounds:
  assumes "batch_admit en h reqs ops k = (a, reqs1, ops1, k1)"
  shows "length reqs1 \<le> length reqs + 1" "length ops1 \<le> length ops + BATCH_BLOCKS"
  using assms req_wf_nops [OF bop_set_wf(1), of h en "length ops"]
  by (auto simp: batch_admit_def Let_def split: if_splits option.splits prod.splits)

lemma gather_bounds:
  assumes "length reqs \<le> g_batch_depth en" "length ops \<le> maxops en" "gather en reqs ops k = (g, reqs1, ops1, k1)"
  shows "length reqs1 \<le> g_batch_depth en \<and> length ops1 \<le> maxops en"
  using assms
proof (induction en reqs ops k arbitrary: g reqs1 ops1 k1 rule: gather.induct)
  case (1 en reqs ops k)
  obtain x k0 where r: "recv_hdr_nb k = (x, k0)" by fastforce
  show ?case
  proof (cases "\<exists>bs. x = Hdr bs \<and> length reqs < g_batch_depth en \<and> length ops < copy_cap en \<and>
      rq_magic (decode_req bs) = NBD_REQUEST_MAGIC \<and> rq_type (decode_req bs) \<noteq> NBD_CMD_DISC")
    case False
    with "1.prems" r show ?thesis
      by (auto simp: gather.simps [of en reqs] Let_def split: if_splits hdr.splits)
  next
    case True
    then obtain bs where bs: "x = Hdr bs" "length reqs < g_batch_depth en" "length ops < copy_cap en"
      "rq_magic (decode_req bs) = NBD_REQUEST_MAGIC" "rq_type (decode_req bs) \<noteq> NBD_CMD_DISC" by blast
    obtain a r2 o2 k2 where ad: "batch_admit en (decode_req bs) reqs ops k0 = (a, r2, o2, k2)" by (metis prod_cases4)
    have b: "length r2 \<le> g_batch_depth en" "length o2 \<le> maxops en"
      using batch_admit_bounds [OF ad] bs(2,3) copy_cap_bound(1) [of en] by auto
    have IH: "length reqs1 \<le> g_batch_depth en \<and> length ops1 \<le> maxops en" if "a = Batched" "gather en r2 o2 k2 = (g, reqs1, ops1, k1)"
      by (rule "1.IH" [OF _ r [symmetric] bs(1) refl _ bs(5) ad [symmetric] that(1) refl refl b that(2)]) (use bs in auto)
    show ?thesis using "1.prems"(3) bs r ad b IH by (cases a) (auto simp: gather.simps [of en reqs])
  qed
qed

section \<open>From block errors to request errors\<close>

definition spread :: "(nat \<Rightarrow> nat \<Rightarrow> nat) \<Rightarrow> blkop list \<Rightarrow> bop list \<Rightarrow> bop list" where
  "spread f ops reqs = fold (\<lambda>bo reqs. set_req_err (bo_req bo) (f (bp_error (reqs ! bo_req bo)) (bo_err bo)) reqs) ops reqs"

definition last_err :: "nat \<Rightarrow> nat \<Rightarrow> nat" where
  "last_err old e = (if e \<noteq> 0 then e else old)"

lemma mark_failed_spread: "mark_failed ops reqs = spread last_err ops reqs"
proof -
  have "set_req_err i (bp_error (reqs ! i)) reqs = reqs" for i and reqs :: "bop list"
    by (cases "i < length reqs") (simp_all add: set_req_err_def)
  then show ?thesis unfolding mark_failed_def spread_def last_err_def by (intro fold_cong) auto
qed

lemma collect_errors_spread: "collect_errors ops reqs = spread note_err ops reqs"
  by (simp add: collect_errors_def spread_def)

definition err_of :: "(nat \<Rightarrow> nat \<Rightarrow> nat) \<Rightarrow> blkop list \<Rightarrow> nat \<Rightarrow> nat \<Rightarrow> nat" where
  "err_of f ops i e = fold (\<lambda>bo e. if bo_req bo = i then f e (bo_err bo) else e) ops e"

lemma length_spread [simp]: "length (spread f ops reqs) = length reqs"
  by (induction ops arbitrary: reqs) (simp_all add: spread_def set_req_err_def)

lemma spread_nth:
  assumes "i < length reqs"
  shows "spread f ops reqs ! i = (reqs ! i)\<lparr>bp_error := err_of f ops i (bp_error (reqs ! i))\<rparr>"
  using assms
proof (induction ops arbitrary: reqs)
  case Nil
  then show ?case by (simp add: spread_def err_of_def)
next
  case (Cons bo ops)
  let ?reqs = "set_req_err (bo_req bo) (f (bp_error (reqs ! bo_req bo)) (bo_err bo)) reqs"
  have "spread f (bo # ops) reqs ! i = (?reqs ! i)\<lparr>bp_error := err_of f ops i (bp_error (?reqs ! i))\<rparr>"
    using Cons.IH [of ?reqs] Cons.prems by (simp add: spread_def set_req_err_def)
  then show ?case using Cons.prems by (auto simp: set_req_err_def nth_list_update err_of_def)
qed

text \<open>Both ways of combining errors keep a request clean only when all its blocks are.\<close>

lemma err_of_zero:
  assumes "\<And>a b. f a b = 0 \<longleftrightarrow> a = 0 \<and> b = 0"
  shows "err_of f ops i e = 0 \<longleftrightarrow> e = 0 \<and> (\<forall>bo \<in> set ops. bo_req bo = i \<longrightarrow> bo_err bo = 0)"
  using assms by (induction ops arbitrary: e) (auto simp: err_of_def)

lemma err_of_in:
  assumes "\<And>a b. f a b = a \<or> f a b = b"
  shows "err_of f ops i e = e \<or> (\<exists>bo \<in> set ops. bo_req bo = i \<and> err_of f ops i e = bo_err bo)"
proof (induction ops arbitrary: e)
  case (Cons bo ops)
  have step: "err_of f (bo # ops) i e = err_of f ops i (if bo_req bo = i then f e (bo_err bo) else e)" by (simp add: err_of_def)
  show ?case
  proof (cases "bo_req bo = i")
    case True
    with Cons [of "f e (bo_err bo)"] assms [of e "bo_err bo"] step show ?thesis by auto
  next
    case False
    with Cons [of e] step show ?thesis by auto
  qed
qed (simp add: err_of_def)

lemma err_funs:
  "last_err a b = 0 \<longleftrightarrow> a = 0 \<and> b = 0" "note_err a b = 0 \<longleftrightarrow> a = 0 \<and> b = 0"
  "last_err a b = a \<or> last_err a b = b" "note_err a b = a \<or> note_err a b = b"
  by (auto simp: last_err_def note_err_def)

section \<open>A batch on the store\<close>

text \<open>What the phases before the copies leave of an operation.\<close>

definition op_run :: "blkop \<Rightarrow> blkop \<Rightarrow> bool" where
  "op_run bo bo' \<longleftrightarrow> bo_blk bo' = bo_blk bo \<and> bo_cmd bo' = bo_cmd bo \<and> bo_req bo' = bo_req bo \<and>
     (bo_cmd bo = NBD_CMD_WRITE \<longrightarrow> bo_page bo' = bo_page bo)"

lemma op_run_trans: "op_run a b \<Longrightarrow> op_run b c \<Longrightarrow> op_run a c"
  by (auto simp: op_run_def)

context shared_store
begin

definition op_in :: "blkop \<Rightarrow> bool" where
  "op_in bo \<longleftrightarrow> bo_blk bo < g_nblocks en \<and> bo_err bo = 0 \<and>
     (bo_cmd bo = NBD_CMD_READ \<or> bo_cmd bo = NBD_CMD_WRITE \<and> may_write (bo_blk bo) (bo_page bo))"

definition op_prepared :: "blkop \<Rightarrow> blkop \<Rightarrow> bool" where
  "op_prepared bo bo' \<longleftrightarrow> op_run bo bo' \<and>
     bo_err bo' = (if bo_cmd bo = NBD_CMD_WRITE \<and> bo_grain bo' = SLOT_NONE then ENOSPC else 0)"

lemma prepare_op_ok:
  assumes ok: "ok A R w" and st: "stab None A" and bo: "op_in bo" and p: "prepare_op en bo w = (bo', w')"
  shows "ok A (wr_held (\<lambda>_. []) bo' @ R) w' \<and> evolves w w' \<and> op_start A bo' w' \<and> op_prepared bo bo'"
proof (cases "bo_cmd bo = NBD_CMD_WRITE")
  case True
  then have "wr_prepare en bo w = (bo', w')" using p by (simp add: prepare_op_def)
  from wr_prepare_ok [OF ok st _ True _ _ this] bo True show ?thesis by (auto simp: op_in_def op_prepared_def op_run_def)
next
  case False
  then have c: "bo_cmd bo = NBD_CMD_READ" "rd_prepare en bo w = (bo', w')" using bo p by (auto simp: op_in_def prepare_op_def)
  from rd_prepare_ok [OF ok st _ c(2)] bo c(1) show ?thesis
    by (auto simp: op_in_def op_prepared_def op_run_def op_start_def wr_held_def)
qed

lemma abort_op_ok:
  assumes I: "ok A ((L1 @ wr_held (\<lambda>_. []) bo @ L2) @ R) w" and st: "stab None A" and P: "op_start A bo w"
    and a: "abort_op en reqs bo w = (bo', w')"
  shows "ok A ((L1 @ wr_held (\<lambda>_. []) bo' @ L2) @ R) w' \<and> evolves w w' \<and> op_start A bo' w' \<and> op_run bo bo' \<and> bo_err bo' = bo_err bo \<and>
    (bo_cmd bo = NBD_CMD_WRITE \<longrightarrow> bo_err bo = 0 \<longrightarrow> bp_error (reqs ! bo_req bo) \<noteq> 0 \<longrightarrow> bo_grain bo' = SLOT_NONE) \<and>
    (bp_error (reqs ! bo_req bo) = 0 \<longrightarrow> bo' = bo) \<and> (bo' = bo \<or> bo_grain bo' = SLOT_NONE)"
proof (cases "bo_cmd bo = NBD_CMD_WRITE \<and> bo_err bo = 0 \<and> bp_error (reqs ! bo_req bo) \<noteq> 0")
  case False
  then show ?thesis using a I P evolves_refl by (auto simp: abort_op_def op_run_def)
next
  case True
  let ?w = "if bo_grain bo \<noteq> SLOT_NONE then free_slot en None (bo_grain bo) w else w"
  have w': "bo' = bo\<lparr>bo_grain := SLOT_NONE, bo_dma := 0\<rparr>" "w' = ?w" using a True by (auto simp: abort_op_def wr_abort_def Let_def)
  have "ok A ((L1 @ L2) @ R) ?w \<and> evolves w ?w"
  proof (cases "bo_grain bo = SLOT_NONE")
    case True
    then show ?thesis using I evolves_refl by (simp add: wr_held_def)
  next
    case False
    then have "ok A (L1 @ (bo_grain bo, bo_clen bo, []) # (L2 @ R)) w" using I True by (simp add: wr_held_def)
    from free_slot_ok [OF this st] False show ?thesis by simp
  qed
  moreover have "wr_held (\<lambda>_. []) bo' = []" by (simp add: w' wr_held_def)
  ultimately show ?thesis using w' True P by (auto simp: op_start_def op_run_def)
qed

lemma prepare_phase:
  assumes ok: "ok A R w" and st: "stab None A" and ops: "\<And>bo. bo \<in> set ops \<Longrightarrow> op_in bo"
    and ms: "map_state (prepare_op en) ops w = (ops', w')"
  shows "ok A (concat (map (wr_held (\<lambda>_. [])) ops') @ R) w' \<and> list_all2 (\<lambda>bo bo'. op_start A bo' w' \<and> op_prepared bo bo') ops ops'"
proof -
  let ?I = "\<lambda>L s. ok A (L @ R) s" and ?r = "map_state (prepare_op en) ops w"
  let ?Q = "\<lambda>bo bo' s. op_start A bo' s \<and> op_prepared bo bo'"
  have "?I ([] @ concat (map (wr_held (\<lambda>_. [])) (fst ?r))) (snd ?r) \<and> evolves w (snd ?r) \<and>
      list_all2 (\<lambda>bo bo'. ?Q bo bo' (snd ?r)) ops (fst ?r)"
  proof (rule map_state_phase [where P = "\<lambda>bo s. op_in bo" and h = "\<lambda>_. []"])
    fix bo :: blkop and L1 L2 :: "hold list" and s :: "'d world"
    assume I: "?I (L1 @ [] @ L2) s" and P: "op_in bo"
    obtain bo' s' where r: "prepare_op en bo s = (bo', s')" by fastforce
    note q = prepare_op_ok [OF I st P r]
    have "ok A (L1 @ wr_held (\<lambda>_. []) bo' @ L2 @ R) s'" using q st_ok_swap by auto
    then show "?I (L1 @ wr_held (\<lambda>_. []) (fst (prepare_op en bo s)) @ L2) (snd (prepare_op en bo s)) \<and>
        evolves s (snd (prepare_op en bo s)) \<and> ?Q bo (fst (prepare_op en bo s)) (snd (prepare_op en bo s))"
      using q by (auto simp: r)
  qed (use ok ops op_start_mono evolves_refl evolves_trans in auto)
  then show ?thesis by (simp add: ms)
qed

definition op_settled :: "bop list \<Rightarrow> blkop \<Rightarrow> blkop \<Rightarrow> bool" where
  "op_settled reqs bo bo' \<longleftrightarrow> op_run bo bo' \<and> bo_err bo' = bo_err bo \<and>
    (bo_cmd bo = NBD_CMD_WRITE \<longrightarrow> bo_err bo = 0 \<longrightarrow> bp_error (reqs ! bo_req bo) \<noteq> 0 \<longrightarrow> bo_grain bo' = SLOT_NONE) \<and>
    (bp_error (reqs ! bo_req bo) = 0 \<longrightarrow> bo' = bo) \<and> (bo' = bo \<or> bo_grain bo' = SLOT_NONE)"

lemma abort_phase:
  assumes ok: "ok A (concat (map (wr_held (\<lambda>_. [])) ops) @ R) w" and st: "stab None A" and ops: "\<And>bo. bo \<in> set ops \<Longrightarrow> op_start A bo w"
    and ms: "map_state (abort_op en reqs) ops w = (ops', w')"
  shows "ok A (concat (map (wr_held (\<lambda>_. [])) ops') @ R) w' \<and> list_all2 (\<lambda>bo bo'. op_start A bo' w' \<and> op_settled reqs bo bo') ops ops'"
proof -
  let ?I = "\<lambda>L s. ok A (L @ R) s" and ?r = "map_state (abort_op en reqs) ops w"
  let ?Q = "\<lambda>bo bo' s. op_start A bo' s \<and> op_settled reqs bo bo'"
  have "?I ([] @ concat (map (wr_held (\<lambda>_. [])) (fst ?r))) (snd ?r) \<and> evolves w (snd ?r) \<and>
      list_all2 (\<lambda>bo bo'. ?Q bo bo' (snd ?r)) ops (fst ?r)"
  proof (rule map_state_phase [where P = "\<lambda>bo s. op_start A bo s"])
    fix bo :: blkop and L1 L2 :: "hold list" and s :: "'d world"
    assume I: "?I (L1 @ wr_held (\<lambda>_. []) bo @ L2) s" and P: "op_start A bo s"
    obtain bo' s' where r: "abort_op en reqs bo s = (bo', s')" by fastforce
    from abort_op_ok [OF I st P r]
    show "?I (L1 @ wr_held (\<lambda>_. []) (fst (abort_op en reqs bo s)) @ L2) (snd (abort_op en reqs bo s)) \<and>
        evolves s (snd (abort_op en reqs bo s)) \<and> ?Q bo (fst (abort_op en reqs bo s)) (snd (abort_op en reqs bo s))"
      by (auto simp: r op_settled_def)
  qed (use ok ops op_start_mono evolves_refl evolves_trans in auto)
  then show ?thesis by (simp add: ms)
qed

text \<open>An operation of a finished batch, against the requests as they were after the preparation.\<close>

definition op_final :: "bop list \<Rightarrow> blkop \<Rightarrow> blkop \<Rightarrow> bool" where
  "op_final reqs1 bo bo' \<longleftrightarrow> op_run bo bo' \<and>
     (bo_err bo' = 0 \<or> bo_err bo' = ENOSPC \<and> bo_cmd bo = NBD_CMD_WRITE \<or> bo_err bo' = EIO \<and> \<not> faultless en) \<and>
     (bo_cmd bo = NBD_CMD_WRITE \<longrightarrow> (published bo' \<longleftrightarrow> bo_err bo' = 0 \<and> bp_error (reqs1 ! bo_req bo) = 0) \<and>
        (\<not> published bo' \<longrightarrow> wr_held (\<lambda>_. []) bo' = [] \<or> bo_err bo' = EIO))"

lemma op_final_steps:
  assumes "op_prepared bo bo1" "op_settled reqs1 bo1 bo2" "op_kept bo2 bo3"
    and "bo_err bo1 \<noteq> 0 \<Longrightarrow> bp_error (reqs1 ! bo_req bo1) \<noteq> 0"
  shows "op_final reqs1 bo bo3" "bo_err bo1 \<noteq> 0 \<Longrightarrow> bo_err bo3 = bo_err bo1" "bo_req bo3 = bo_req bo1"
proof -
  show "bo_req bo3 = bo_req bo1" "bo_err bo1 \<noteq> 0 \<Longrightarrow> bo_err bo3 = bo_err bo1"
    using assms(2,3) by (auto simp: op_settled_def op_kept_def op_run_def)
  have run: "op_run bo bo3" using assms(1-3) by (auto simp: op_prepared_def op_settled_def op_kept_def op_run_def)
  have e: "bo_err bo3 = bo_err bo1 \<or> bo_err bo1 = 0 \<and> bo_err bo3 = EIO \<and> \<not> faultless en"
    using assms(2,3) by (auto simp: op_settled_def op_kept_def)
  have w: "(published bo3 \<longleftrightarrow> bo_err bo3 = 0 \<and> bp_error (reqs1 ! bo_req bo) = 0) \<and>
      (\<not> published bo3 \<longrightarrow> wr_held (\<lambda>_. []) bo3 = [] \<or> bo_err bo3 = EIO)" if c: "bo_cmd bo = NBD_CMD_WRITE"
  proof -
    have q: "bo_cmd bo3 = NBD_CMD_WRITE" "bo_grain bo3 = bo_grain bo2" "bo_req bo1 = bo_req bo" "bo_cmd bo1 = NBD_CMD_WRITE"
      using c assms(1-3) by (auto simp: op_prepared_def op_settled_def op_kept_def op_run_def)
    show ?thesis
    proof (cases "bp_error (reqs1 ! bo_req bo) = 0")
      case True
      then have z: "bo_err bo1 = 0" using assms(4) q(3) by fastforce
      then have "bo2 = bo1" "bo_grain bo1 \<noteq> SLOT_NONE"
        using assms(1,2) True q c by (auto simp: op_settled_def op_prepared_def split: if_splits)
      with z show ?thesis using True q e by (auto simp: published_def)
    next
      case False
      have "bo_grain bo3 = SLOT_NONE" if "bo_err bo3 \<noteq> EIO"
      proof (cases "bo_err bo1 = 0")
        case True
        then show ?thesis using assms(2) False q by (simp add: op_settled_def)
      next
        case err: False
        then have "bo_grain bo1 = SLOT_NONE" using assms(1) by (auto simp: op_prepared_def split: if_splits)
        moreover have "bo_grain bo2 = bo_grain bo1 \<or> bo_grain bo2 = SLOT_NONE"
          using assms(2) by (auto simp: op_settled_def)
        ultimately show ?thesis using q by auto
      qed
      moreover have "\<not> published bo3" if "bo_err bo3 = EIO" using that by (simp add: published_def)
      ultimately show ?thesis using False by (cases "bo_err bo3 = EIO") (auto simp: published_def wr_held_def)
    qed
  qed
  then show "op_final reqs1 bo bo3"
    using run e assms(1) by (auto simp: op_final_def op_prepared_def split: if_splits)
qed

text \<open>What @mark_failed@ leaves on request @i@ after the prepare pass.\<close>

lemma marked_error:
  fixes e0 i :: nat
  assumes prep: "list_all2 (\<lambda>bo bo'. S bo' \<and> op_prepared bo bo') ops ops1"
  defines "e \<equiv> err_of last_err ops1 i e0"
  shows "e = e0 \<or> e = ENOSPC" "e \<noteq> e0 \<Longrightarrow> \<exists>bo \<in> set ops. bo_req bo = i \<and> bo_cmd bo = NBD_CMD_WRITE"
    "e = 0 \<Longrightarrow> e0 = 0 \<and> (\<forall>bo \<in> set ops1. bo_req bo = i \<longrightarrow> bo_err bo = 0)"
proof -
  note z = err_of_zero [of last_err ops1 i, OF err_funs(1)]
  have pre: "bo_err bo1 = 0 \<or> bo_err bo1 = ENOSPC \<and> (\<exists>bo \<in> set ops. bo_req bo = bo_req bo1 \<and> bo_cmd bo = NBD_CMD_WRITE)"
    if "bo1 \<in> set ops1" for bo1
    using that by (auto elim!: list_all2_right [OF prep] simp: op_prepared_def op_run_def split: if_splits)
  have "e = ENOSPC \<and> (\<exists>bo \<in> set ops. bo_req bo = i \<and> bo_cmd bo = NBD_CMD_WRITE)" if ne: "e \<noteq> e0"
  proof -
    obtain bo1 where bo1: "bo1 \<in> set ops1" "bo_req bo1 = i" "e = bo_err bo1"
      using err_of_in [of last_err ops1 i, OF err_funs(3), of e0] ne unfolding e_def by blast
    have "e \<noteq> 0" using ne z [of e0] unfolding e_def by metis
    with pre [OF bo1(1)] bo1 show ?thesis by simp
  qed
  then show "e = e0 \<or> e = ENOSPC" "e \<noteq> e0 \<Longrightarrow> \<exists>bo \<in> set ops. bo_req bo = i \<and> bo_cmd bo = NBD_CMD_WRITE" by blast+
  show "e = 0 \<Longrightarrow> e0 = 0 \<and> (\<forall>bo \<in> set ops1. bo_req bo = i \<longrightarrow> bo_err bo = 0)" using z [of e0] unfolding e_def by blast
qed

lemma run_batch_ok:
  assumes ok: "ok A R w" and st: "stab None A" and ops: "\<And>bo. bo \<in> set ops \<Longrightarrow> op_in bo \<and> bo_req bo < length reqs"
    and r: "run_batch en reqs ops w = (reqs', ops', w')"
  obtains reqs1 where "ok (wrote ops' A) (lost ops' @ R) w'" "ops_done A ops'"
    "list_all2 (op_final reqs1) ops ops'" "reqs' = spread note_err ops' reqs1" "length reqs1 = length reqs"
    "\<And>i. i < length reqs \<Longrightarrow> \<exists>e. reqs1 ! i = (reqs ! i)\<lparr>bp_error := e\<rparr> \<and> (e = bp_error (reqs ! i) \<or> e = ENOSPC) \<and>
       (e = 0 \<longrightarrow> bp_error (reqs ! i) = 0 \<and> (\<forall>bo \<in> set ops'. bo_req bo = i \<longrightarrow> bo_err bo \<noteq> ENOSPC)) \<and>
       (e \<noteq> bp_error (reqs ! i) \<longrightarrow> (\<exists>bo \<in> set ops. bo_req bo = i \<and> bo_cmd bo = NBD_CMD_WRITE))"
proof -
  obtain ops1 w1 where p: "map_state (prepare_op en) ops w = (ops1, w1)" by fastforce
  define reqs1 where "reqs1 = spread last_err ops1 reqs"
  obtain ops2 w2 where a: "map_state (abort_op en reqs1) ops1 w1 = (ops2, w2)" by fastforce
  have d: "do_blocks en ops2 w2 = (ops', w')" and reqs': "reqs' = spread note_err ops' reqs1"
    using r by (auto simp: run_batch_def p mark_failed_spread reqs1_def [symmetric] a collect_errors_spread split: prod.splits)
  have P: "ok A (concat (map (wr_held (\<lambda>_. [])) ops1) @ R) w1" "list_all2 (\<lambda>bo bo'. op_start A bo' w1 \<and> op_prepared bo bo') ops ops1"
    using prepare_phase [OF ok st _ p] ops by auto
  have st1: "op_start A bo w1" if "bo \<in> set ops1" for bo using that by (auto elim!: list_all2_right [OF P(2)])
  have Q: "ok A (concat (map (wr_held (\<lambda>_. [])) ops2) @ R) w2"
      "list_all2 (\<lambda>bo bo'. op_start A bo' w2 \<and> op_settled reqs1 bo bo') ops1 ops2"
    using abort_phase [OF P(1) st _ a] st1 by auto
  have st2: "op_start A bo w2" if "bo \<in> set ops2" for bo using that by (auto elim!: list_all2_right [OF Q(2)])
  have D: "ok (wrote ops' A) (lost ops' @ R) w'" "stab None (wrote ops' A)" "list_all2 op_kept ops2 ops'" "ops_done A ops'"
    using do_blocks_ok [OF st Q(1) _ d] st2 by auto
  have len: "length ops1 = length ops" "length ops2 = length ops" "length ops' = length ops"
    using P(2) Q(2) D(3) by (auto dest!: list_all2_lengthD)
  have marked: "bp_error (reqs1 ! bo_req bo1) \<noteq> 0" if bo1: "bo1 \<in> set ops1" "bo_err bo1 \<noteq> 0" for bo1
  proof -
    obtain bo where "bo \<in> set ops" "op_prepared bo bo1" using list_all2_right [OF P(2) bo1(1)] by blast
    then have "bo_req bo1 < length reqs" using ops by (auto simp: op_prepared_def op_run_def)
    then show ?thesis using spread_nth [of "bo_req bo1" reqs last_err ops1] err_of_zero [of last_err ops1 "bo_req bo1"] err_funs(1) bo1
      by (auto simp: reqs1_def)
  qed
  have each: "op_final reqs1 (ops ! j) (ops' ! j)" "bo_err (ops1 ! j) \<noteq> 0 \<Longrightarrow> bo_err (ops' ! j) = bo_err (ops1 ! j)"
      "bo_req (ops' ! j) = bo_req (ops1 ! j)" if j: "j < length ops" for j
  proof -
    have "op_prepared (ops ! j) (ops1 ! j)" "op_settled reqs1 (ops1 ! j) (ops2 ! j)" "op_kept (ops2 ! j) (ops' ! j)"
      using P(2) Q(2) D(3) j len by (auto simp: list_all2_conv_all_nth)
    from op_final_steps [OF this] marked j len show "op_final reqs1 (ops ! j) (ops' ! j)"
      "bo_err (ops1 ! j) \<noteq> 0 \<Longrightarrow> bo_err (ops' ! j) = bo_err (ops1 ! j)" "bo_req (ops' ! j) = bo_req (ops1 ! j)" by auto
  qed
  show thesis
  proof (rule that [of reqs1])
    show "ok (wrote ops' A) (lost ops' @ R) w'" "ops_done A ops'" "reqs' = spread note_err ops' reqs1" by (fact D(1) D(4) reqs')+
    show "list_all2 (op_final reqs1) ops ops'" using each(1) len by (simp add: list_all2_conv_all_nth)
    show "length reqs1 = length reqs" by (simp add: reqs1_def)
    fix i assume i: "i < length reqs"
    let ?e = "err_of last_err ops1 i (bp_error (reqs ! i))"
    note me = marked_error [OF P(2), where i = i and ?e0.0 = "bp_error (reqs ! i)"]
    have "bo_err (ops' ! j) \<noteq> ENOSPC" if "?e = 0" "j < length ops" "bo_req (ops' ! j) = i" for j
      using each [OF that(2)] that me(3) len nth_mem [of j ops1] P(2) D(3) Q(2)
      by (auto simp: list_all2_conv_all_nth op_kept_def op_settled_def)
    then have "?e = 0 \<longrightarrow> bp_error (reqs ! i) = 0 \<and> (\<forall>bo \<in> set ops'. bo_req bo = i \<longrightarrow> bo_err bo \<noteq> ENOSPC)"
      using me(3) len by (metis in_set_conv_nth)
    with me(1,2) show "\<exists>e. reqs1 ! i = (reqs ! i)\<lparr>bp_error := e\<rparr> \<and> (e = bp_error (reqs ! i) \<or> e = ENOSPC) \<and>
       (e = 0 \<longrightarrow> bp_error (reqs ! i) = 0 \<and> (\<forall>bo \<in> set ops'. bo_req bo = i \<longrightarrow> bo_err bo \<noteq> ENOSPC)) \<and>
       (e \<noteq> bp_error (reqs ! i) \<longrightarrow> (\<exists>bo \<in> set ops. bo_req bo = i \<and> bo_cmd bo = NBD_CMD_WRITE))"
      using spread_nth [OF i, of last_err ops1] by (intro exI [of _ ?e]) (auto simp: reqs1_def)
  qed
qed

end

end
