(* ===== verification/Server_Properties.thy ===== *)
theory Server_Properties
  imports Server_Batch
begin

text \<open>
  What a client is promised: requests are bounds-checked without overflow, a batch fits its
  arrays, every request of a batch is answered once and in order, and a batch acts on the
  image like its successful writes one after the other.
\<close>

section \<open>Bounds\<close>

lemma oob_iff:
  assumes "g_disk_size en < 2 ^ 64"
  shows "oob en offset len \<longleftrightarrow> g_disk_size en < offset + len"
  using assms by (cases "offset \<le> g_disk_size en") (auto simp: oob_def sub64_exact)

lemma store_env_oob: "store_env en mem \<Longrightarrow> oob en offset len \<longleftrightarrow> g_disk_size en < offset + len"
  by (rule oob_iff) (simp add: store_env_def)

text \<open>
  C15. The bounds check accepts a request exactly when its range lies inside the device, for every
  64-bit offset and 32-bit length: the sum that would overflow is never formed.
\<close>

theorem oob_exact:
  assumes "g_disk_size en < 2 ^ 64"
  shows "oob en offset len \<longleftrightarrow> \<not> offset + len \<le> g_disk_size en"
  unfolding oob_iff [OF assms] by (rule not_le [symmetric])

theorem oob_exact_witness: "oob demo (2 ^ 64 - 1) 2 \<and> \<not> oob demo 8192 0"
  using oob_exact [of demo "2 ^ 64 - 1" 2] oob_exact [of demo 8192 0] by simp

section \<open>The operations of a batch\<close>

lemma batch_ops_split:
  assumes "i < length reqs"
  shows "batch_ops reqs pl = batch_ops (take i reqs) pl @ req_ops (reqs ! i) i (pl i) @
    concat (map (\<lambda>j. req_ops (reqs ! j) j (pl j)) [Suc i..<length reqs])"
proof -
  let ?f = "\<lambda>j. req_ops (reqs ! j) j (pl j)"
  have "[0..<length reqs] = [0..<i] @ [i] @ [Suc i..<length reqs]"
    using assms by (metis append_Cons append_Nil le0 less_imp_le_nat upt_add_eq_append upt_conv_Cons ordered_cancel_comm_monoid_diff_class.add_diff_inverse)
  then have "batch_ops reqs pl = concat (map ?f [0..<i]) @ ?f i @ concat (map ?f [Suc i..<length reqs])"
    unfolding batch_ops_def by (simp only: map_append concat_append) simp
  moreover have "batch_ops (take i reqs) pl = concat (map ?f [0..<i])"
    using assms unfolding batch_ops_def by (intro arg_cong [where f = concat] map_cong) auto
  ultimately show ?thesis by simp
qed

lemma batch_segment:
  assumes "batch_wf en reqs pl ops" "i < length reqs"
  shows "take (bp_nops (reqs ! i)) (drop (bp_op0 (reqs ! i)) ops) = req_ops (reqs ! i) i (pl i)"
  using assms batch_ops_split [OF assms(2), of pl] by (simp add: batch_wf_def)

lemma batch_op_in:
  assumes "batch_wf en reqs pl ops" "bo \<in> set ops"
  obtains i j where "i < length reqs" "j < bp_nops (reqs ! i)" "bo = req_ops (reqs ! i) i (pl i) ! j"
proof -
  from assms obtain i where "i < length reqs" "bo \<in> set (req_ops (reqs ! i) i (pl i))" by (auto simp: batch_wf_def batch_ops_def)
  then show thesis using that by (metis in_set_conv_nth length_req_ops)
qed

lemma req_op:
  assumes "j < bp_nops rq"
  shows "req_ops rq ri p ! j = blkop_set (bp_offset rq div CBLK_SIZE + j) (bp_cmd rq) (page_of p j) ri"
  using assms by (simp add: req_ops_def page_of_def)

text \<open>A request with block operations is aligned and inside the device.\<close>

lemma req_inside:
  assumes "req_wf en rq" "store_env en mem" "bp_nops rq \<noteq> 0"
  shows "bp_error rq = 0" "bp_nops rq * CBLK_SIZE = bp_len rq" "bp_offset rq div CBLK_SIZE * CBLK_SIZE = bp_offset rq"
    "bp_offset rq div CBLK_SIZE + bp_nops rq \<le> g_nblocks en"
proof -
  show e: "bp_error rq = 0" using assms(1,3) by (auto simp: req_wf_def split: if_splits)
  show n: "bp_nops rq * CBLK_SIZE = bp_len rq" "bp_offset rq div CBLK_SIZE * CBLK_SIZE = bp_offset rq"
    using assms(1) e by (auto simp: req_wf_def)
  have "\<not> oob en (bp_offset rq) (bp_len rq)" using assms(1) e by (auto simp: req_wf_def split: if_splits)
  then have "(bp_offset rq div CBLK_SIZE + bp_nops rq) * CBLK_SIZE \<le> g_disk_size en"
    using n store_env_oob [OF assms(2)] by (simp add: add_mult_distrib)
  then show "bp_offset rq div CBLK_SIZE + bp_nops rq \<le> g_nblocks en"
    by (simp add: g_nblocks_def less_eq_div_iff_mult_less_eq)
qed

lemma batch_op_facts:
  assumes "batch_wf en reqs pl ops" "store_env en mem" "bo \<in> set ops"
  shows "bo_blk bo < g_nblocks en" "bo_err bo = 0" "bo_req bo < length reqs" "bo_cmd bo = bp_cmd (reqs ! bo_req bo)"
    "bo_cmd bo = NBD_CMD_READ \<or> bo_cmd bo = NBD_CMD_WRITE \<and> length (bo_page bo) = CBLK_SIZE"
    "bp_error (reqs ! bo_req bo) = 0"
proof -
  obtain i j where ij: "i < length reqs" "j < bp_nops (reqs ! i)" "bo = req_ops (reqs ! i) i (pl i) ! j"
    by (rule batch_op_in [OF assms(1,3)])
  have wf: "req_wf en (reqs ! i)" "bp_cmd (reqs ! i) = NBD_CMD_WRITE \<Longrightarrow> length (pl i) = bp_len (reqs ! i)"
    using assms(1) ij(1) by (auto simp: batch_wf_def)
  have "bp_nops (reqs ! i) \<noteq> 0" using ij(2) by auto
  note r = req_inside [OF wf(1) assms(2) this]
  have bo: "bo = blkop_set (bp_offset (reqs ! i) div CBLK_SIZE + j) (bp_cmd (reqs ! i)) (page_of (pl i) j) i"
    using ij req_op by simp
  have "(j + 1) * CBLK_SIZE \<le> bp_nops (reqs ! i) * CBLK_SIZE" using ij(2) by (intro mult_le_mono1) simp
  then have "length (page_of (pl i) j) = CBLK_SIZE" if "bp_cmd (reqs ! i) = NBD_CMD_WRITE"
    using wf(2) [OF that] r(2) by (intro length_page_of) simp
  then show "bo_blk bo < g_nblocks en" "bo_err bo = 0" "bo_req bo < length reqs" "bo_cmd bo = bp_cmd (reqs ! bo_req bo)"
    "bo_cmd bo = NBD_CMD_READ \<or> bo_cmd bo = NBD_CMD_WRITE \<and> length (bo_page bo) = CBLK_SIZE" "bp_error (reqs ! bo_req bo) = 0"
    using bo ij wf(1) r(1,4) by (auto simp: blkop_set_def req_wf_def)
qed

section \<open>Writes of a batch, in order\<close>

definition apply_ops :: "(blkop \<Rightarrow> bool) \<Rightarrow> blkop list \<Rightarrow> (nat \<Rightarrow> byte list) \<Rightarrow> nat \<Rightarrow> byte list" where
  "apply_ops good ops D = fold (\<lambda>bo D. if good bo then D(bo_blk bo := bo_page bo) else D) ops D"

text \<open>The image after the writes that were acknowledged without error, each in its turn.\<close>

definition put_req :: "bop \<Rightarrow> byte list \<Rightarrow> (nat \<Rightarrow> byte) \<Rightarrow> nat \<Rightarrow> byte" where
  "put_req rq p d x =
     (if bp_cmd rq = NBD_CMD_WRITE \<and> bp_error rq = 0 \<and> bp_offset rq \<le> x \<and> x < bp_offset rq + bp_len rq
      then p ! (x - bp_offset rq) else d x)"

definition batch_image :: "bop list \<Rightarrow> (nat \<Rightarrow> byte list) \<Rightarrow> (nat \<Rightarrow> byte) \<Rightarrow> nat \<Rightarrow> byte" where
  "batch_image reqs pl d = fold (\<lambda>i. put_req (reqs ! i) (pl i)) [0..<length reqs] d"

definition bytes_of :: "(nat \<Rightarrow> byte list) \<Rightarrow> nat \<Rightarrow> byte" where
  "bytes_of D x = D (x div CBLK_SIZE) ! (x mod CBLK_SIZE)"

lemma apply_ops_append: "apply_ops good (xs @ ys) D = apply_ops good ys (apply_ops good xs D)"
  by (simp add: apply_ops_def)

lemma apply_ops_all:
  assumes "\<And>bo. bo \<in> set ops \<Longrightarrow> good bo = c"
  shows "apply_ops good ops D = (if c then fold (\<lambda>bo D. D(bo_blk bo := bo_page bo)) ops D else D)"
  using assms by (induction ops arbitrary: D) (auto simp: apply_ops_def)

lemma fold_run:
  "fold (\<lambda>bo D. D(bo_blk bo := bo_page bo)) (map (\<lambda>i. blkop_set (q + i) cmd (page_of p i) ri) [0..<n]) D b =
     (if q \<le> b \<and> b < q + n then page_of p (b - q) else D b)"
  by (induction n) (auto simp: blkop_set_def less_Suc_eq)

lemma apply_req:
  assumes "req_wf en rq" "store_env en mem" "\<And>bo. bo \<in> set (req_ops rq ri p) \<Longrightarrow> good bo = (bp_cmd rq = NBD_CMD_WRITE \<and> e = 0)"
    and "bp_cmd rq = NBD_CMD_WRITE \<longrightarrow> length p = bp_len rq" "bp_error rq \<noteq> 0 \<longrightarrow> e \<noteq> 0"
  shows "bytes_of (apply_ops good (req_ops rq ri p) D) x = put_req (rq\<lparr>bp_error := e\<rparr>) p (bytes_of D) x"
proof (cases "bp_cmd rq = NBD_CMD_WRITE \<and> e = 0")
  case False
  then have "apply_ops good (req_ops rq ri p) D = D" using apply_ops_all [of "req_ops rq ri p" good False D] assms(3) by auto
  then show ?thesis using False by (auto simp: put_req_def)
next
  case True
  let ?q = "bp_offset rq div CBLK_SIZE" and ?n = "bp_nops rq"
  have "bp_error rq = 0" using assms(5) True by auto
  then have n0: "?n \<noteq> 0" using assms(1) by (auto simp: req_wf_def div_eq_0_iff)
  note r = req_inside [OF assms(1,2) n0]
  have ops: "req_ops rq ri p = map (\<lambda>i. blkop_set (?q + i) (bp_cmd rq) (page_of p i) ri) [0..<?n]"
    by (simp add: req_ops_def page_of_def)
  have D: "apply_ops good (req_ops rq ri p) D b = (if ?q \<le> b \<and> b < ?q + ?n then page_of p (b - ?q) else D b)" for b
  proof -
    have "apply_ops good (req_ops rq ri p) D = fold (\<lambda>bo D. D(bo_blk bo := bo_page bo)) (req_ops rq ri p) D"
      using apply_ops_all [of "req_ops rq ri p" good True D] assms(3) True by simp
    then show ?thesis unfolding ops by (simp only: fold_run)
  qed
  let ?b = "x div CBLK_SIZE" and ?m = "x mod CBLK_SIZE"
  have x: "?b * CBLK_SIZE + ?m = x" "?m < CBLK_SIZE" by simp_all
  have iff: "(?q \<le> ?b \<and> ?b < ?q + ?n) \<longleftrightarrow> (bp_offset rq \<le> x \<and> x < bp_offset rq + bp_len rq)"
  proof -
    have "?q \<le> ?b \<longleftrightarrow> ?q * CBLK_SIZE \<le> x" by (simp add: less_eq_div_iff_mult_less_eq)
    moreover have "?b < ?q + ?n \<longleftrightarrow> x < (?q + ?n) * CBLK_SIZE" by (simp add: div_less_iff_less_mult)
    moreover have "(?q + ?n) * CBLK_SIZE = bp_offset rq + bp_len rq" using r(2,3) by (simp only: add_mult_distrib)
    ultimately show ?thesis using r(3) by simp
  qed
  have "page_of p (?b - ?q) ! ?m = p ! (x - bp_offset rq)" if "bp_offset rq \<le> x" "x < bp_offset rq + bp_len rq"
  proof -
    have "(?b - ?q) * CBLK_SIZE + ?m = x - bp_offset rq"
      using x r(3) that iff by (simp only: diff_mult_distrib) (metis Nat.add_diff_assoc2 mult_le_mono1)
    then show ?thesis using x(2) that assms(4) True by (simp add: page_of_def)
  qed
  then show ?thesis unfolding bytes_of_def D using iff True by (auto simp: put_req_def bytes_of_def)
qed

lemma apply_batch:
  assumes wf: "batch_wf en reqs pl ops" and env: "store_env en mem" and len: "length reqs' = length reqs"
    and reqs': "\<And>i. i < length reqs \<Longrightarrow> reqs' ! i = (reqs ! i)\<lparr>bp_error := bp_error (reqs' ! i)\<rparr> \<and> (bp_error (reqs ! i) \<noteq> 0 \<longrightarrow> bp_error (reqs' ! i) \<noteq> 0)"
    and good: "\<And>bo. bo \<in> set ops \<Longrightarrow> good bo = (bo_cmd bo = NBD_CMD_WRITE \<and> bp_error (reqs' ! bo_req bo) = 0)"
  shows "bytes_of (apply_ops good ops D) = batch_image reqs' pl (bytes_of D)"
proof -
  let ?f = "\<lambda>i. req_ops (reqs ! i) i (pl i)"
  have "bytes_of (apply_ops good (concat (map ?f [0..<k])) D) = fold (\<lambda>i. put_req (reqs' ! i) (pl i)) [0..<k] (bytes_of D)"
    if "k \<le> length reqs" for k
    using that
  proof (induction k)
    case 0
    then show ?case by (simp add: apply_ops_def)
  next
    case (Suc k)
    have k: "k < length reqs" using Suc.prems by simp
    have w: "req_wf en (reqs ! k)" "bp_cmd (reqs ! k) = NBD_CMD_WRITE \<longrightarrow> length (pl k) = bp_len (reqs ! k)"
      using wf k by (auto simp: batch_wf_def)
    have good_k: "good bo = (bp_cmd (reqs ! k) = NBD_CMD_WRITE \<and> bp_error (reqs' ! k) = 0)" if bo: "bo \<in> set (?f k)" for bo
    proof -
      have "bo \<in> set ops" using bo k wf by (auto simp: batch_wf_def batch_ops_def)
      moreover have "bo_req bo = k" "bo_cmd bo = bp_cmd (reqs ! k)" using bo by (auto simp: req_ops_def blkop_set_def)
      ultimately show ?thesis using good by simp
    qed
    have "bytes_of (apply_ops good (?f k) D') = put_req (reqs' ! k) (pl k) (bytes_of D')" for D'
    proof
      fix x
      have "bytes_of (apply_ops good (?f k) D') x = put_req ((reqs ! k)\<lparr>bp_error := bp_error (reqs' ! k)\<rparr>) (pl k) (bytes_of D') x"
        by (rule apply_req [OF w(1) env _ w(2)]) (use good_k reqs' [OF k] in auto)
      then show "bytes_of (apply_ops good (?f k) D') x = put_req (reqs' ! k) (pl k) (bytes_of D') x"
        by (simp only: conjunct1 [OF reqs' [OF k], symmetric])
    qed
    then show ?case using Suc k by (simp add: apply_ops_append)
  qed
  from this [of "length reqs"] show ?thesis using wf len by (simp add: batch_wf_def batch_ops_def batch_image_def)
qed

section \<open>Answers of a batch\<close>

lemma read_answer:
  assumes wf: "batch_wf en reqs pl ops" and env: "store_env en mem" and i: "i < length reqs" and len: "length ops' = length ops"
    and c: "bp_cmd (reqs ! i) = NBD_CMD_READ" "bp_error (reqs ! i) = 0"
    and page: "\<And>j. j < length ops \<Longrightarrow> bo_req (ops ! j) = i \<Longrightarrow> bo_page (ops' ! j) = D (bo_blk (ops ! j)) \<and> length (bo_page (ops' ! j)) = CBLK_SIZE"
  shows "slot_bytes (reqs ! i) ops' = map (bytes_of D) [bp_offset (reqs ! i)..<bp_offset (reqs ! i) + bp_len (reqs ! i)]"
proof -
  let ?rq = "reqs ! i"
  let ?n = "bp_nops ?rq" and ?o = "bp_op0 ?rq" and ?q = "bp_offset ?rq div CBLK_SIZE"
  have w: "req_wf en ?rq" using wf i by (simp add: batch_wf_def)
  then have "?n \<noteq> 0" using c(2) by (auto simp: req_wf_def div_eq_0_iff)
  note r = req_inside [OF w env this]
  have seg: "take ?n (drop ?o ops) = req_ops ?rq i (pl i)" by (rule batch_segment [OF wf i])
  then have "length (take ?n (drop ?o ops)) = ?n" by simp
  then have fit: "?o + ?n \<le> length ops" using \<open>?n \<noteq> 0\<close> by (simp add: min_def split: if_splits)
  let ?ps = "map bo_page (take ?n (drop ?o ops'))"
  have p: "?ps ! j = D (?q + j) \<and> length (?ps ! j) = CBLK_SIZE" if j: "j < ?n" for j
  proof -
    have "ops ! (?o + j) = req_ops ?rq i (pl i) ! j" using seg fit j by (metis add_leD1 le_add_diff_inverse length_req_ops nth_drop nth_take)
    then have "bo_req (ops ! (?o + j)) = i" "bo_blk (ops ! (?o + j)) = ?q + j" using req_op [OF j] by (auto simp: blkop_set_def)
    with page [of "?o + j"] fit j len show ?thesis by auto
  qed
  have l: "length ?ps = ?n" using fit len by simp
  then have ps: "\<forall>x \<in> set ?ps. length x = CBLK_SIZE" using p by (metis in_set_conv_nth)
  have "slot_bytes ?rq ops' = concat ?ps" by (simp add: slot_bytes_def)
  moreover have "concat ?ps = map (bytes_of D) [bp_offset ?rq..<bp_offset ?rq + bp_len ?rq]"
  proof (rule nth_equalityI)
    show "length (concat ?ps) = length (map (bytes_of D) [bp_offset ?rq..<bp_offset ?rq + bp_len ?rq])"
      using length_concat_pages [OF ps] l r(2) by simp
    fix x assume "x < length (concat ?ps)"
    then have x: "x < ?n * CBLK_SIZE" using length_concat_pages [OF ps] l by simp
    let ?k = "x div CBLK_SIZE" and ?m = "x mod CBLK_SIZE"
    have k: "?k < ?n" using x by (rule block_lt)
    have "concat ?ps ! x = page_of (concat ?ps) ?k ! ?m"
      using x length_concat_pages [OF ps] l by (simp add: page_of_def)
    also have "\<dots> = D (?q + ?k) ! ?m" using page_of_concat [OF ps, of ?k] p [OF k] k l by simp
    also have "\<dots> = bytes_of D (bp_offset ?rq + x)"
      unfolding bytes_of_def by (subst r(3) [symmetric], subst r(3) [symmetric]) simp
    finally show "concat ?ps ! x = map (bytes_of D) [bp_offset ?rq..<bp_offset ?rq + bp_len ?rq] ! x"
      using x r(2) by simp
  qed
  ultimately show ?thesis by simp
qed

text \<open>What becomes of request @i@ when the driver refuses no copy.\<close>

definition req_outcome :: "'d env \<Rightarrow> ('d \<Rightarrow> nat \<Rightarrow> byte) \<Rightarrow> 'd world \<Rightarrow> blkop list \<Rightarrow> bop \<Rightarrow> bop \<Rightarrow> bool" where
  "req_outcome en mem w ops' rq rq' \<longleftrightarrow> rq' = rq\<lparr>bp_error := bp_error rq'\<rparr> \<and>
     (if oob en (bp_offset rq) (bp_len rq) then bp_error rq' = EINVAL
      else bp_error rq' = 0 \<or> bp_error rq' = ENOSPC \<and> bp_cmd rq = NBD_CMD_WRITE) \<and>
     (bp_cmd rq = NBD_CMD_READ \<longrightarrow> bp_error rq' = 0 \<longrightarrow>
        slot_bytes rq' ops' = map (disk en mem w) [bp_offset rq..<bp_offset rq + bp_len rq])"

lemma slot_bytes_err: "slot_bytes (rq\<lparr>bp_error := e\<rparr>) ops = slot_bytes rq ops"
  by (simp add: slot_bytes_def)

context single_worker
begin

lemma wrote_apply: "alone.wrote ops (\<lambda>b. {D b}) = (\<lambda>b. {apply_ops alone.published ops D b})"
proof (induction ops arbitrary: D)
  case Nil
  then show ?case by (simp add: alone.wrote_def apply_ops_def)
next
  case (Cons bo ops)
  let ?D = "if alone.published bo then D(bo_blk bo := bo_page bo) else D"
  have "alone.wrote (bo # ops) (\<lambda>b. {D b}) = alone.wrote ops (\<lambda>b. {?D b})"
  proof -
    have "alone.upd (\<lambda>b. {D b}) (bo_blk bo) (bo_page bo) = (\<lambda>b. {(D(bo_blk bo := bo_page bo)) b})"
      by (simp add: alone.upd_def fun_eq_iff)
    then show ?thesis by (simp add: alone.wrote_def)
  qed
  also have "\<dots> = (\<lambda>b. {apply_ops alone.published ops ?D b})" by (rule Cons.IH)
  finally show ?case by (simp add: apply_ops_def)
qed

lemma apply_ops_final:
  assumes "list_all2 P ops ops'"
    and "\<And>bo bo'. P bo bo' \<Longrightarrow> bo \<in> set ops \<Longrightarrow> bo' \<in> set ops' \<Longrightarrow> g' bo' = g bo \<and> (g bo \<longrightarrow> bo_blk bo' = bo_blk bo \<and> bo_page bo' = bo_page bo)"
  shows "apply_ops g' ops' D = apply_ops g ops D"
  using assms
proof (induction ops ops' arbitrary: D rule: list_all2_induct)
  case (Cons bo ops bo' ops')
  then have "g' bo' = g bo \<and> (g bo \<longrightarrow> bo_blk bo' = bo_blk bo \<and> bo_page bo' = bo_page bo)" by simp
  with Cons show ?case by (auto simp: apply_ops_def)
qed (simp add: apply_ops_def)

lemma err_of_settled:
  assumes "\<And>bo. bo \<in> set ops \<Longrightarrow> bo_req bo = i \<Longrightarrow> bo_err bo = 0 \<or> e \<noteq> 0 \<and> bo_err bo \<noteq> EIO"
  shows "err_of note_err ops i e = e"
  using assms
proof (induction ops)
  case (Cons bo ops)
  have "note_err e (bo_err bo) = e" if "bo_req bo = i" using Cons.prems [of bo] that by (auto simp: note_err_def)
  then have "err_of note_err (bo # ops) i e = err_of note_err ops i e" by (simp add: err_of_def)
  with Cons show ?case by simp
qed (simp add: err_of_def)

lemma lost_nothing:
  assumes fin: "list_all2 (alone.op_final reqs1) ops ops'" and err: "\<forall>bo \<in> set ops'. bo_err bo = 0 \<or> bo_err bo = ENOSPC"
  shows "alone.lost ops' = []"
proof -
  have "(if alone.published bo' then [] else alone.wr_held (\<lambda>_. []) bo') = []" if bo': "bo' \<in> set ops'" for bo'
  proof -
    obtain bo where "bo \<in> set ops" "alone.op_final reqs1 bo bo'" by (rule list_all2_right [OF fin bo'])
    with bspec [OF err bo'] show ?thesis
      by (cases "bo_cmd bo = NBD_CMD_WRITE") (auto simp: alone.op_final_def op_run_def alone.wr_held_def)
  qed
  then show ?thesis by (simp add: alone.lost_def cong: map_cong)
qed

lemma read_outcome:
  assumes env: "store_env en mem" and wf: "batch_wf en reqs pl ops" and i: "i < length reqs"
    and fin: "list_all2 (alone.op_final reqs1) ops ops'" and dn: "alone.ops_done (\<lambda>b. {D b}) ops'"
    and err: "\<forall>bo \<in> set ops'. bo_err bo = 0 \<or> bo_err bo = ENOSPC"
    and c: "bp_cmd (reqs ! i) = NBD_CMD_READ" and z: "bp_error (reqs ! i) = 0"
  shows "slot_bytes (reqs ! i) ops' = map (bytes_of D) [bp_offset (reqs ! i)..<bp_offset (reqs ! i) + bp_len (reqs ! i)]"
proof -
  have pg: "bo_page (ops' ! j) = D (bo_blk (ops ! j)) \<and> length (bo_page (ops' ! j)) = CBLK_SIZE"
    if j: "j < length ops" "bo_req (ops ! j) = i" for j
  proof -
    have f: "alone.op_final reqs1 (ops ! j) (ops' ! j)" "ops' ! j \<in> set ops'" using fin j by (auto simp: list_all2_conv_all_nth)
    have "bo_cmd (ops ! j) = NBD_CMD_READ" using batch_op_facts(4) [OF wf env, of "ops ! j"] j c by simp
    with f bspec [OF err f(2)] have "bo_cmd (ops' ! j) = NBD_CMD_READ" "bo_err (ops' ! j) = 0" "bo_blk (ops' ! j) = bo_blk (ops ! j)"
      by (auto simp: alone.op_final_def op_run_def)
    with dn f(2) show ?thesis by (auto simp: alone.ops_done_def alone.rd_done_def)
  qed
  have lo: "length ops' = length ops" using list_all2_lengthD [OF fin] by simp
  show ?thesis by (rule read_answer [OF wf env i lo c z]) (rule pg)
qed

lemma error_outcome:
  assumes env: "store_env en mem" and wf: "batch_wf en reqs pl ops" and i: "i < length reqs"
    and e: "e = bp_error (reqs ! i) \<or> e = ENOSPC" "e \<noteq> bp_error (reqs ! i) \<longrightarrow> (\<exists>bo \<in> set ops. bo_req bo = i \<and> bo_cmd bo = NBD_CMD_WRITE)"
  shows "if oob en (bp_offset (reqs ! i)) (bp_len (reqs ! i)) then e = EINVAL
    else e = 0 \<or> e = ENOSPC \<and> bp_cmd (reqs ! i) = NBD_CMD_WRITE"
proof -
  have w: "req_wf en (reqs ! i)" using wf i by (simp add: batch_wf_def)
  have "bp_error (reqs ! i) = 0 \<and> bp_cmd (reqs ! i) = NBD_CMD_WRITE" if "e \<noteq> bp_error (reqs ! i)"
    using e(2) that batch_op_facts(4,6) [OF wf env] by fastforce
  then show ?thesis using e(1) w by (cases "e = bp_error (reqs ! i)") (auto simp: req_wf_def split: if_splits)
qed

lemma run_batch_alone:
  assumes env: "store_env en mem" and fl: "faultless en" and inv: "store_inv en mem X w"
    and wf: "batch_wf en reqs pl ops" and r: "run_batch en reqs ops w = (reqs', ops', w')"
  shows "store_inv en mem X w'" "length reqs' = length reqs" "i < length reqs \<Longrightarrow> req_outcome en mem w ops' (reqs ! i) (reqs' ! i)"
    "x < g_nblocks en * CBLK_SIZE \<Longrightarrow> disk en mem w' x = batch_image reqs' pl (disk en mem w) x"
proof -
  let ?D = "page_at en mem w"
  have ok: "ok (\<lambda>b. {?D b}) [] w" using inv st_ok_pages by (simp add: store_inv_def)
  note facts = batch_op_facts [OF wf env]
  have ops: "alone.op_in bo \<and> bo_req bo < length reqs" if "bo \<in> set ops" for bo
    using facts [OF that] by (auto simp: alone.op_in_def alone.may_write_def)
  obtain reqs1 where ok': "ok (alone.wrote ops' (\<lambda>b. {?D b})) (alone.lost ops' @ []) w'" and dn: "alone.ops_done (\<lambda>b. {?D b}) ops'"
    and fin: "list_all2 (alone.op_final reqs1) ops ops'" and sp: "reqs' = spread note_err ops' reqs1" "length reqs1 = length reqs"
    and e1: "\<And>i. i < length reqs \<Longrightarrow> \<exists>e. reqs1 ! i = (reqs ! i)\<lparr>bp_error := e\<rparr> \<and> (e = bp_error (reqs ! i) \<or> e = ENOSPC) \<and>
       (e = 0 \<longrightarrow> bp_error (reqs ! i) = 0 \<and> (\<forall>bo \<in> set ops'. bo_req bo = i \<longrightarrow> bo_err bo \<noteq> ENOSPC)) \<and>
       (e \<noteq> bp_error (reqs ! i) \<longrightarrow> (\<exists>bo \<in> set ops. bo_req bo = i \<and> bo_cmd bo = NBD_CMD_WRITE))"
    using alone.run_batch_ok [OF ok stab_any ops r] by blast
  have errs: "\<forall>bo \<in> set ops'. bo_err bo = 0 \<or> bo_err bo = ENOSPC"
    using fl by (auto elim!: list_all2_right [OF fin] simp: alone.op_final_def)
  note err = bspec [OF errs]
  have eq: "reqs' ! i = reqs1 ! i" if i: "i < length reqs" for i
  proof -
    have "err_of note_err ops' i (bp_error (reqs1 ! i)) = bp_error (reqs1 ! i)"
      by (rule err_of_settled) (use e1 [OF i] err in fastforce)
    then show ?thesis using spread_nth [of i reqs1 note_err ops'] i sp by simp
  qed
  show len: "length reqs' = length reqs" using sp by simp
  have pub: "alone.published bo' = (bo_cmd bo = NBD_CMD_WRITE \<and> bp_error (reqs' ! bo_req bo) = 0) \<and>
      (bo_cmd bo = NBD_CMD_WRITE \<and> bp_error (reqs' ! bo_req bo) = 0 \<longrightarrow> bo_blk bo' = bo_blk bo \<and> bo_page bo' = bo_page bo)"
    if "alone.op_final reqs1 bo bo'" "bo \<in> set ops" "bo' \<in> set ops'" for bo bo'
    using that e1 [of "bo_req bo"] eq [of "bo_req bo"] facts(3) [OF that(2)] err [OF that(3)]
    by (cases "bo_cmd bo = NBD_CMD_WRITE") (auto simp: alone.op_final_def op_run_def alone.published_def)
  have "alone.lost ops' = []" using fin errs by (rule lost_nothing)
  with ok' have ok2: "ok (\<lambda>b. {apply_ops alone.published ops' ?D b}) [] w'" by (simp add: wrote_apply)
  then show "store_inv en mem X w'" using st_ok_top by (simp add: store_inv_def)
  have ap: "apply_ops alone.published ops' ?D = apply_ops (\<lambda>bo. bo_cmd bo = NBD_CMD_WRITE \<and> bp_error (reqs' ! bo_req bo) = 0) ops ?D"
    by (rule apply_ops_final [OF fin]) (rule pub)
  have keep: "reqs' ! i = (reqs ! i)\<lparr>bp_error := bp_error (reqs' ! i)\<rparr> \<and> (bp_error (reqs ! i) \<noteq> 0 \<longrightarrow> bp_error (reqs' ! i) \<noteq> 0)"
    if "i < length reqs" for i using e1 [OF that] eq [OF that] by fastforce
  have bytes: "bytes_of ?D = disk en mem w" by (simp add: fun_eq_iff bytes_of_def disk_def)
  have img: "bytes_of (apply_ops alone.published ops' ?D) = batch_image reqs' pl (disk en mem w)"
    unfolding ap bytes [symmetric] by (rule apply_batch [OF wf env len keep refl])
  show "disk en mem w' x = batch_image reqs' pl (disk en mem w) x" if "x < g_nblocks en * CBLK_SIZE"
    using st_ok_page_at(1) [OF ok2 block_lt [OF that]] fun_cong [OF img, of x] by (simp add: disk_def bytes_of_def)
  show "req_outcome en mem w ops' (reqs ! i) (reqs' ! i)" if i: "i < length reqs"
  proof -
    have val: "if oob en (bp_offset (reqs ! i)) (bp_len (reqs ! i)) then bp_error (reqs' ! i) = EINVAL
        else bp_error (reqs' ! i) = 0 \<or> bp_error (reqs' ! i) = ENOSPC \<and> bp_cmd (reqs ! i) = NBD_CMD_WRITE"
      by (rule error_outcome [OF env wf i]) (use e1 [OF i] eq [OF i] in auto)
    have rd: "slot_bytes (reqs' ! i) ops' = map (disk en mem w) [bp_offset (reqs ! i)..<bp_offset (reqs ! i) + bp_len (reqs ! i)]"
      if c: "bp_cmd (reqs ! i) = NBD_CMD_READ" "bp_error (reqs' ! i) = 0"
    proof -
      have z: "bp_error (reqs ! i) = 0" using keep [OF i] c(2) by auto
      note read_outcome [OF env wf i fin dn errs c(1) z]
      moreover have "slot_bytes (reqs' ! i) ops' = slot_bytes (reqs ! i) ops'"
        by (subst conjunct1 [OF keep [OF i]]) (rule slot_bytes_err)
      ultimately show ?thesis unfolding bytes by simp
    qed
    from val rd keep [OF i] show ?thesis unfolding req_outcome_def by blast
  qed
qed

end

section \<open>Properties of the batched path\<close>

text \<open>
  C13. A batch never overflows the arrays it is assembled in. Whatever headers the client has queued
  and wherever the connection breaks, the requests gathered after a first admitted one are at most
  as many as @reqs@ has entries, and their block operations at most as many as @ops@ has.
\<close>

theorem batch_fits_arrays:
  assumes "1 \<le> g_batch_depth en" "batch_admit en h [] [] k = (Batched, reqs, ops, k1)" "gather en reqs ops k1 = (g, reqs1, ops1, k2)"
  shows "length reqs1 \<le> g_batch_depth en \<and> length ops1 \<le> maxops en"
proof (rule gather_bounds [OF _ _ assms(3)])
  show "length reqs \<le> g_batch_depth en" "length ops \<le> maxops en"
    using batch_admit_bounds [OF assms(2)] assms(1) maxops_ge [of en] by auto
qed

definition demo_read :: nbd_req where
  "demo_read = \<lparr>rq_magic = NBD_REQUEST_MAGIC, rq_flags = 0, rq_type = NBD_CMD_READ, rq_handle = [0, 0, 0, 0, 0, 0, 0, 1], rq_from = 0, rq_len = 8192\<rparr>"

definition demo_peer :: sock where
  "demo_peer = \<lparr>so_in = [Bytes (encode_req demo_read)], so_send = [], so_out = []\<rparr>"

theorem batch_fits_arrays_witness:
  "case batch_admit demo demo_read [] [] demo_peer of (a, reqs, ops, k1) \<Rightarrow> a = Batched \<and>
     (case gather demo reqs ops k1 of (g, reqs1, ops1, k2) \<Rightarrow> length reqs1 \<le> 32 \<and> length ops1 \<le> 512)"
proof -
  obtain a reqs ops k1 where ad: "batch_admit demo demo_read [] [] demo_peer = (a, reqs, ops, k1)" by (metis prod_cases4)
  then have a: "a = Batched"
    by (auto simp: batch_admit_def demo_read_def batchable_def Let_def split: if_splits)
  obtain g reqs1 ops1 k2 where g: "gather demo reqs ops k1 = (g, reqs1, ops1, k2)" by (metis prod_cases4)
  have d: "g_batch_depth demo = 32" by (simp add: demo_def)
  then have "maxops demo = 512" by (simp add: maxops_def u32_def LEGACY_WINDOW_BLOCKS_def)
  with batch_fits_arrays [OF _ ad [unfolded a] g] d a ad g show ?thesis by simp
qed

text \<open>The answer to a request: its header and, for a READ that succeeded, the data.\<close>

definition answer :: "blkop list \<Rightarrow> bop \<Rightarrow> byte list" where
  "answer ops rq = resp_hdr (bp_error rq) (bp_handle rq) @
     (if bp_cmd rq = NBD_CMD_READ \<and> bp_error rq = 0 then slot_bytes rq ops else [])"

lemma send_replies_healthy:
  assumes "healthy k"
  shows "\<exists>k'. send_replies reqs ops k = (True, k') \<and> healthy k' \<and> so_out k' = so_out k @ concat (map (answer ops) reqs)"
  using assms
proof (induction reqs arbitrary: k)
  case Nil
  then show ?case by simp
next
  case (Cons rq reqs)
  obtain k1 where 1: "send_all (resp_hdr (bp_error rq) (bp_handle rq)) k = (True, k1)"
    "so_out k1 = so_out k @ resp_hdr (bp_error rq) (bp_handle rq)" "healthy k1" by (rule send_all_healthy_eq [OF Cons.prems])
  obtain k2 where 2: "send_all (slot_bytes rq ops) k1 = (True, k2)" "so_out k2 = so_out k1 @ slot_bytes rq ops" "healthy k2"
    by (rule send_all_healthy_eq [OF 1(3)])
  show ?case
  proof (cases "bp_cmd rq = NBD_CMD_READ \<and> bp_error rq = 0")
    case True
    with Cons.IH [OF 2(3)] 1 2 show ?thesis by (auto simp: answer_def)
  next
    case False
    with Cons.IH [OF 1(3)] 1 show ?thesis by (auto simp: answer_def)
  qed
qed

lemma run_batch_handles: "run_batch en reqs ops w = (reqs1, ops1, w1) \<Longrightarrow> map bp_handle reqs1 = map bp_handle reqs"
proof -
  have h: "map bp_handle (spread f ops reqs) = map bp_handle reqs" for f ops reqs
    by (rule nth_equalityI) (simp_all add: spread_nth)
  assume "run_batch en reqs ops w = (reqs1, ops1, w1)"
  then show ?thesis by (auto simp: run_batch_def mark_failed_spread collect_errors_spread h Let_def split: prod.splits)
qed

text \<open>
  C14. Every request of a batch is answered exactly once and in the order of arrival, with its own handle
  and the error the batch settled on, and with data exactly when a READ succeeded; the connection is
  kept unless a request failed with EIO, and even then every answer has gone out.
\<close>

theorem flush_batch_answers:
  assumes "healthy (sv_sock s)" "run_batch en reqs ops (sv_world s) = (reqs1, ops1, w1)" "flush_batch en cf reqs ops s = (keep, s')"
  shows "so_out (sv_sock s') = so_out (sv_sock s) @ concat (map (answer ops1) reqs1) \<and>
    map bp_handle reqs1 = map bp_handle reqs \<and> sv_world s' = w1 \<and> (keep \<longleftrightarrow> (\<forall>rq \<in> set reqs1. bp_error rq \<noteq> EIO))"
proof -
  have sock: "sv_sock (count_flush cf (length reqs) (length ops) (s\<lparr>sv_world := w1\<rparr>)) = sv_sock s"
      "sv_world (count_flush cf (length reqs) (length ops) (s\<lparr>sv_world := w1\<rparr>)) = w1"
    by (simp_all add: count_flush_def Let_def)
  from send_replies_healthy [OF assms(1), of reqs1 ops1] assms(2,3) run_batch_handles [OF assms(2)] sock show ?thesis
    by (auto simp: flush_batch_def Let_def)
qed

definition demo_srv :: "(nat \<Rightarrow> byte) srv" where
  "demo_srv = \<lparr>sv_sock = demo_peer, sv_world = demo_world, g_legacy_ops = 0, g_flush_count = 0, g_flush_ops = 0, g_flush_copies = 0,
     g_batch_count = 0, g_batch_ops = 0\<rparr>"

definition demo_cfg :: srv_cfg where
  "demo_cfg = \<lparr>g_batch_enabled = True, g_batch_debug = True, g_running_at = \<lambda>_. True\<rparr>"

theorem flush_batch_answers_witness:
  "\<exists>reqs1 ops1 w1 keep s'. run_batch demo [bop_set demo demo_read 0] (req_ops (bop_set demo demo_read 0) 0 []) demo_world = (reqs1, ops1, w1) \<and>
     flush_batch demo demo_cfg [bop_set demo demo_read 0] (req_ops (bop_set demo demo_read 0) 0 []) demo_srv = (keep, s') \<and>
     so_out (sv_sock s') = concat (map (answer ops1) reqs1) \<and> map bp_handle reqs1 = [rq_handle demo_read]"
proof -
  let ?reqs = "[bop_set demo demo_read 0]" and ?ops = "req_ops (bop_set demo demo_read 0) 0 []"
  obtain reqs1 ops1 w1 where r: "run_batch demo ?reqs ?ops (sv_world demo_srv) = (reqs1, ops1, w1)" by (metis prod_cases3)
  obtain keep s' where f: "flush_batch demo demo_cfg ?reqs ?ops demo_srv = (keep, s')" by fastforce
  have "healthy (sv_sock demo_srv)" by (simp add: healthy_def demo_srv_def demo_peer_def)
  from flush_batch_answers [OF this r f] r f show ?thesis
    by (auto simp: demo_srv_def demo_peer_def bop_set_def Let_def)
qed

text \<open>
  C3. A batch on the image, when the driver refuses no copy. Out-of-range requests are refused with EINVAL and
  all others succeed, but for writes that find no room and get ENOSPC; a READ returns the image as it
  was when the batch began; and the image afterwards is the old one with the successful writes
  applied one after the other, a later one over an earlier one, and nothing at all of a refused one.
\<close>

theorem batch_all_or_nothing:
  assumes "store_env en mem" "quiet en" "faultless en" "store_inv en mem X w" "batch_wf en reqs pl ops"
    and "run_batch en reqs ops w = (reqs', ops', w')"
  shows "store_inv en mem X w' \<and> length reqs' = length reqs \<and>
    (\<forall>i < length reqs. req_outcome en mem w ops' (reqs ! i) (reqs' ! i)) \<and>
    (\<forall>x < g_nblocks en * CBLK_SIZE. disk en mem w' x = batch_image reqs' pl (disk en mem w) x)"
  using single_worker.run_batch_alone [OF single_workerI [OF assms(1,2)] assms(1,3-6)] by blast

lemma demo_read_batch: "batch_wf demo [bop_set demo demo_read 0] (\<lambda>_. []) (req_ops (bop_set demo demo_read 0) 0 [])"
  using batch_wf_snoc [OF batch_wf_Nil, of demo "bop_set demo demo_read 0" "[]" "\<lambda>_. []"]
    bop_set_wf [of demo_read demo 0] by (simp add: demo_read_def batchable_def fun_upd_idem)

theorem batch_all_or_nothing_witness:
  "\<exists>reqs' ops' w'. run_batch demo [bop_set demo demo_read 0] (req_ops (bop_set demo demo_read 0) 0 []) demo_world = (reqs', ops', w') \<and>
     bp_error (reqs' ! 0) = 0 \<and> slot_bytes (reqs' ! 0) ops' = map (disk demo (\<lambda>m. m) demo_world) [0..<8192]"
proof -
  let ?reqs = "[bop_set demo demo_read 0]" and ?ops = "req_ops (bop_set demo demo_read 0) 0 []"
  obtain reqs' ops' w' where r: "run_batch demo ?reqs ?ops demo_world = (reqs', ops', w')" by (metis prod_cases3)
  have "req_outcome demo (\<lambda>m. m) demo_world ops' (bop_set demo demo_read 0) (reqs' ! 0)"
    using batch_all_or_nothing [OF demo_env(1-3) demo_world demo_read_batch r] by auto
  moreover have "\<not> oob demo 0 8192" by (simp add: oob_iff)
  ultimately show ?thesis using r by (auto simp: req_outcome_def bop_set_def demo_read_def Let_def)
qed

end
