(* ===== verification/Server_Requests.thy ===== *)
theory Server_Requests
  imports Server_Properties
begin

text \<open>
  The per-request path: a WRITE of any size and alignment received and stored window by
  window, a READ streamed back, TRIM, FLUSH and out-of-range requests, as seen by the client.
\<close>

section \<open>Streams of windows\<close>

text \<open>A payload that is not wanted is read to its end, so that the next request is found.\<close>

lemma write_stream_drains:
  assumes "error \<noteq> 0" "remaining \<le> length (pending (sv_sock s))"
  shows "\<exists>k. write_stream en voff remaining error s = (Some error, s\<lparr>sv_sock := k\<rparr>) \<and> rx_only (sv_sock s) k \<and>
    pending k = drop remaining (pending (sv_sock s))"
  using assms
proof (induction en voff remaining error s rule: write_stream.induct)
  case (1 en voff remaining error s)
  show ?case
  proof (cases "remaining = 0")
    case True
    then show ?thesis by (intro exI [of _ "sv_sock s"]) (simp add: write_stream.simps)
  next
    case False
    let ?c = "window voff remaining"
    have c: "0 < ?c" "?c \<le> remaining" using window_bounds [of remaining voff] False by auto
    obtain x k where r: "recv_all ?c (sv_sock s) = (x, k)" by fastforce
    obtain bs where rs: "x = Some bs" "pending k = drop ?c (pending (sv_sock s))" "rx_only (sv_sock s) k"
      using recv_all_spec [OF r] c(2) "1.prems"(2) by (auto split: if_splits)
    have ne: "note_err error 0 = error" by (simp add: note_err_def)
    have sr: "(0, sv_world s) = (if error = 0 then store_range en voff bs (sv_world s) else (0, sv_world s))"
      using "1.prems"(1) by simp
    let ?s = "s\<lparr>sv_sock := k, sv_world := sv_world s\<rparr>"
    have "\<exists>k'. write_stream en (u64 (voff + ?c)) (remaining - ?c) (note_err error 0) ?s = (Some (note_err error 0), ?s\<lparr>sv_sock := k'\<rparr>) \<and>
        rx_only (sv_sock ?s) k' \<and> pending k' = drop (remaining - ?c) (pending (sv_sock ?s))"
      by (rule "1.IH" [OF False r [symmetric] rs(1) sr]) (use "1.prems" rs(2) ne in auto)
    then obtain k' where k': "write_stream en (u64 (voff + ?c)) (remaining - ?c) error ?s = (Some error, ?s\<lparr>sv_sock := k'\<rparr>)"
        "rx_only k k'" "pending k' = drop (remaining - ?c) (pending k)" using ne by auto
    have "write_stream en voff remaining error s = (Some error, s\<lparr>sv_sock := k'\<rparr>)"
      using k'(1) False r rs(1) "1.prems"(1) ne by (subst write_stream.simps) simp
    then show ?thesis using k'(2,3) rs(2,3) c(2) rx_only_trans by (intro exI [of _ k']) auto
  qed
qed

text \<open>
  What a write to [off, off + length src) made of an image: outside the range nothing, inside it
  each byte is old or new, and all of them are new when it succeeded.
\<close>

definition written_over :: "nat \<Rightarrow> nat \<Rightarrow> byte list \<Rightarrow> nat \<Rightarrow> (nat \<Rightarrow> byte) \<Rightarrow> (nat \<Rightarrow> byte) \<Rightarrow> bool" where
  "written_over n off src e d d' \<longleftrightarrow> (\<forall>x < n.
     (off \<le> x \<and> x < off + length src \<and> d' x = src ! (x - off)) \<or> d' x = d x \<and> (off \<le> x \<and> x < off + length src \<longrightarrow> e \<noteq> 0))"

lemma written_over_append:
  assumes "written_over n off src e d d'" "written_over n (off + length src) src' e' d' d''" "e' = 0 \<longrightarrow> e = 0"
  shows "written_over n off (src @ src') e' d d''"
  unfolding written_over_def
proof (intro allI impI)
  fix x assume x: "x < n"
  let ?in = "off \<le> x \<and> x < off + length src" and ?in' = "off + length src \<le> x \<and> x < off + length src + length src'"
  from assms(1) x have one: "(?in \<and> d' x = src ! (x - off)) \<or> d' x = d x \<and> (?in \<longrightarrow> e \<noteq> 0)" unfolding written_over_def by blast
  from assms(2) x have two: "(?in' \<and> d'' x = src' ! (x - (off + length src))) \<or> d'' x = d' x \<and> (?in' \<longrightarrow> e' \<noteq> 0)"
    unfolding written_over_def by blast
  consider "?in'" | "\<not> ?in'" "?in" | "\<not> ?in'" "\<not> ?in" by blast
  then show "(off \<le> x \<and> x < off + length (src @ src') \<and> d'' x = (src @ src') ! (x - off)) \<or>
      d'' x = d x \<and> (off \<le> x \<and> x < off + length (src @ src') \<longrightarrow> e' \<noteq> 0)"
  proof cases
    case 1
    then have "\<not> x - off < length src" by linarith
    then have "(src @ src') ! (x - off) = src' ! (x - (off + length src))" by (simp add: nth_append)
    with 1 one two show ?thesis by auto
  next
    case 2
    then have "(src @ src') ! (x - off) = src ! (x - off)" by (auto simp: nth_append)
    with 2 one two assms(3) show ?thesis by auto
  next
    case 3
    with one two show ?thesis by auto
  qed
qed

lemma store_range_over:
  assumes "store_env en mem" "quiet en" "faultless en" "store_inv en mem X w" "src \<noteq> []" "off + length src \<le> g_nblocks en * CBLK_SIZE"
    and "store_range en off src w = (e, w')"
  shows "(e = 0 \<or> e = ENOSPC) \<and> store_inv en mem X w' \<and> written_over (g_nblocks en * CBLK_SIZE) off src e (disk en mem w) (disk en mem w')"
proof -
  note s = single_worker.store_range_single [OF single_workerI [OF assms(1,2)] assms(4-6) disk_bytes_64 [OF assms(1,6)] assms(7)]
  have "(off \<le> x \<and> x < off + length src \<and> disk en mem w' x = src ! (x - off)) \<or>
      disk en mem w' x = disk en mem w x \<and> (off \<le> x \<and> x < off + length src \<longrightarrow> e \<noteq> 0)" if x: "x < g_nblocks en * CBLK_SIZE" for x
  proof -
    have "page_at en mem w' (x div CBLK_SIZE) = patch off src (page_at en mem w) (x div CBLK_SIZE) \<or>
        page_at en mem w' (x div CBLK_SIZE) = page_at en mem w (x div CBLK_SIZE) \<and> e \<noteq> 0"
      using s block_lt [OF x] by blast
    then show ?thesis
    proof
      assume "page_at en mem w' (x div CBLK_SIZE) = patch off src (page_at en mem w) (x div CBLK_SIZE)"
      from page_disk [OF this] show ?thesis by auto
    qed (simp add: disk_def)
  qed
  then show ?thesis using s assms(3) by (auto simp: written_over_def)
qed

text \<open>One turn of the streaming loop, before any error.\<close>

lemma write_stream_turn:
  assumes env: "store_env en mem" "quiet en" "faultless en" and inv: "store_inv en mem X (sv_world s)"
    and fit: "voff + remaining \<le> g_nblocks en * CBLK_SIZE" "remaining \<le> length (pending (sv_sock s))" and r0: "remaining \<noteq> 0"
  obtains c e k w where "0 < c" "c \<le> remaining"
    "write_stream en voff remaining 0 s = write_stream en (voff + c) (remaining - c) e (s\<lparr>sv_sock := k, sv_world := w\<rparr>)"
    "rx_only (sv_sock s) k" "pending k = drop c (pending (sv_sock s))" "e = 0 \<or> e = ENOSPC" "store_inv en mem X w"
    "written_over (g_nblocks en * CBLK_SIZE) voff (take c (pending (sv_sock s))) e (disk en mem (sv_world s)) (disk en mem w)"
proof -
  let ?c = "window voff remaining" and ?p = "pending (sv_sock s)"
  have c: "0 < ?c" "?c \<le> remaining" using window_bounds [of remaining voff] r0 by auto
  obtain x k where r: "recv_all ?c (sv_sock s) = (x, k)" by fastforce
  have rs: "x = Some (take ?c ?p)" "pending k = drop ?c ?p" "rx_only (sv_sock s) k"
    using recv_all_spec [OF r] c(2) fit(2) by auto
  obtain e w where sr: "store_range en voff (take ?c ?p) (sv_world s) = (e, w)" by fastforce
  have "take ?c ?p \<noteq> []" "voff + length (take ?c ?p) \<le> g_nblocks en * CBLK_SIZE" using c fit by auto
  note o = store_range_over [OF env inv this sr]
  have "voff + ?c < 2 ^ 64" using disk_bytes_64 [OF env(1), of "voff + ?c"] fit(1) c(2) by simp
  then have u: "u64 (voff + ?c) = voff + ?c" by (rule u64_small)
  have "note_err 0 e = e" by (simp add: note_err_def)
  then have "write_stream en voff remaining 0 s = write_stream en (voff + ?c) (remaining - ?c) e (s\<lparr>sv_sock := k, sv_world := w\<rparr>)"
    using r0 r rs(1) sr u by (subst write_stream.simps) simp
  with c rs o show thesis using that by blast
qed

lemma write_stream_single:
  assumes env: "store_env en mem" "quiet en" "faultless en"
    and "store_inv en mem X (sv_world s)" "voff + remaining \<le> g_nblocks en * CBLK_SIZE" "remaining \<le> length (pending (sv_sock s))"
  shows "\<exists>e k w. write_stream en voff remaining 0 s = (Some e, s\<lparr>sv_sock := k, sv_world := w\<rparr>) \<and> (e = 0 \<or> e = ENOSPC) \<and>
    rx_only (sv_sock s) k \<and> pending k = drop remaining (pending (sv_sock s)) \<and> store_inv en mem X w \<and>
    written_over (g_nblocks en * CBLK_SIZE) voff (take remaining (pending (sv_sock s))) e (disk en mem (sv_world s)) (disk en mem w)"
  using assms(4-)
proof (induction remaining arbitrary: voff s rule: less_induct)
  case (less remaining)
  show ?case
  proof (cases "remaining = 0")
    case True
    then show ?thesis using less.prems
      by (intro exI [of _ 0] exI [of _ "sv_sock s"] exI [of _ "sv_world s"]) (simp add: write_stream.simps written_over_def)
  next
    case False
    let ?p = "pending (sv_sock s)" and ?n = "g_nblocks en * CBLK_SIZE"
    obtain c e k w where c: "0 < c" "c \<le> remaining"
      and step: "write_stream en voff remaining 0 s = write_stream en (voff + c) (remaining - c) e (s\<lparr>sv_sock := k, sv_world := w\<rparr>)"
      and rs: "rx_only (sv_sock s) k" "pending k = drop c ?p" and o: "e = 0 \<or> e = ENOSPC" "store_inv en mem X w"
        "written_over ?n voff (take c ?p) e (disk en mem (sv_world s)) (disk en mem w)"
      by (rule write_stream_turn [OF env less.prems False])
    let ?s = "s\<lparr>sv_sock := k, sv_world := w\<rparr>"
    have lc: "length (take c ?p) = c" using c less.prems(3) by simp
    have split: "take c ?p @ take (remaining - c) (drop c ?p) = take remaining ?p" using c(2) by (metis le_add_diff_inverse take_add)
    have enough: "remaining - c \<le> length (pending (sv_sock ?s))" using rs(2) less.prems(3) by simp
    have whole: "written_over ?n voff (take remaining ?p) e' (disk en mem (sv_world s)) d"
      if "written_over ?n (voff + c) (take (remaining - c) (drop c ?p)) e' (disk en mem w) d" "e' = 0 \<longrightarrow> e = 0" for e' d
      using written_over_append [OF o(3), unfolded lc, OF that] split by simp
    show ?thesis
    proof (cases "e = 0")
      case True
      have "\<exists>e' k' w'. write_stream en (voff + c) (remaining - c) 0 ?s = (Some e', ?s\<lparr>sv_sock := k', sv_world := w'\<rparr>) \<and> (e' = 0 \<or> e' = ENOSPC) \<and>
          rx_only (sv_sock ?s) k' \<and> pending k' = drop (remaining - c) (pending (sv_sock ?s)) \<and> store_inv en mem X w' \<and>
          written_over ?n (voff + c) (take (remaining - c) (pending (sv_sock ?s))) e' (disk en mem (sv_world ?s)) (disk en mem w')"
        by (rule less.IH) (use c o enough less.prems in auto)
      then obtain e' k' w' where f: "write_stream en (voff + c) (remaining - c) 0 ?s = (Some e', s\<lparr>sv_sock := k', sv_world := w'\<rparr>)"
          "e' = 0 \<or> e' = ENOSPC" "rx_only k k'" "pending k' = drop (remaining - c) (pending k)" "store_inv en mem X w'"
          "written_over ?n (voff + c) (take (remaining - c) (drop c ?p)) e' (disk en mem w) (disk en mem w')" using rs(2) by auto
      then show ?thesis using step True rs c(2) rx_only_trans [OF rs(1) f(3)] whole [OF f(6)]
        by (intro exI [of _ e'] exI [of _ k'] exI [of _ w']) simp
    next
      case False
      from write_stream_drains [OF False enough, of en "voff + c"] obtain k' where
        k': "write_stream en (voff + c) (remaining - c) e ?s = (Some e, ?s\<lparr>sv_sock := k'\<rparr>)" "rx_only k k'"
          "pending k' = drop (remaining - c) (pending k)" by auto
      moreover have "written_over ?n voff (take remaining ?p) e (disk en mem (sv_world s)) (disk en mem w)"
        by (rule whole) (use False in \<open>simp_all add: written_over_def\<close>)
      ultimately show ?thesis using step rs o c(2) rx_only_trans [OF rs(1) k'(2)]
        by (intro exI [of _ e] exI [of _ k'] exI [of _ w]) simp
    qed
  qed
qed

lemma read_stream_single:
  assumes env: "store_env en mem" "quiet en" "faultless en"
    and "store_inv en mem X (sv_world s)" "voff + remaining \<le> g_nblocks en * CBLK_SIZE" "healthy (sv_sock s)"
  shows "\<exists>k w. read_stream en voff remaining s = (True, s\<lparr>sv_sock := k, sv_world := w\<rparr>) \<and> healthy k \<and> so_in k = so_in (sv_sock s) \<and>
    so_out k = so_out (sv_sock s) @ map (disk en mem (sv_world s)) [voff..<voff + remaining] \<and>
    store_inv en mem X w \<and> (\<forall>x < g_nblocks en * CBLK_SIZE. disk en mem w x = disk en mem (sv_world s) x)"
  using assms(4-)
proof (induction remaining arbitrary: voff s rule: less_induct)
  case (less remaining)
  show ?case
  proof (cases "remaining = 0")
    case True
    then show ?thesis using less.prems
      by (intro exI [of _ "sv_sock s"] exI [of _ "sv_world s"]) (simp add: read_stream.simps)
  next
    case False
    let ?c = "window voff remaining" and ?n = "g_nblocks en * CBLK_SIZE" and ?d = "disk en mem (sv_world s)"
    have c: "0 < ?c" "?c \<le> remaining" using window_bounds [of remaining voff] False by auto
    obtain e bs w where l: "load_range en voff ?c (sv_world s) = (e, bs, w)" by (metis prod_cases3)
    have in_c: "voff + ?c \<le> ?n" using less.prems(2) c(2) by simp
    have "e = 0 \<and> bs = map ?d [voff..<voff + ?c]" "store_inv en mem X w" "\<forall>b < g_nblocks en. page_at en mem w b = page_at en mem (sv_world s) b"
      using single_worker.load_range_single [OF single_workerI [OF env(1,2)] less.prems(1) in_c disk_bytes_64 [OF env(1) in_c] l] env(3) by auto
    then have w: "e = 0" "bs = map ?d [voff..<voff + ?c]" "store_inv en mem X w" "\<forall>x < ?n. disk en mem w x = ?d x"
      using block_lt by (auto simp: disk_def)
    obtain k where k: "send_all bs (sv_sock s) = (True, k)" "so_out k = so_out (sv_sock s) @ bs" "so_in k = so_in (sv_sock s)" "healthy k"
      by (rule send_all_healthy_eq [OF less.prems(3)])
    have u: "u64 (voff + ?c) = voff + ?c" by (rule u64_small [OF disk_bytes_64 [OF env(1) in_c]])
    let ?s = "s\<lparr>sv_world := w, sv_sock := k\<rparr>"
    have step: "read_stream en voff remaining s = read_stream en (voff + ?c) (remaining - ?c) ?s"
      using False l w(1) k(1) u by (subst read_stream.simps) simp
    have "\<exists>k' w'. read_stream en (voff + ?c) (remaining - ?c) ?s = (True, ?s\<lparr>sv_sock := k', sv_world := w'\<rparr>) \<and> healthy k' \<and> so_in k' = so_in (sv_sock ?s) \<and>
        so_out k' = so_out (sv_sock ?s) @ map (disk en mem (sv_world ?s)) [voff + ?c..<voff + ?c + (remaining - ?c)] \<and>
        store_inv en mem X w' \<and> (\<forall>x < ?n. disk en mem w' x = disk en mem (sv_world ?s) x)"
      by (rule less.IH) (use c w(3) k(4) less.prems(2) in auto)
    then obtain k' w' where f: "read_stream en (voff + ?c) (remaining - ?c) ?s = (True, ?s\<lparr>sv_sock := k', sv_world := w'\<rparr>)" "healthy k'"
        "so_in k' = so_in k" "so_out k' = so_out k @ map (disk en mem w) [voff + ?c..<voff + ?c + (remaining - ?c)]"
        "store_inv en mem X w'" "\<forall>x < ?n. disk en mem w' x = disk en mem w x" by auto
    have m: "map (disk en mem w) [voff + ?c..<voff + remaining] = map ?d [voff + ?c..<voff + remaining]"
      using w(4) less.prems(2) by auto
    have up: "[voff..<voff + ?c] @ [voff + ?c..<voff + remaining] = [voff..<voff + remaining]"
      using c(2) upt_add_eq_append [of voff "voff + ?c" "remaining - ?c"] by simp
    have "voff + ?c + (remaining - ?c) = voff + remaining" using c(2) by simp
    then have "so_out k' = so_out (sv_sock s) @ map ?d [voff..<voff + remaining]"
      using f(4) unfolding k(2) w(2) by (simp only: m append.assoc map_append [symmetric] up)
    moreover have "?s\<lparr>sv_sock := k', sv_world := w'\<rparr> = s\<lparr>sv_sock := k', sv_world := w'\<rparr>" by simp
    ultimately show ?thesis using step f w(4) k(3) by (intro exI [of _ k'] exI [of _ w']) auto
  qed
qed

context single_worker
begin

lemma sync_single:
  assumes "store_inv en mem X w"
  shows "store_inv en mem X (sync en None w) \<and> (\<forall>b < g_nblocks en. page_at en mem (sync en None w) b = page_at en mem w b)"
proof -
  have "ok (\<lambda>b. {page_at en mem w b}) [] w" using assms st_ok_pages by (simp add: store_inv_def)
  then have ok': "ok (\<lambda>b. {page_at en mem w b}) [] (sync en None w)" using alone.sync_ok(1) stab_any by blast
  then show ?thesis using st_ok_top st_ok_page_at(1) [OF ok'] by (auto simp: store_inv_def)
qed

end

section \<open>Properties of the per-request path\<close>

text \<open>The device ends on a block boundary, as main arranges.\<close>

definition whole_blocks :: "'d env \<Rightarrow> bool" where
  "whole_blocks en \<longleftrightarrow> g_disk_size en mod CBLK_SIZE = 0"

lemma whole_blocks_oob:
  assumes "store_env en mem" "whole_blocks en"
  shows "oob en offset len \<longleftrightarrow> \<not> offset + len \<le> g_nblocks en * CBLK_SIZE"
proof -
  have "g_nblocks en * CBLK_SIZE = g_disk_size en" using assms(2) by (auto simp: g_nblocks_def whole_blocks_def)
  then show ?thesis using store_env_oob [OF assms(1)] by (simp add: not_le)
qed

lemma count_legacy_fields [simp]:
  "sv_sock (count_legacy cf cmd s) = sv_sock s" "sv_world (count_legacy cf cmd s) = sv_world s"
  by (simp_all add: count_legacy_def)

lemma one_write:
  assumes "store_env en mem" "quiet en" "faultless en" "whole_blocks en" "store_inv en mem X (sv_world s)" "healthy (sv_sock s)"
    and "rq_type h = NBD_CMD_WRITE" "rq_len h \<le> length (pending (sv_sock s))"
  shows "\<exists>e s'. handle_one en cf h s = (True, s') \<and> pending (sv_sock s') = drop (rq_len h) (pending (sv_sock s)) \<and>
    so_out (sv_sock s') = so_out (sv_sock s) @ resp_hdr e (rq_handle h) \<and> store_inv en mem X (sv_world s') \<and>
    (if oob en (rq_from h) (rq_len h) then e = EINVAL \<and> sv_world s' = sv_world s
     else (e = 0 \<or> e = ENOSPC) \<and> written_over (g_nblocks en * CBLK_SIZE) (rq_from h) (take (rq_len h) (pending (sv_sock s))) e
       (disk en mem (sv_world s)) (disk en mem (sv_world s')))"
proof -
  let ?s = "count_legacy cf (rq_type h) s"
  have applied: "\<exists>e k w. one_apply en h ?s = (Some e, ?s\<lparr>sv_sock := k, sv_world := w\<rparr>) \<and> rx_only (sv_sock s) k \<and> e \<noteq> EIO \<and>
      pending k = drop (rq_len h) (pending (sv_sock s)) \<and> store_inv en mem X w \<and>
      (if oob en (rq_from h) (rq_len h) then e = EINVAL \<and> w = sv_world s
       else (e = 0 \<or> e = ENOSPC) \<and> written_over (g_nblocks en * CBLK_SIZE) (rq_from h) (take (rq_len h) (pending (sv_sock s))) e
         (disk en mem (sv_world s)) (disk en mem w))"
  proof (cases "oob en (rq_from h) (rq_len h)")
    case True
    obtain k where k: "write_stream en (rq_from h) (rq_len h) EINVAL ?s = (Some EINVAL, ?s\<lparr>sv_sock := k\<rparr>)" "rx_only (sv_sock s) k"
        "pending k = drop (rq_len h) (pending (sv_sock s))"
      using write_stream_drains [of EINVAL "rq_len h" ?s en "rq_from h"] assms(8) by auto
    have "?s\<lparr>sv_sock := k\<rparr> = ?s\<lparr>sv_sock := k, sv_world := sv_world s\<rparr>" by simp
    with k True assms(5,7) show ?thesis
      by (intro exI [of _ EINVAL] exI [of _ k] exI [of _ "sv_world s"]) (simp add: one_apply_def Let_def)
  next
    case False
    then have "rq_from h + rq_len h \<le> g_nblocks en * CBLK_SIZE" using whole_blocks_oob [OF assms(1,4)] by simp
    from write_stream_single [OF assms(1-3), of X ?s, OF _ this] assms(5,8) obtain e k w where
      f: "write_stream en (rq_from h) (rq_len h) 0 ?s = (Some e, ?s\<lparr>sv_sock := k, sv_world := w\<rparr>)" "e = 0 \<or> e = ENOSPC"
        "rx_only (sv_sock s) k" "pending k = drop (rq_len h) (pending (sv_sock s))" "store_inv en mem X w"
        "written_over (g_nblocks en * CBLK_SIZE) (rq_from h) (take (rq_len h) (pending (sv_sock s))) e (disk en mem (sv_world s)) (disk en mem w)"
      by auto
    then show ?thesis using False assms(7)
      by (intro exI [of _ e] exI [of _ k] exI [of _ w]) (auto simp: one_apply_def Let_def)
  qed
  from applied obtain e k w where a: "one_apply en h ?s = (Some e, ?s\<lparr>sv_sock := k, sv_world := w\<rparr>)" "rx_only (sv_sock s) k" "e \<noteq> EIO"
      "pending k = drop (rq_len h) (pending (sv_sock s))" "store_inv en mem X w"
      "if oob en (rq_from h) (rq_len h) then e = EINVAL \<and> w = sv_world s
       else (e = 0 \<or> e = ENOSPC) \<and> written_over (g_nblocks en * CBLK_SIZE) (rq_from h) (take (rq_len h) (pending (sv_sock s))) e
         (disk en mem (sv_world s)) (disk en mem w)" by blast
  have "healthy k" using rx_only_healthy [OF a(2)] assms(6) by simp
  then obtain k' where k': "send_all (resp_hdr e (rq_handle h)) k = (True, k')" "so_out k' = so_out k @ resp_hdr e (rq_handle h)" "so_in k' = so_in k"
    by (rule send_all_healthy_eq)
  have "handle_one en cf h s = (True, ?s\<lparr>sv_sock := k', sv_world := w\<rparr>)"
    using a(1,3) k'(1) assms(7) by (simp add: handle_one_def Let_def)
  with a(2,4-6) k'(2,3) show ?thesis
    by (intro exI [of _ e] exI [of _ "?s\<lparr>sv_sock := k', sv_world := w\<rparr>"]) (auto simp: rx_only_def split: if_splits)
qed

text \<open>
  C16. A WRITE of any size and alignment on the per-request path, its payload cut into segments in any way.
  The payload is consumed to its last byte and one reply with the request's handle goes out; an
  out-of-range request gets EINVAL and leaves the store as it is; otherwise the error is 0 and the
  range holds the payload, or ENOSPC and each byte of it is old or new; no other byte changes.
\<close>

theorem handle_one_write:
  assumes "store_env en mem" "quiet en" "faultless en" "whole_blocks en" "store_inv en mem X (sv_world s)" "healthy (sv_sock s)"
    and "rq_type h = NBD_CMD_WRITE" "rq_len h \<le> length (pending (sv_sock s))"
  shows "\<exists>e s'. handle_one en cf h s = (True, s') \<and> pending (sv_sock s') = drop (rq_len h) (pending (sv_sock s)) \<and>
    so_out (sv_sock s') = so_out (sv_sock s) @ resp_hdr e (rq_handle h) \<and> store_inv en mem X (sv_world s') \<and>
    (if oob en (rq_from h) (rq_len h) then e = EINVAL \<and> sv_world s' = sv_world s
     else (e = 0 \<or> e = ENOSPC) \<and> written_over (g_nblocks en * CBLK_SIZE) (rq_from h) (take (rq_len h) (pending (sv_sock s))) e
       (disk en mem (sv_world s)) (disk en mem (sv_world s')))"
  by (rule one_write [OF assms])

definition demo_req :: "nat \<Rightarrow> nat \<Rightarrow> nat \<Rightarrow> nbd_req" where
  "demo_req cmd from len = \<lparr>rq_magic = NBD_REQUEST_MAGIC, rq_flags = 0, rq_type = cmd, rq_handle = [0, 0, 0, 0, 0, 0, 0, 1], rq_from = from, rq_len = len\<rparr>"

definition demo_conn :: "byte list \<Rightarrow> (nat \<Rightarrow> byte) srv" where
  "demo_conn bs = demo_srv\<lparr>sv_sock := \<lparr>so_in = [Bytes bs, Pause], so_send = [1, 3], so_out = []\<rparr>\<rparr>"

lemma demo_conn [simp]:
  "sv_world (demo_conn bs) = demo_world" "pending (sv_sock (demo_conn bs)) = bs" "so_out (sv_sock (demo_conn bs)) = []" "healthy (sv_sock (demo_conn bs))"
  by (simp_all add: demo_conn_def demo_srv_def healthy_def)

lemma demo_whole: "whole_blocks demo"
  by (simp add: whole_blocks_def)

theorem handle_one_write_witness:
  "\<exists>s'. handle_one demo demo_cfg (demo_req NBD_CMD_WRITE 9000 3) (demo_conn [1, 2, 3, 4]) = (True, s') \<and> pending (sv_sock s') = [4] \<and>
     so_out (sv_sock s') = resp_hdr EINVAL [0, 0, 0, 0, 0, 0, 0, 1] \<and> sv_world s' = demo_world"
proof -
  let ?h = "demo_req NBD_CMD_WRITE 9000 3"
  have f: "rq_type ?h = NBD_CMD_WRITE" "rq_len ?h = 3" "rq_from ?h = 9000" "rq_handle ?h = [0, 0, 0, 0, 0, 0, 0, 1]" by (simp_all add: demo_req_def)
  have o: "oob demo 9000 3" by (simp add: oob_iff)
  have i: "store_inv demo (\<lambda>m. m) {} (sv_world (demo_conn [1, 2, 3, 4]))" by (simp add: demo_world)
  from handle_one_write [OF demo_env(1-3) demo_whole i _ f(1), of demo_cfg] f o show ?thesis by auto
qed

lemma one_read:
  assumes "store_env en mem" "quiet en" "faultless en" "whole_blocks en" "store_inv en mem X (sv_world s)" "healthy (sv_sock s)"
    and "rq_type h = NBD_CMD_READ"
  shows "\<exists>s'. handle_one en cf h s = (True, s') \<and> pending (sv_sock s') = pending (sv_sock s) \<and> store_inv en mem X (sv_world s') \<and>
    (\<forall>x < g_nblocks en * CBLK_SIZE. disk en mem (sv_world s') x = disk en mem (sv_world s) x) \<and>
    so_out (sv_sock s') = so_out (sv_sock s) @
      (if oob en (rq_from h) (rq_len h) then resp_hdr EINVAL (rq_handle h)
       else resp_hdr 0 (rq_handle h) @ map (disk en mem (sv_world s)) [rq_from h..<rq_from h + rq_len h])"
proof -
  let ?s = "count_legacy cf (rq_type h) s" and ?e = "if oob en (rq_from h) (rq_len h) then EINVAL else 0"
  have a: "one_apply en h ?s = (Some ?e, ?s)" using assms(7) by (simp add: one_apply_def Let_def)
  obtain k where k: "send_all (resp_hdr ?e (rq_handle h)) (sv_sock s) = (True, k)" "so_out k = so_out (sv_sock s) @ resp_hdr ?e (rq_handle h)"
      "so_in k = so_in (sv_sock s)" "healthy k" by (rule send_all_healthy_eq [OF assms(6)])
  let ?s2 = "?s\<lparr>sv_sock := k\<rparr>"
  show ?thesis
  proof (cases "oob en (rq_from h) (rq_len h)")
    case True
    then have "handle_one en cf h s = (True, ?s2)" using a k(1) by (simp add: handle_one_def Let_def)
    then show ?thesis using True k assms(5) by (intro exI [of _ ?s2]) simp
  next
    case False
    then have "rq_from h + rq_len h \<le> g_nblocks en * CBLK_SIZE" using whole_blocks_oob [OF assms(1,4)] by simp
    from read_stream_single [OF assms(1-3), of X ?s2, OF _ this] assms(5) k(4) obtain k' w where
      f: "read_stream en (rq_from h) (rq_len h) ?s2 = (True, ?s2\<lparr>sv_sock := k', sv_world := w\<rparr>)" "so_in k' = so_in k"
        "so_out k' = so_out k @ map (disk en mem (sv_world s)) [rq_from h..<rq_from h + rq_len h]" "store_inv en mem X w"
        "\<forall>x < g_nblocks en * CBLK_SIZE. disk en mem w x = disk en mem (sv_world s) x" by auto
    have "handle_one en cf h s = read_stream en (rq_from h) (rq_len h) ?s2"
      using False a k(1) assms(7) by (simp add: handle_one_def Let_def)
    then show ?thesis using f k False by (intro exI [of _ "?s2\<lparr>sv_sock := k', sv_world := w\<rparr>"]) simp
  qed
qed

text \<open>
  C17. A READ of any size and alignment on the per-request path. An in-range one is answered with success and then
  exactly the bytes of the image, an out-of-range one with EINVAL and no data; neither changes the image
  or consumes input.
\<close>

theorem handle_one_read:
  assumes "store_env en mem" "quiet en" "faultless en" "whole_blocks en" "store_inv en mem X (sv_world s)" "healthy (sv_sock s)"
    and "rq_type h = NBD_CMD_READ"
  shows "\<exists>s'. handle_one en cf h s = (True, s') \<and> pending (sv_sock s') = pending (sv_sock s) \<and> store_inv en mem X (sv_world s') \<and>
    (\<forall>x < g_nblocks en * CBLK_SIZE. disk en mem (sv_world s') x = disk en mem (sv_world s) x) \<and>
    so_out (sv_sock s') = so_out (sv_sock s) @
      (if oob en (rq_from h) (rq_len h) then resp_hdr EINVAL (rq_handle h)
       else resp_hdr 0 (rq_handle h) @ map (disk en mem (sv_world s)) [rq_from h..<rq_from h + rq_len h])"
  by (rule one_read [OF assms])

theorem handle_one_read_witness:
  "\<exists>s'. handle_one demo demo_cfg (demo_req NBD_CMD_READ 4090 10) (demo_conn []) = (True, s') \<and>
     so_out (sv_sock s') = resp_hdr 0 [0, 0, 0, 0, 0, 0, 0, 1] @ map (disk demo (\<lambda>m. m) demo_world) [4090..<4100]"
proof -
  let ?h = "demo_req NBD_CMD_READ 4090 10"
  have f: "rq_type ?h = NBD_CMD_READ" "rq_len ?h = 10" "rq_from ?h = 4090" "rq_handle ?h = [0, 0, 0, 0, 0, 0, 0, 1]" by (simp_all add: demo_req_def)
  have o: "\<not> oob demo 4090 10" by (simp add: oob_iff)
  have i: "store_inv demo (\<lambda>m. m) {} (sv_world (demo_conn []))" by (simp add: demo_world)
  from handle_one_read [OF demo_env(1-3) demo_whole i demo_conn(4) f(1), of demo_cfg]
  obtain s' where "handle_one demo demo_cfg ?h (demo_conn []) = (True, s')"
    "so_out (sv_sock s') = resp_hdr 0 [0, 0, 0, 0, 0, 0, 0, 1] @ map (disk demo (\<lambda>m. m) demo_world) [4090..<4090 + 10]"
    using f o by auto
  then show ?thesis by simp
qed

lemma one_no_data:
  assumes "store_env en mem" "quiet en" "whole_blocks en" "store_inv en mem X (sv_world s)" "healthy (sv_sock s)"
    and "rq_type h \<noteq> NBD_CMD_READ" "rq_type h \<noteq> NBD_CMD_WRITE" "g_disk_size en + CBLK_SIZE \<le> 2 ^ 64"
  shows "\<exists>s'. handle_one en cf h s = (True, s') \<and> so_in (sv_sock s') = so_in (sv_sock s) \<and> store_inv en mem X (sv_world s') \<and>
    so_out (sv_sock s') = so_out (sv_sock s) @
      resp_hdr (if rq_type h = NBD_CMD_TRIM \<and> oob en (rq_from h) (rq_len h) then EINVAL else 0) (rq_handle h) \<and>
    (\<forall>x < g_nblocks en * CBLK_SIZE. disk en mem (sv_world s') x =
       (if rq_type h = NBD_CMD_TRIM \<and> \<not> oob en (rq_from h) (rq_len h) \<and> rq_from h \<le> x div CBLK_SIZE * CBLK_SIZE \<and>
           (x div CBLK_SIZE + 1) * CBLK_SIZE \<le> rq_from h + rq_len h
        then 0 else disk en mem (sv_world s) x))"
proof -
  note sw = single_workerI [OF assms(1,2)]
  let ?s = "count_legacy cf (rq_type h) s" and ?w = "sv_world s" and ?oob = "oob en (rq_from h) (rq_len h)"
  let ?e = "if rq_type h = NBD_CMD_TRIM \<and> ?oob then EINVAL else 0"
  define w where "w = (if rq_type h = NBD_CMD_FLUSH then sync en None ?w
    else if rq_type h = NBD_CMD_TRIM \<and> \<not> ?oob then trim_range en (rq_from h) (rq_len h) ?w else ?w)"
  have a: "one_apply en h ?s = (Some ?e, ?s\<lparr>sv_world := w\<rparr>)"
    using assms(6,7) by (auto simp: one_apply_def w_def Let_def)
  obtain k where k: "send_all (resp_hdr ?e (rq_handle h)) (sv_sock s) = (True, k)" "so_out k = so_out (sv_sock s) @ resp_hdr ?e (rq_handle h)"
      "so_in k = so_in (sv_sock s)" by (rule send_all_healthy_eq [OF assms(5)])
  have h: "handle_one en cf h s = (True, ?s\<lparr>sv_world := w, sv_sock := k\<rparr>)"
    using a k(1) assms(6) by (simp add: handle_one_def Let_def)
  note sync = single_worker.sync_single [OF sw assms(4)]
  have trim: "store_inv en mem X (trim_range en (rq_from h) (rq_len h) ?w) \<and> (\<forall>b < g_nblocks en. page_at en mem (trim_range en (rq_from h) (rq_len h) ?w) b =
       (if rq_from h \<le> b * CBLK_SIZE \<and> (b + 1) * CBLK_SIZE \<le> rq_from h + rq_len h then zero_page else page_at en mem ?w b))" if "\<not> ?oob"
  proof -
    have i: "rq_from h + rq_len h \<le> g_nblocks en * CBLK_SIZE" using that whole_blocks_oob [OF assms(1,3)] by simp
    have j: "rq_from h + rq_len h \<le> g_disk_size en" using that store_env_oob [OF assms(1)] by (simp add: not_less)
    show ?thesis by (rule single_worker.trim_range_single [OF sw assms(4) i]) (use j assms(8) in simp)
  qed
  have inv: "store_inv en mem X w" using sync trim assms(4) by (simp add: w_def)
  have img: "disk en mem w x = (if rq_type h = NBD_CMD_TRIM \<and> \<not> ?oob \<and> rq_from h \<le> x div CBLK_SIZE * CBLK_SIZE \<and>
      (x div CBLK_SIZE + 1) * CBLK_SIZE \<le> rq_from h + rq_len h then 0 else disk en mem ?w x)" if x: "x < g_nblocks en * CBLK_SIZE" for x
    using sync trim block_lt [OF x] by (auto simp: w_def disk_def zero_page_def)
  show ?thesis using h k(2,3) inv img by (intro exI [of _ "?s\<lparr>sv_world := w, sv_sock := k\<rparr>"]) simp
qed

text \<open>
  C24. Commands without data. TRIM inside the device zeroes the blocks wholly in its range, an out-of-range
  one is refused with EINVAL; FLUSH and every command the server does not know are answered with
  success and change no byte, so an unknown command is not reported to the client.
\<close>

theorem handle_one_no_data:
  assumes "store_env en mem" "quiet en" "whole_blocks en" "store_inv en mem X (sv_world s)" "healthy (sv_sock s)"
    and "rq_type h \<noteq> NBD_CMD_READ" "rq_type h \<noteq> NBD_CMD_WRITE" "g_disk_size en + CBLK_SIZE \<le> 2 ^ 64"
  shows "\<exists>s'. handle_one en cf h s = (True, s') \<and> so_in (sv_sock s') = so_in (sv_sock s) \<and> store_inv en mem X (sv_world s') \<and>
    so_out (sv_sock s') = so_out (sv_sock s) @
      resp_hdr (if rq_type h = NBD_CMD_TRIM \<and> oob en (rq_from h) (rq_len h) then EINVAL else 0) (rq_handle h) \<and>
    (\<forall>x < g_nblocks en * CBLK_SIZE. disk en mem (sv_world s') x =
       (if rq_type h = NBD_CMD_TRIM \<and> \<not> oob en (rq_from h) (rq_len h) \<and> rq_from h \<le> x div CBLK_SIZE * CBLK_SIZE \<and>
           (x div CBLK_SIZE + 1) * CBLK_SIZE \<le> rq_from h + rq_len h
        then 0 else disk en mem (sv_world s) x))"
  by (rule one_no_data [OF assms])

theorem handle_one_no_data_witness:
  "\<exists>s'. handle_one demo demo_cfg (demo_req 6 0 4096) (demo_conn []) = (True, s') \<and>
     so_out (sv_sock s') = resp_hdr 0 [0, 0, 0, 0, 0, 0, 0, 1] \<and> disk demo (\<lambda>m. m) (sv_world s') 17 = disk demo (\<lambda>m. m) demo_world 17"
proof -
  let ?h = "demo_req 6 0 4096"
  have f: "rq_type ?h = 6" "rq_len ?h = 4096" "rq_from ?h = 0" "rq_handle ?h = [0, 0, 0, 0, 0, 0, 0, 1]" by (simp_all add: demo_req_def)
  have c: "6 \<noteq> NBD_CMD_READ" "6 \<noteq> NBD_CMD_WRITE" "6 \<noteq> NBD_CMD_TRIM" by (simp_all add: NBD_CMD_READ_def NBD_CMD_WRITE_def NBD_CMD_TRIM_def)
  have i: "store_inv demo (\<lambda>m. m) {} (sv_world (demo_conn []))" by (simp add: demo_world)
  from handle_one_no_data [OF demo_env(1,2) demo_whole i demo_conn(4), of ?h demo_cfg] f c show ?thesis by auto
qed

end
