(* ===== verification/Session.thy ===== *)
theory Session
  imports Server_Requests
begin

text \<open>
  A whole connection. The abstract server works on the bytes of the device: it takes the
  client's requests in groups, answers each of them once and in order, lets the reads of a group
  see the device as it was when the group began and applies the writes of the group one
  after the other. @serve@ refines it for every way the client's bytes may be cut into
  segments; with batching off every group has one request, so the server is sequential.
\<close>

section \<open>The abstract server\<close>

text \<open>A request with its payload, and its bytes on the wire.\<close>

type_synonym creq = "nbd_req \<times> byte list"

definition creq_ok :: "creq \<Rightarrow> bool" where
  "creq_ok c \<longleftrightarrow> req_ok (fst c) \<and> rq_magic (fst c) = NBD_REQUEST_MAGIC \<and> rq_type (fst c) \<noteq> NBD_CMD_DISC \<and>
     length (snd c) = (if rq_type (fst c) = NBD_CMD_WRITE then rq_len (fst c) else 0)"

definition on_wire :: "creq \<Rightarrow> byte list" where
  "on_wire c = encode_req (fst c) @ snd c"

text \<open>
  The answer to one request on a device of @n@ bytes: @D0@ is the image its reads see, @D@ and
  @D'@ the image before and after it.
\<close>

definition effect :: "nat \<Rightarrow> creq \<Rightarrow> nat \<Rightarrow> (nat \<Rightarrow> byte) \<Rightarrow> (nat \<Rightarrow> byte) \<Rightarrow> bool" where
  "effect n c e D D' \<longleftrightarrow>
     (if rq_type (fst c) \<in> {NBD_CMD_READ, NBD_CMD_WRITE, NBD_CMD_TRIM} \<and> n < rq_from (fst c) + rq_len (fst c)
      then e = EINVAL \<and> (\<forall>x < n. D' x = D x)
      else if rq_type (fst c) = NBD_CMD_WRITE
      then (e = 0 \<or> e = ENOSPC) \<and> written_over n (rq_from (fst c)) (snd c) e D D'
      else if rq_type (fst c) = NBD_CMD_TRIM
      then e = 0 \<and> (\<forall>x < n. D' x = (if rq_from (fst c) \<le> x div CBLK_SIZE * CBLK_SIZE \<and>
             (x div CBLK_SIZE + 1) * CBLK_SIZE \<le> rq_from (fst c) + rq_len (fst c) then 0 else D x))
      else e = 0 \<and> (\<forall>x < n. D' x = D x))"

definition answers :: "nat \<Rightarrow> (nat \<Rightarrow> byte) \<Rightarrow> (nat \<Rightarrow> byte) \<Rightarrow> creq \<Rightarrow> byte list \<Rightarrow> (nat \<Rightarrow> byte) \<Rightarrow> bool" where
  "answers n D0 D c out D' \<longleftrightarrow> (\<exists>e. effect n c e D D' \<and>
     out = resp_hdr e (rq_handle (fst c)) @
       (if rq_type (fst c) = NBD_CMD_READ \<and> e = 0 then map D0 [rq_from (fst c)..<rq_from (fst c) + rq_len (fst c)] else []))"

inductive grouped :: "nat \<Rightarrow> (nat \<Rightarrow> byte) \<Rightarrow> (nat \<Rightarrow> byte) \<Rightarrow> creq list \<Rightarrow> byte list \<Rightarrow> (nat \<Rightarrow> byte) \<Rightarrow> bool" for n D0 where
  group_Nil: "\<forall>x < n. D' x = D x \<Longrightarrow> grouped n D0 D [] [] D'"
| group_Cons: "answers n D0 D c out D1 \<Longrightarrow> grouped n D0 D1 cs outs D' \<Longrightarrow> grouped n D0 D (c # cs) (out @ outs) D'"

text \<open>At most @m@ requests to a group.\<close>

inductive session :: "nat \<Rightarrow> nat \<Rightarrow> (nat \<Rightarrow> byte) \<Rightarrow> creq list \<Rightarrow> byte list \<Rightarrow> (nat \<Rightarrow> byte) \<Rightarrow> bool" for n m where
  session_Nil: "session n m D [] [] D"
| session_group: "grouped n D D cs out D1 \<Longrightarrow> cs \<noteq> [] \<Longrightarrow> length cs \<le> m \<Longrightarrow> session n m D1 cs' outs D' \<Longrightarrow>
     session n m D (cs @ cs') (out @ outs) D'"

lemma group_one: "answers n D0 D c out D' \<Longrightarrow> grouped n D0 D [c] out D'"
  using group_Cons [OF _ group_Nil [of n D' D'], of D0 D c out] by simp

lemma session_one: "answers n D D c out D1 \<Longrightarrow> 1 \<le> m \<Longrightarrow> session n m D1 cs outs D' \<Longrightarrow> session n m D (c # cs) (out @ outs) D'"
  using session_group [OF group_one, of n D c out D1 m cs outs D'] by simp

section \<open>Reading the request stream\<close>

text \<open>What is left to receive: requests, then a disconnect and whatever follows it.\<close>

definition stream :: "creq list \<Rightarrow> nbd_req \<Rightarrow> byte list \<Rightarrow> byte list" where
  "stream cs disc rest = concat (map on_wire cs) @ encode_req disc @ rest"

definition disc_ok :: "nbd_req \<Rightarrow> bool" where
  "disc_ok disc \<longleftrightarrow> req_ok disc \<and> rq_magic disc = NBD_REQUEST_MAGIC \<and> rq_type disc = NBD_CMD_DISC"

lemma stream_simps:
  "stream [] disc rest = encode_req disc @ rest" "stream (c # cs) disc rest = encode_req (fst c) @ snd c @ stream cs disc rest"
  by (simp_all add: stream_def on_wire_def)

lemma recv_hdr_nb_error: "recv_hdr_nb s = (Hdr_Error, s') \<Longrightarrow> length (pending s) < 28"
proof -
  assume e: "recv_hdr_nb s = (Hdr_Error, s')"
  obtain x r where x: "rx_recv_nb 28 (so_in s) = (x, r)" by fastforce
  note a = rx_recv_nb_avail [OF x]
  show ?thesis
  proof (cases x)
    case (Got bs)
    then obtain y s1 where y: "recv_all (28 - length bs) (s\<lparr>so_in := r\<rparr>) = (y, s1)" "length bs \<noteq> 28" "y = None"
      using e x by (cases "recv_all (28 - length bs) (s\<lparr>so_in := r\<rparr>)") (auto simp: recv_hdr_nb_def split: if_splits option.splits)
    then have "\<not> 28 - length bs \<le> length (avail r)" using recv_all_spec [OF y(1)] by auto
    then show ?thesis using a Got by simp
  next
    case Gone
    then show ?thesis using a by simp
  qed (use e x in \<open>simp add: recv_hdr_nb_def\<close>)
qed

text \<open>The next header of the stream, blocking or not.\<close>

lemma next_header:
  assumes "pending k = encode_req h @ after" "req_ok h"
  shows "recv_all 28 k = (Some bs, k1) \<Longrightarrow> decode_req bs = h \<and> pending k1 = after \<and> rx_only k k1"
    and "recv_all 28 k \<noteq> (None, k1)"
    and "recv_hdr_nb k = (Hdr bs, k1) \<Longrightarrow> decode_req bs = h \<and> pending k1 = after \<and> rx_only k k1"
    and "recv_hdr_nb k \<noteq> (Hdr_Error, k1)"
proof -
  have l: "length (encode_req h) = 28" using length_encode_req [OF assms(2)] .
  have d: "bs = encode_req h \<and> p = after" if "length bs = 28" "pending k = bs @ p" for bs p
    using that assms(1) l by (simp add: append_eq_append_conv)
  show "decode_req bs = h \<and> pending k1 = after \<and> rx_only k k1" if "recv_all 28 k = (Some bs, k1)"
    using recv_all_some [OF that] d [of bs "pending k1"] decode_encode_req [OF assms(2)] by simp
  show "decode_req bs = h \<and> pending k1 = after \<and> rx_only k k1" if "recv_hdr_nb k = (Hdr bs, k1)"
    using recv_hdr_nb_some [OF that] d [of bs "pending k1"] decode_encode_req [OF assms(2)] by simp
  show "recv_all 28 k \<noteq> (None, k1)" using recv_all_spec [of 28 k None k1] assms(1) l by auto
  show "recv_hdr_nb k \<noteq> (Hdr_Error, k1)" using recv_hdr_nb_error [of k k1] assms(1) l by auto
qed

lemma admit_stream:
  assumes "creq_ok (h, p)" "batchable h" "pending k = p @ after"
  obtains k1 where "batch_admit en h reqs ops k = (Batched, reqs @ [bop_set en h (length ops)], ops @ req_ops (bop_set en h (length ops)) (length reqs) p, k1)"
    "pending k1 = after" "rx_only k k1"
proof (cases "rq_type h = NBD_CMD_WRITE")
  case True
  obtain x k1 where r: "recv_all (rq_len h) k = (x, k1)" by fastforce
  have "rq_len h = length p" using True assms(1) by (simp add: creq_ok_def)
  then have "x = Some p" "pending k1 = after" "rx_only k k1" using recv_all_spec [OF r] assms(3) by auto
  then show thesis using that [of k1] True assms(1,2) r by (simp add: batch_admit_def creq_ok_def Let_def)
next
  case False
  then have "p = []" using assms(1) by (simp add: creq_ok_def)
  then show thesis using that [of k] False assms by (simp add: batch_admit_def creq_ok_def Let_def)
qed

section \<open>Gathering a batch\<close>

text \<open>The arrays hold the requests @g@ and their block operations.\<close>

definition assembled :: "'d env \<Rightarrow> creq list \<Rightarrow> bop list \<Rightarrow> blkop list \<Rightarrow> bool" where
  "assembled en g reqs ops \<longleftrightarrow> batch_wf en reqs (\<lambda>i. snd (g ! i)) ops \<and> length g = length reqs \<and> (\<forall>c \<in> set g. batchable (fst c) \<and> creq_ok c) \<and>
     (\<forall>i < length reqs. \<exists>op0. reqs ! i = bop_set en (fst (g ! i)) op0)"

lemma batch_wf_cong: "(\<And>i. i < length reqs \<Longrightarrow> pl i = pl' i) \<Longrightarrow> batch_wf en reqs pl ops \<Longrightarrow> batch_wf en reqs pl' ops"
  using batch_ops_cong [of reqs pl pl'] batch_ops_cong [of "take i reqs" pl pl' for i] by (simp add: batch_wf_def)

lemma assembled_Nil: "assembled en [] [] []"
  by (simp add: assembled_def batch_wf_def batch_ops_def)

lemma assembled_snoc:
  assumes "assembled en g reqs ops" "batchable h" "creq_ok (h, p)"
  shows "assembled en (g @ [(h, p)]) (reqs @ [bop_set en h (length ops)]) (ops @ req_ops (bop_set en h (length ops)) (length reqs) p)"
proof -
  let ?rq = "bop_set en h (length ops)"
  note rq = bop_set_wf [OF assms(2), of en "length ops"]
  have len: "length g = length reqs" and wf: "batch_wf en reqs (\<lambda>i. snd (g ! i)) ops" using assms(1) by (simp_all add: assembled_def)
  have "batch_wf en (reqs @ [?rq]) ((\<lambda>i. snd (g ! i))(length reqs := p)) (ops @ req_ops ?rq (length reqs) p)"
    by (rule batch_wf_snoc [OF wf rq(1,2)]) (use rq(3,4) assms(3) in \<open>simp add: creq_ok_def\<close>)
  then have "batch_wf en (reqs @ [?rq]) (\<lambda>i. snd ((g @ [(h, p)]) ! i)) (ops @ req_ops ?rq (length reqs) p)"
    by (rule batch_wf_cong [rotated]) (auto simp: nth_append len less_Suc_eq)
  moreover have "\<exists>op0. (reqs @ [?rq]) ! i = bop_set en (fst ((g @ [(h, p)]) ! i)) op0" if "i < length (reqs @ [?rq])" for i
    using assms(1) that len by (cases "i < length reqs") (auto simp: assembled_def nth_append)
  ultimately show ?thesis using assms len by (auto simp: assembled_def)
qed

text \<open>The three ways a gathering loop ends on a stream: nothing more queued, at a request for the other path, or at the disconnect.\<close>

definition stops :: "gathered \<Rightarrow> creq list \<Rightarrow> nbd_req \<Rightarrow> byte list \<Rightarrow> sock \<Rightarrow> bool" where
  "stops r cs disc rest k \<longleftrightarrow>
     (r = G_Done \<and> pending k = stream cs disc rest) \<or>
     (\<exists>h p cs'. cs = (h, p) # cs' \<and> r = G_Per_Op h \<and> pending k = p @ stream cs' disc rest) \<or>
     (cs = [] \<and> r = G_Disc \<and> pending k = rest)"

lemma gather_stream:
  assumes "assembled en g reqs ops" "pending k = stream cs disc rest" "\<forall>c \<in> set cs. creq_ok c" "disc_ok disc"
    and "gather en reqs ops k = (r, reqs1, ops1, k1)"
  shows "\<exists>g' cs'. cs = g' @ cs' \<and> assembled en (g @ g') reqs1 ops1 \<and> rx_only k k1 \<and> stops r cs' disc rest k1"
  using assms
proof (induction cs arbitrary: g reqs ops k)
  case Nil
  have h: "pending k = encode_req disc @ rest" "req_ok disc" using Nil.prems(2,4) by (simp_all add: stream_simps disc_ok_def)
  obtain x k0 where x: "recv_hdr_nb k = (x, k0)" by fastforce
  have "assembled en (g @ []) reqs1 ops1 \<and> rx_only k k1 \<and> stops r [] disc rest k1"
  proof (cases "length reqs < g_batch_depth en \<and> length ops < copy_cap en")
    case True
    then show ?thesis using Nil.prems x next_header(3,4) [OF h] recv_hdr_nb_none [of k k0]
      by (cases x) (auto simp: gather.simps [of en reqs] stops_def disc_ok_def)
  next
    case False
    then show ?thesis using Nil.prems by (auto simp: gather.simps [of en reqs] stops_def)
  qed
  then show ?case by auto
next
  case (Cons c cs)
  obtain h p where c: "c = (h, p)" by fastforce
  have ok: "creq_ok (h, p)" "req_ok h" "rq_magic h = NBD_REQUEST_MAGIC" "rq_type h \<noteq> NBD_CMD_DISC"
    using Cons.prems(3) c by (simp_all add: creq_ok_def)
  have hd: "pending k = encode_req h @ (p @ stream cs disc rest)" using Cons.prems(2) c by (simp add: stream_simps)
  obtain x k0 where x: "recv_hdr_nb k = (x, k0)" by fastforce
  show ?case
  proof (cases "\<exists>bs. x = Hdr bs \<and> length reqs < g_batch_depth en \<and> length ops < copy_cap en")
    case False
    then have "r = G_Done \<and> reqs1 = reqs \<and> ops1 = ops \<and> pending k1 = pending k \<and> rx_only k k1"
      using Cons.prems(5) x next_header(4) [OF hd ok(2)] recv_hdr_nb_none [of k k0]
      by (cases x) (auto simp: gather.simps [of en reqs] split: if_splits)
    then show ?thesis using Cons.prems(1,2) by (intro exI [of _ "[]"] exI [of _ "c # cs"]) (simp add: stops_def)
  next
    case True
    then obtain bs where bs: "x = Hdr bs" "length reqs < g_batch_depth en" "length ops < copy_cap en" by blast
    have k0: "decode_req bs = h" "pending k0 = p @ stream cs disc rest" "rx_only k k0" using next_header(3) [OF hd ok(2)] x bs(1) by auto
    show ?thesis
    proof (cases "batchable h")
      case False
      then have "gather en reqs ops k = (G_Per_Op h, reqs, ops, k0)"
        using x bs k0(1) ok by (simp add: gather.simps [of en reqs] batch_admit_def)
      then show ?thesis using Cons.prems(1,5) k0 c by (intro exI [of _ "[]"] exI [of _ "c # cs"]) (simp add: stops_def)
    next
      case True
      obtain k2 where a: "batch_admit en h reqs ops k0 = (Batched, reqs @ [bop_set en h (length ops)],
            ops @ req_ops (bop_set en h (length ops)) (length reqs) p, k2)" "pending k2 = stream cs disc rest" "rx_only k0 k2"
        by (rule admit_stream [OF ok(1) True k0(2)])
      have "gather en reqs ops k = gather en (reqs @ [bop_set en h (length ops)]) (ops @ req_ops (bop_set en h (length ops)) (length reqs) p) k2"
        using x bs k0(1) ok a(1) by (simp add: gather.simps [of en reqs])
      with Cons.IH [OF assembled_snoc [OF Cons.prems(1) True ok(1)] a(2) _ Cons.prems(4)] Cons.prems(3,5)
      obtain g' cs' where "cs = g' @ cs'" "assembled en (g @ (h, p) # g') reqs1 ops1" "rx_only k2 k1" "stops r cs' disc rest k1" by auto
      then show ?thesis using c rx_only_trans [OF rx_only_trans [OF k0(3) a(3)]] by (intro exI [of _ "c # g'"] exI [of _ cs']) simp
    qed
  qed
qed

section \<open>A batch is a group\<close>

text \<open>The environment of a connection that runs alone on a sound store.\<close>

definition calm :: "'d env \<Rightarrow> ('d \<Rightarrow> nat \<Rightarrow> byte) \<Rightarrow> bool" where
  "calm en mem \<longleftrightarrow> store_env en mem \<and> quiet en \<and> faultless en \<and> whole_blocks en \<and> g_disk_size en + CBLK_SIZE \<le> 2 ^ 64"

lemma calmD:
  assumes "calm en mem"
  shows "store_env en mem" "quiet en" "faultless en" "whole_blocks en" "g_disk_size en + CBLK_SIZE \<le> 2 ^ 64"
  using assms by (simp_all add: calm_def)

lemma calm_oob: "calm en mem \<Longrightarrow> oob en off len \<longleftrightarrow> g_nblocks en * CBLK_SIZE < off + len"
  using whole_blocks_oob by (auto simp: calm_def not_le)

lemma bop_set_fields:
  "bp_handle (bop_set en h n) = rq_handle h" "bp_cmd (bop_set en h n) = rq_type h" "bp_offset (bop_set en h n) = rq_from h" "bp_len (bop_set en h n) = rq_len h"
  by (simp_all add: bop_set_def Let_def)

lemma req_outcome_error: "req_outcome en mem w ops' rq rq' \<Longrightarrow> bp_error rq' \<noteq> EIO"
proof -
  assume "req_outcome en mem w ops' rq rq'"
  then have "if oob en (bp_offset rq) (bp_len rq) then bp_error rq' = EINVAL else bp_error rq' = 0 \<or> bp_error rq' = ENOSPC \<and> bp_cmd rq = NBD_CMD_WRITE"
    unfolding req_outcome_def by (rule conjunct2 [THEN conjunct1])
  then show ?thesis by (auto split: if_splits)
qed

lemma batched_answer:
  assumes "calm en mem" "creq_ok c" "batchable (fst c)" "req_outcome en mem w ops' (bop_set en (fst c) op0) rq'"
  shows "answers (g_nblocks en * CBLK_SIZE) (disk en mem w) D c (answer ops' rq') (put_req rq' (snd c) D)"
proof -
  let ?n = "g_nblocks en * CBLK_SIZE" and ?h = "fst c"
  have rq: "rq' = (bop_set en ?h op0)\<lparr>bp_error := bp_error rq'\<rparr>" and e: "if oob en (rq_from ?h) (rq_len ?h) then bp_error rq' = EINVAL
      else bp_error rq' = 0 \<or> bp_error rq' = ENOSPC \<and> rq_type ?h = NBD_CMD_WRITE"
    and d: "rq_type ?h = NBD_CMD_READ \<longrightarrow> bp_error rq' = 0 \<longrightarrow> slot_bytes rq' ops' = map (disk en mem w) [rq_from ?h..<rq_from ?h + rq_len ?h]"
    using assms(4) unfolding req_outcome_def bop_set_fields by blast+
  have f: "bp_handle rq' = rq_handle ?h" "bp_cmd rq' = rq_type ?h" "bp_offset rq' = rq_from ?h" "bp_len rq' = rq_len ?h"
    by (subst rq, simp add: bop_set_fields)+
  have t: "rq_type ?h = NBD_CMD_READ \<or> rq_type ?h = NBD_CMD_WRITE" using assms(3) by (auto simp: batchable_def)
  have p: "rq_type ?h = NBD_CMD_WRITE \<longrightarrow> length (snd c) = rq_len ?h" using assms(2) by (simp add: creq_ok_def)
  have "effect ?n c (bp_error rq') D (put_req rq' (snd c) D)"
    using e t p calm_oob [OF assms(1)] by (auto simp: effect_def put_req_def f written_over_def)
  moreover have "answer ops' rq' = resp_hdr (bp_error rq') (rq_handle ?h) @
      (if rq_type ?h = NBD_CMD_READ \<and> bp_error rq' = 0 then map (disk en mem w) [rq_from ?h..<rq_from ?h + rq_len ?h] else [])"
    using d f by (cases "rq_type ?h = NBD_CMD_READ \<and> bp_error rq' = 0") (auto simp: answer_def)
  ultimately show ?thesis unfolding answers_def by blast
qed

lemma outcomes_group:
  assumes "\<And>i D. i < length g \<Longrightarrow> answers n D0 D (g ! i) (ans i) (put i D)"
    and "\<forall>x < n. D' x = fold put [0..<length g] D0 x" "j \<le> length g"
  shows "grouped n D0 (fold put [0..<j] D0) (drop j g) (concat (map ans [j..<length g])) D'"
  using assms(3)
proof (induction "length g - j" arbitrary: j)
  case 0
  then have "j = length g" by simp
  then show ?case using assms(2) by (simp add: group_Nil)
next
  case (Suc m)
  then have j: "j < length g" by simp
  have "answers n D0 (fold put [0..<j] D0) (g ! j) (ans j) (fold put [0..<Suc j] D0)" using assms(1) [OF j] by simp
  moreover have "grouped n D0 (fold put [0..<Suc j] D0) (drop (Suc j) g) (concat (map ans [Suc j..<length g])) D'"
    using Suc.hyps(2) j by (intro Suc.hyps(1)) simp_all
  ultimately show ?case
    unfolding upt_conv_Cons [OF j] Cons_nth_drop_Suc [OF j, symmetric] list.map concat.simps by (rule group_Cons)
qed

lemma flush_group:
  assumes "calm en mem" "store_inv en mem X (sv_world s)" "healthy (sv_sock s)" "assembled en g reqs ops"
  obtains out s' where "flush_batch en cf reqs ops s = (True, s')" "so_out (sv_sock s') = so_out (sv_sock s) @ out" "so_in (sv_sock s') = so_in (sv_sock s)"
    "healthy (sv_sock s')" "store_inv en mem X (sv_world s')"
    "grouped (g_nblocks en * CBLK_SIZE) (disk en mem (sv_world s)) (disk en mem (sv_world s)) g out (disk en mem (sv_world s'))"
proof -
  let ?n = "g_nblocks en * CBLK_SIZE" and ?D = "disk en mem (sv_world s)" and ?pl = "\<lambda>i. snd (g ! i)"
  note env = calmD [OF assms(1)]
  obtain reqs1 ops1 w1 where r: "run_batch en reqs ops (sv_world s) = (reqs1, ops1, w1)" by (metis prod_cases3)
  have g: "batch_wf en reqs ?pl ops" "length g = length reqs" "\<And>i. i < length reqs \<Longrightarrow> \<exists>op0. reqs ! i = bop_set en (fst (g ! i)) op0"
    using assms(4) by (simp_all add: assembled_def)
  note b = single_worker.run_batch_alone [OF single_workerI [OF env(1,2)] env(1,3) assms(2) g(1) r]
  have ans: "answers ?n ?D D (g ! i) (answer ops1 (reqs1 ! i)) (put_req (reqs1 ! i) (?pl i) D)" if i: "i < length g" for i D
  proof -
    obtain op0 where "reqs ! i = bop_set en (fst (g ! i)) op0" using g(2,3) i by auto
    then show ?thesis using batched_answer [OF assms(1), of "g ! i" "sv_world s" ops1 op0 "reqs1 ! i" D] b(3) [of i] assms(4) i g(2)
      by (simp add: assembled_def)
  qed
  have img: "\<forall>x < ?n. disk en mem w1 x = fold (\<lambda>i. put_req (reqs1 ! i) (?pl i)) [0..<length g] ?D x"
    using b(2,4) g(2) by (simp add: batch_image_def)
  have "map (\<lambda>i. answer ops1 (reqs1 ! i)) [0..<length g] = map (answer ops1) reqs1" using b(2) g(2) by (intro nth_equalityI) simp_all
  then have grp: "grouped ?n ?D ?D g (concat (map (answer ops1) reqs1)) (disk en mem w1)"
    using outcomes_group [OF ans img, of 0] by simp
  have e: "bp_error rq \<noteq> EIO" if rq: "rq \<in> set reqs1" for rq
  proof -
    obtain i where "i < length reqs" "rq = reqs1 ! i" using rq b(2) by (auto simp: in_set_conv_nth)
    then show ?thesis using req_outcome_error [OF b(3) [of i]] by simp
  qed
  let ?s = "count_flush cf (length reqs) (length ops) (s\<lparr>sv_world := w1\<rparr>)"
  have c: "sv_sock ?s = sv_sock s" "sv_world ?s = w1" by (simp_all add: count_flush_def Let_def)
  from send_replies_healthy [OF assms(3), of reqs1 ops1] obtain k where
    k: "send_replies reqs1 ops1 (sv_sock s) = (True, k)" "healthy k" "so_out k = so_out (sv_sock s) @ concat (map (answer ops1) reqs1)" by blast
  have "flush_batch en cf reqs ops s = (True, ?s\<lparr>sv_sock := k\<rparr>)"
    using r k(1) c e by (auto simp: flush_batch_def Let_def)
  then show thesis
    using that [of "?s\<lparr>sv_sock := k\<rparr>" "concat (map (answer ops1) reqs1)"] k c b(1) grp send_replies_in [of reqs1 ops1 "sv_sock s"] by simp
qed

section \<open>A request on the other path\<close>

lemma write_stream_healthy: "healthy (sv_sock s) \<Longrightarrow> healthy (sv_sock (snd (write_stream en voff remaining error s)))"
proof (induction en voff remaining error s rule: write_stream.induct)
  case (1 en voff remaining error s)
  obtain x k where r: "recv_all (window voff remaining) (sv_sock s) = (x, k)" by fastforce
  have k: "healthy k" using recv_all_spec [OF r] rx_only_healthy "1.prems" by blast
  show ?case
  proof (cases "remaining = 0 \<or> x = None")
    case True
    then show ?thesis using r k "1.prems" by (auto simp: write_stream.simps [of en voff remaining])
  next
    case False
    then obtain bs where x: "x = Some bs" by auto
    obtain e w where sr: "(if error = 0 then store_range en voff bs (sv_world s) else (0, sv_world s)) = (e, w)" by fastforce
    show ?thesis using "1.IH" [OF _ r [symmetric] x sr [symmetric]] False r k x sr by (simp add: write_stream.simps [of en voff remaining])
  qed
qed

lemma read_stream_healthy: "healthy (sv_sock s) \<Longrightarrow> healthy (sv_sock (snd (read_stream en voff remaining s)))"
proof (induction en voff remaining s rule: read_stream.induct)
  case (1 en voff remaining s)
  obtain e bs w where l: "load_range en voff (window voff remaining) (sv_world s) = (e, bs, w)" by (metis prod_cases3)
  obtain ok k where sd: "send_all bs (sv_sock s) = (ok, k)" by fastforce
  have k: "healthy k" using send_all_healthy(2) [OF "1.prems", of bs] sd by simp
  show ?case
  proof (cases "remaining = 0 \<or> e \<noteq> 0 \<or> \<not> ok")
    case True
    then show ?thesis using l sd k "1.prems" by (auto simp: read_stream.simps [of en voff remaining])
  next
    case False
    then show ?thesis using "1.IH" [OF _ l [symmetric] refl _ sd [symmetric]] l sd k
      by (simp add: read_stream.simps [of en voff remaining])
  qed
qed

lemma handle_one_healthy: "healthy (sv_sock s) \<Longrightarrow> healthy (sv_sock (snd (handle_one en cf h s)))"
proof -
  assume h: "healthy (sv_sock s)"
  let ?s = "count_legacy cf (rq_type h) s"
  obtain x s1 where a: "one_apply en h ?s = (x, s1)" by fastforce
  have "healthy (sv_sock (snd (one_apply en h ?s)))"
    using h write_stream_healthy [of ?s] by (auto simp: one_apply_def Let_def)
  then have "healthy (sv_sock s1)" using a by simp
  then show ?thesis using send_all_healthy(2)
    by (cases x) (auto simp: handle_one_def a Let_def case_prod_unfold intro!: read_stream_healthy)
qed

lemma one_answer:
  assumes "calm en mem" "store_inv en mem X (sv_world s)" "healthy (sv_sock s)" "creq_ok (h, p)" "pending (sv_sock s) = p @ after"
  obtains out s' where "handle_one en cf h s = (True, s')" "so_out (sv_sock s') = so_out (sv_sock s) @ out" "pending (sv_sock s') = after"
    "healthy (sv_sock s')" "store_inv en mem X (sv_world s')"
    "answers (g_nblocks en * CBLK_SIZE) (disk en mem (sv_world s)) (disk en mem (sv_world s)) (h, p) out (disk en mem (sv_world s'))"
proof -
  let ?n = "g_nblocks en * CBLK_SIZE" and ?D = "disk en mem (sv_world s)"
  note env = calmD [OF assms(1)] and o = calm_oob [OF assms(1)]
  have p: "length p = (if rq_type h = NBD_CMD_WRITE then rq_len h else 0)" using assms(4) by (simp add: creq_ok_def)
  have "\<exists>e s'. handle_one en cf h s = (True, s') \<and> pending (sv_sock s') = after \<and> store_inv en mem X (sv_world s') \<and>
      effect ?n (h, p) e ?D (disk en mem (sv_world s')) \<and> so_out (sv_sock s') = so_out (sv_sock s) @ resp_hdr e (rq_handle h) @
        (if rq_type h = NBD_CMD_READ \<and> e = 0 then map ?D [rq_from h..<rq_from h + rq_len h] else [])"
  proof (cases "rq_type h = NBD_CMD_WRITE \<or> rq_type h = NBD_CMD_READ")
    case False
    with one_no_data [OF env(1,2,4) assms(2,3), of h cf] env(5) obtain s' where
      s: "handle_one en cf h s = (True, s')" "so_in (sv_sock s') = so_in (sv_sock s)" "store_inv en mem X (sv_world s')"
        "so_out (sv_sock s') = so_out (sv_sock s) @ resp_hdr (if rq_type h = NBD_CMD_TRIM \<and> oob en (rq_from h) (rq_len h) then EINVAL else 0) (rq_handle h)"
        "\<forall>x < ?n. disk en mem (sv_world s') x = (if rq_type h = NBD_CMD_TRIM \<and> \<not> oob en (rq_from h) (rq_len h) \<and> rq_from h \<le> x div CBLK_SIZE * CBLK_SIZE \<and>
           (x div CBLK_SIZE + 1) * CBLK_SIZE \<le> rq_from h + rq_len h then 0 else ?D x)" by blast
    then show ?thesis using False p assms(5) o
      by (intro exI [of _ "if rq_type h = NBD_CMD_TRIM \<and> oob en (rq_from h) (rq_len h) then EINVAL else 0"] exI [of _ s']) (simp add: effect_def)
  next
    case True
    show ?thesis
    proof (cases "rq_type h = NBD_CMD_WRITE")
      case True
      with p assms(5) have w: "rq_len h \<le> length (pending (sv_sock s))" "take (rq_len h) (pending (sv_sock s)) = p" "drop (rq_len h) (pending (sv_sock s)) = after"
        by simp_all
      from one_write [OF env(1-4) assms(2,3) True w(1), of cf] obtain e s' where
        "handle_one en cf h s = (True, s')" "pending (sv_sock s') = after" "so_out (sv_sock s') = so_out (sv_sock s) @ resp_hdr e (rq_handle h)"
        "store_inv en mem X (sv_world s')" "if oob en (rq_from h) (rq_len h) then e = EINVAL \<and> sv_world s' = sv_world s
         else (e = 0 \<or> e = ENOSPC) \<and> written_over ?n (rq_from h) p e ?D (disk en mem (sv_world s'))" unfolding w by blast
      then show ?thesis using True o by (intro exI [of _ e] exI [of _ s']) (auto simp: effect_def)
    next
      case False
      with True have r: "rq_type h = NBD_CMD_READ" by simp
      from one_read [OF env(1-4) assms(2,3) r, of cf] obtain s' where
        "handle_one en cf h s = (True, s')" "pending (sv_sock s') = pending (sv_sock s)" "store_inv en mem X (sv_world s')"
        "\<forall>x < ?n. disk en mem (sv_world s') x = ?D x" "so_out (sv_sock s') = so_out (sv_sock s) @
          (if oob en (rq_from h) (rq_len h) then resp_hdr EINVAL (rq_handle h) else resp_hdr 0 (rq_handle h) @ map ?D [rq_from h..<rq_from h + rq_len h])" by blast
      then show ?thesis using r p False assms(5) o
        by (intro exI [of _ "if oob en (rq_from h) (rq_len h) then EINVAL else 0"] exI [of _ s']) (auto simp: effect_def)
    qed
  qed
  then obtain e s' where f: "handle_one en cf h s = (True, s')" "pending (sv_sock s') = after" "store_inv en mem X (sv_world s')"
      "effect ?n (h, p) e ?D (disk en mem (sv_world s'))" "so_out (sv_sock s') = so_out (sv_sock s) @ resp_hdr e (rq_handle h) @
        (if rq_type h = NBD_CMD_READ \<and> e = 0 then map ?D [rq_from h..<rq_from h + rq_len h] else [])" by blast
  have "healthy (sv_sock s')" using handle_one_healthy [OF assms(3), of en cf h] f(1) by simp
  moreover have "answers ?n ?D ?D (h, p) (resp_hdr e (rq_handle h) @
      (if rq_type h = NBD_CMD_READ \<and> e = 0 then map ?D [rq_from h..<rq_from h + rq_len h] else [])) (disk en mem (sv_world s'))"
    unfolding answers_def fst_conv using f(4) by (intro exI [of _ e] conjI) (assumption, rule refl)
  ultimately show thesis by (rule that [OF f(1,5,2) _ f(3)])
qed

section \<open>Serving\<close>

lemma session_append: "session n m D cs out D1 \<Longrightarrow> session n m D1 cs' out' D2 \<Longrightarrow> session n m D (cs @ cs') (out @ out') D2"
proof (induction rule: session.induct)
  case (session_group D cs out D1 cs1 outs D')
  then show ?case using session.session_group [of n D cs out D1 m "cs1 @ cs'" "outs @ out'" D2] by simp
qed simp

lemma session_single: "answers n D D c out D' \<Longrightarrow> 1 \<le> m \<Longrightarrow> session n m D [c] out D'"
  using session_one [OF _ _ session_Nil, of n D c out D' m] by simp

text \<open>Where the serving loop stands after a turn: at the next request, or past the disconnect.\<close>

definition turned :: "serve_next \<Rightarrow> creq list \<Rightarrow> nbd_req \<Rightarrow> byte list \<Rightarrow> sock \<Rightarrow> bool" where
  "turned nx cs disc rest k \<longleftrightarrow> nx = Again \<and> pending k = stream cs disc rest \<or> nx = Quit \<and> cs = [] \<and> pending k = rest"

definition group_limit :: "'d env \<Rightarrow> srv_cfg \<Rightarrow> nat" where
  "group_limit en cf = (if g_batch_enabled cf then g_batch_depth en else 1)"

lemma batch_turn:
  assumes "calm en mem" "store_inv en mem X (sv_world s)" "healthy (sv_sock s)" "g_batch_enabled cf" "1 \<le> g_batch_depth en"
    and "assembled en [c] reqs ops" "length ops \<le> maxops en" "pending (sv_sock s) = stream cs disc rest" "\<forall>c \<in> set cs. creq_ok c" "disc_ok disc"
  obtains nx s' g cs' out where "serve_batch en cf reqs ops s = (nx, s')" "cs = g @ cs'" "so_out (sv_sock s') = so_out (sv_sock s) @ out"
    "healthy (sv_sock s')" "store_inv en mem X (sv_world s')" "turned nx cs' disc rest (sv_sock s')"
    "session (g_nblocks en * CBLK_SIZE) (group_limit en cf) (disk en mem (sv_world s)) (c # g) out (disk en mem (sv_world s'))"
proof -
  let ?n = "g_nblocks en * CBLK_SIZE" and ?m = "group_limit en cf"
  have m: "?m = g_batch_depth en" using assms(4) by (simp add: group_limit_def)
  obtain r reqs1 ops1 k where gr: "gather en reqs ops (sv_sock s) = (r, reqs1, ops1, k)" by (metis prod_cases4)
  from gather_stream [OF assms(6,8-10) gr] obtain g cs' where
    g: "cs = g @ cs'" "assembled en (c # g) reqs1 ops1" "rx_only (sv_sock s) k" "stops r cs' disc rest k" by auto
  have "length reqs \<le> g_batch_depth en" using assms(5,6) by (simp add: assembled_def)
  from gather_bounds [OF this assms(7) gr] g(2) have lim: "length (c # g) \<le> ?m" by (simp add: m assembled_def)
  have h: "healthy k" using g(3) rx_only_healthy assms(3) by blast
  let ?s = "s\<lparr>sv_sock := k\<rparr>"
  have s: "store_inv en mem X (sv_world ?s)" "healthy (sv_sock ?s)" using assms(2) h by simp_all
  obtain out s2 where f: "flush_batch en cf reqs1 ops1 ?s = (True, s2)" "so_out (sv_sock s2) = so_out (sv_sock ?s) @ out" "so_in (sv_sock s2) = so_in (sv_sock ?s)"
      "healthy (sv_sock s2)" "store_inv en mem X (sv_world s2)"
      "grouped ?n (disk en mem (sv_world ?s)) (disk en mem (sv_world ?s)) (c # g) out (disk en mem (sv_world s2))"
    by (rule flush_group [OF assms(1) s g(2), of cf])
  have one: "session ?n ?m (disk en mem (sv_world s)) (c # g) out (disk en mem (sv_world s2))"
    using session_group [OF f(6) _ lim session_Nil] by simp
  have o: "so_out (sv_sock s2) = so_out (sv_sock s) @ out" using f(2) g(3) by (simp add: rx_only_def)
  have sb: "serve_batch en cf reqs ops s = (case r of G_Error \<Rightarrow> (Drop, s\<lparr>sv_sock := k\<rparr>) | G_Per_Op h \<Rightarrow> again_if (handle_one en cf h s2) | G_Disc \<Rightarrow> (Quit, s2) | G_Done \<Rightarrow> (Again, s2))"
    using f(1) by (simp add: serve_batch_def gr split: gathered.split)
  from g(4) consider "r = G_Done" "pending k = stream cs' disc rest" | h2 p2 cs2 where "cs' = (h2, p2) # cs2" "r = G_Per_Op h2" "pending k = p2 @ stream cs2 disc rest"
    | "cs' = []" "r = G_Disc" "pending k = rest" by (auto simp: stops_def)
  then show thesis
  proof cases
    case 1
    then show ?thesis using that [of Again s2 g cs' out] sb g(1) o f(3-5) one by (simp add: turned_def)
  next
    case 2
    have c2: "creq_ok (h2, p2)" "pending (sv_sock s2) = p2 @ stream cs2 disc rest" using assms(9) g(1) 2(1,3) f(3) by simp_all
    obtain out2 s3 where a: "handle_one en cf h2 s2 = (True, s3)" "so_out (sv_sock s3) = so_out (sv_sock s2) @ out2" "pending (sv_sock s3) = stream cs2 disc rest"
        "healthy (sv_sock s3)" "store_inv en mem X (sv_world s3)"
        "answers ?n (disk en mem (sv_world s2)) (disk en mem (sv_world s2)) (h2, p2) out2 (disk en mem (sv_world s3))"
      by (rule one_answer [OF assms(1) f(5,4) c2, of cf])
    have "1 \<le> ?m" using assms(5) by (simp add: m)
    from session_append [OF one session_single [OF a(6) this]]
    have "session ?n ?m (disk en mem (sv_world s)) (c # g @ [(h2, p2)]) (out @ out2) (disk en mem (sv_world s3))" by simp
    then show ?thesis using that [of Again s3 "g @ [(h2, p2)]" cs2 "out @ out2"] sb 2 g(1) o a by (simp add: turned_def again_if_def)
  next
    case 3
    then show ?thesis using that [of Quit s2 g "[]" out] sb g(1) o f(3-5) one by (simp add: turned_def)
  qed
qed

lemma request_turn:
  assumes "calm en mem" "store_inv en mem X (sv_world s)" "healthy (sv_sock s)" "1 \<le> g_batch_depth en"
    and "pending (sv_sock s) = p @ stream cs disc rest" "creq_ok (h, p)" "\<forall>c \<in> set cs. creq_ok c" "disc_ok disc"
  obtains nx s' g cs' out where "serve_req en cf h s = (nx, s')" "cs = g @ cs'" "so_out (sv_sock s') = so_out (sv_sock s) @ out"
    "healthy (sv_sock s')" "store_inv en mem X (sv_world s')" "turned nx cs' disc rest (sv_sock s')"
    "session (g_nblocks en * CBLK_SIZE) (group_limit en cf) (disk en mem (sv_world s)) ((h, p) # g) out (disk en mem (sv_world s'))"
proof -
  have ok: "rq_magic h = NBD_REQUEST_MAGIC" "rq_type h \<noteq> NBD_CMD_DISC" using assms(6) by (simp_all add: creq_ok_def)
  have m: "1 \<le> group_limit en cf" using assms(4) by (simp add: group_limit_def)
  show thesis
  proof (cases "g_batch_enabled cf \<and> batchable h")
    case True
    obtain k where a: "batch_admit en h [] [] (sv_sock s) = (Batched, [bop_set en h 0], req_ops (bop_set en h 0) 0 p, k)" "pending k = stream cs disc rest" "rx_only (sv_sock s) k"
      using admit_stream [OF assms(6) _ assms(5), of en "[]" "[]"] True by auto
    have as: "assembled en [(h, p)] [bop_set en h 0] (req_ops (bop_set en h 0) 0 p)"
      using assembled_snoc [OF assembled_Nil, of h p en] True assms(6) by simp
    let ?s = "s\<lparr>sv_sock := k\<rparr>"
    have l: "length (req_ops (bop_set en h 0) 0 p) \<le> maxops en"
      using batch_admit_bounds(2) [OF a(1)] maxops_ge [of en] by simp
    have "healthy k" using a(3) rx_only_healthy assms(3) by blast
    then have s: "store_inv en mem X (sv_world ?s)" "healthy (sv_sock ?s)" "pending (sv_sock ?s) = stream cs disc rest" "g_batch_enabled cf"
      using assms(2) a(2) True by simp_all
    obtain nx s' g cs' out where t: "serve_batch en cf [bop_set en h 0] (req_ops (bop_set en h 0) 0 p) ?s = (nx, s')" "cs = g @ cs'"
        "so_out (sv_sock s') = so_out (sv_sock ?s) @ out" "healthy (sv_sock s')" "store_inv en mem X (sv_world s')" "turned nx cs' disc rest (sv_sock s')"
        "session (g_nblocks en * CBLK_SIZE) (group_limit en cf) (disk en mem (sv_world ?s)) ((h, p) # g) out (disk en mem (sv_world s'))"
      by (rule batch_turn [OF assms(1) s(1,2,4) assms(4) as l s(3) assms(7,8)])
    show ?thesis using that [OF _ t(2) _ t(4-6), of out] t(1,3,7) a(1,3) ok True by (simp add: serve_req_def rx_only_def)
  next
    case False
    obtain out s' where a: "handle_one en cf h s = (True, s')" "so_out (sv_sock s') = so_out (sv_sock s) @ out" "pending (sv_sock s') = stream cs disc rest"
        "healthy (sv_sock s')" "store_inv en mem X (sv_world s')"
        "answers (g_nblocks en * CBLK_SIZE) (disk en mem (sv_world s)) (disk en mem (sv_world s)) (h, p) out (disk en mem (sv_world s'))"
      by (rule one_answer [OF assms(1-3,6,5), of cf])
    have "serve_req en cf h s = (Again, s')"
      using a(1) ok False by (auto simp: serve_req_def again_if_def batch_admit_def)
    then show ?thesis using that [of Again s' "[]" cs out] a session_single [OF a(6) m] by (simp add: turned_def)
  qed
qed

lemma serve_stream:
  assumes "calm en mem" "\<forall>n. g_running_at cf n" "1 \<le> g_batch_depth en" "disc_ok disc"
    and "store_inv en mem X (sv_world s)" "healthy (sv_sock s)" "\<forall>c \<in> set cs. creq_ok c" "pending (sv_sock s) = stream cs disc rest"
  shows "\<exists>s' out. serve en cf n s = (True, s') \<and> so_out (sv_sock s') = so_out (sv_sock s) @ out \<and> pending (sv_sock s') = rest \<and>
    store_inv en mem X (sv_world s') \<and>
    session (g_nblocks en * CBLK_SIZE) (group_limit en cf) (disk en mem (sv_world s)) cs out (disk en mem (sv_world s'))"
  using assms(5-8)
proof (induction cs arbitrary: n s rule: length_induct)
  case (1 cs)
  define h where "h = (case cs of [] \<Rightarrow> disc | c # _ \<Rightarrow> fst c)"
  define after where "after = (case cs of [] \<Rightarrow> rest | c # cs' \<Rightarrow> snd c @ stream cs' disc rest)"
  have p: "pending (sv_sock s) = encode_req h @ after" "req_ok h"
    using 1(4,5) assms(4) by (auto simp: h_def after_def stream_simps disc_ok_def creq_ok_def split: list.split)
  obtain x k where r: "recv_all 28 (sv_sock s) = (x, k)" by fastforce
  then obtain bs where x: "x = Some bs" using next_header(2) [OF p, of k] by (cases x) auto
  have n: "decode_req bs = h" "pending k = after" "rx_only (sv_sock s) k" using next_header(1) [OF p] r x by auto
  let ?s = "s\<lparr>sv_sock := k\<rparr>"
  have k: "store_inv en mem X (sv_world ?s)" "healthy (sv_sock ?s)" "so_out k = so_out (sv_sock s)"
    using 1(2,3) rx_only_healthy [OF n(3)] n(3) by (simp_all add: rx_only_def)
  have sv: "serve en cf n s = (case serve_req en cf h ?s of (Drop, s1) \<Rightarrow> (False, s1) | (Quit, s1) \<Rightarrow> (True, s1) | (Again, s1) \<Rightarrow> serve en cf (n + 1) s1)"
    using assms(2) r x n(1) by (subst serve.simps) simp
  show ?case
  proof (cases cs)
    case Nil
    then have "serve_req en cf h ?s = (Quit, ?s)" using assms(4) by (simp add: serve_req_def h_def disc_ok_def)
    then show ?thesis using sv Nil n(2) k by (intro exI [of _ ?s] exI [of _ "[]"]) (simp add: after_def session_Nil)
  next
    case (Cons c cs')
    then have c: "pending (sv_sock ?s) = snd c @ stream cs' disc rest" "creq_ok (h, snd c)" "\<forall>c \<in> set cs'. creq_ok c" "c = (h, snd c)"
      using n(2) 1(4) by (simp_all add: after_def h_def)
    obtain nx s1 g cs2 out where t: "serve_req en cf h ?s = (nx, s1)" "cs' = g @ cs2" "so_out (sv_sock s1) = so_out (sv_sock ?s) @ out"
        "healthy (sv_sock s1)" "store_inv en mem X (sv_world s1)" "turned nx cs2 disc rest (sv_sock s1)"
        "session (g_nblocks en * CBLK_SIZE) (group_limit en cf) (disk en mem (sv_world ?s)) ((h, snd c) # g) out (disk en mem (sv_world s1))"
      by (rule request_turn [OF assms(1) k(1,2) assms(3) c(1-3) assms(4)])
    have g: "cs = ((h, snd c) # g) @ cs2" using Cons c(4) t(2) by simp
    from t(6) consider "nx = Again" "pending (sv_sock s1) = stream cs2 disc rest" | "nx = Quit" "cs2 = []" "pending (sv_sock s1) = rest"
      by (auto simp: turned_def)
    then show ?thesis
    proof cases
      case 1
      have "length cs2 < length cs" "\<forall>c \<in> set cs2. creq_ok c" using g c(3) t(2) by auto
      then obtain s' out' where i: "serve en cf (n + 1) s1 = (True, s')" "so_out (sv_sock s') = so_out (sv_sock s1) @ out'" "pending (sv_sock s') = rest"
          "store_inv en mem X (sv_world s')"
          "session (g_nblocks en * CBLK_SIZE) (group_limit en cf) (disk en mem (sv_world s1)) cs2 out' (disk en mem (sv_world s'))"
        using "1.IH" t(4,5) 1(2) by blast
      from session_append [OF t(7) i(5)] show ?thesis
        using sv t(1,3) 1(1) i k(3) g by (intro exI [of _ s'] exI [of _ "out @ out'"]) simp
    next
      case 2
      then show ?thesis using sv t k(3) g by (intro exI [of _ s1] exI [of _ out]) simp
    qed
  qed
qed

text \<open>
  C1. A connection from its first byte to its last. A client negotiates with any options that keep the
  conversation going and starts transmission with EXPORT_NAME or GO, sends any requests and disconnects;
  its bytes may be cut into segments anywhere. Then @handle_client@ ends without an error, has read exactly up to the
  disconnect, and what it sent is the greeting, the answers to the options and the output of a run of the abstract
  server on these requests from the image of the device before to the image after: every
  request is answered once and in order, with groups of at most @g_batch_depth@ requests, and of one
  with batching off.
\<close>

theorem client_served:
  assumes "calm en mem" "store_inv en mem X (sv_world s)" "healthy (sv_sock s)" "\<forall>n. g_running_at cf n" "1 \<le> g_batch_depth en"
    and "pending (sv_sock s) = be 4 flags @ concat (map enc_opt opts) @ enc_opt fin @ stream cs disc rest" "flags < 2 ^ 32"
    and "\<forall>x \<in> set opts. opt_ok x \<and> opt_outcome (fst x) = More_Options" "opt_ok fin" "opt_outcome (fst fin) = Transmit"
    and "\<forall>c \<in> set cs. creq_ok c" "disc_ok disc"
  shows "\<exists>s' out. handle_client en cf s = (True, s') \<and> pending (sv_sock s') = rest \<and> store_inv en mem X (sv_world s') \<and>
    so_out (sv_sock s') = so_out (sv_sock s) @ greeting @ concat (map (\<lambda>x. opt_answer (g_disk_size en) (bit flags 1) (fst x)) opts) @
      opt_answer (g_disk_size en) (bit flags 1) (fst fin) @ out \<and>
    session (g_nblocks en * CBLK_SIZE) (group_limit en cf) (disk en mem (sv_world s)) cs out (disk en mem (sv_world s'))"
proof -
  have o: "\<And>x. x \<in> set opts \<Longrightarrow> opt_ok x \<and> opt_outcome (fst x) = More_Options" "opt_outcome (fst fin) \<noteq> More_Options"
    using assms(8,10) by simp_all
  from handshake_converses [OF assms(3,6,7) o(1) assms(9) o(2), of "g_disk_size en"] obtain k where
    k: "nbd_handshake (g_disk_size en) (sv_sock s) = (True, k)" "pending k = stream cs disc rest" "healthy k"
      "so_out k = so_out (sv_sock s) @ greeting @ concat (map (\<lambda>x. opt_answer (g_disk_size en) (bit flags 1) (fst x)) opts) @
        opt_answer (g_disk_size en) (bit flags 1) (fst fin)" using assms(10) by auto
  from serve_stream [OF assms(1,4,5,12), of X "s\<lparr>sv_sock := k\<rparr>" cs rest 0] assms(2,11) k show ?thesis
    by (auto simp: handle_client_def)
qed

text \<open>A client that starts at once, reads across a block boundary, writes a block, trims it and disconnects.\<close>

definition demo_client :: "creq list" where
  "demo_client = [(demo_req NBD_CMD_READ 4090 10, []), (demo_req NBD_CMD_WRITE 0 3, [1, 2, 3]), (demo_req NBD_CMD_TRIM 0 4096, [])]"

lemma demo_calm: "calm demo (\<lambda>m. m)"
  using demo_env(1-3) demo_whole by (simp add: calm_def)

lemma demo_client_ok: "c \<in> set demo_client \<Longrightarrow> creq_ok c" and demo_disc_ok: "disc_ok (demo_req NBD_CMD_DISC 0 0)"
  by (auto simp: demo_client_def creq_ok_def disc_ok_def req_ok_def demo_req_def NBD_CMD_READ_def NBD_CMD_WRITE_def NBD_CMD_TRIM_def NBD_CMD_DISC_def NBD_REQUEST_MAGIC_def)

theorem client_served_witness:
  "\<exists>s' out. handle_client demo demo_cfg (demo_conn (be 4 3 @ enc_opt (NBD_OPT_GO, [0, 0, 0, 0, 0, 0]) @ stream demo_client (demo_req NBD_CMD_DISC 0 0) [7])) = (True, s') \<and>
     pending (sv_sock s') = [7] \<and> so_out (sv_sock s') = greeting @ opt_answer 8192 True NBD_OPT_GO @ out \<and>
     session 8192 32 (disk demo (\<lambda>m. m) demo_world) demo_client out (disk demo (\<lambda>m. m) (sv_world s'))"
proof -
  let ?s = "demo_conn (be 4 3 @ enc_opt (NBD_OPT_GO, [0, 0, 0, 0, 0, 0]) @ stream demo_client (demo_req NBD_CMD_DISC 0 0) [7])"
  have p: "pending (sv_sock ?s) = be 4 3 @ concat (map enc_opt []) @ enc_opt (NBD_OPT_GO, [0, 0, 0, 0, 0, 0]) @ stream demo_client (demo_req NBD_CMD_DISC 0 0) [7]"
    by simp
  have i: "store_inv demo (\<lambda>m. m) {} (sv_world ?s)" by (simp add: demo_world)
  have r: "\<forall>n. g_running_at demo_cfg n" "1 \<le> g_batch_depth demo" "group_limit demo demo_cfg = 32" "g_disk_size demo = 8192" "g_nblocks demo * CBLK_SIZE = 8192"
    by (simp_all add: demo_cfg_def demo_def group_limit_def g_nblocks_def)
  have f: "opt_ok (NBD_OPT_GO, [0, 0, 0, 0, 0, 0 :: byte])" "opt_outcome NBD_OPT_GO = Transmit" by (simp_all add: opt_ok_def opt_outcome_def opt_codes)
  from client_served [OF demo_calm i demo_conn(4) r(1,2) p _ _ f(1) _ _ demo_disc_ok] demo_client_ok f(2) show ?thesis
    unfolding r by (auto simp: bit_0)
qed

end
