(* ===== verification/Store_Counters.thy ===== *)
theory Store_Counters
  imports Session
begin

text \<open>
  The counters of the store. @g_blocks_live@, @g_codec_bytes@ and @g_raw_blocks@ are kept by
  differences: each publish subtracts what the displaced entry contributed and adds what the
  new one does. The theory shows that they never drift from the index: after any operation,
  failed copies and failed allocations included, they are the number of written blocks, the sum of
  their stored lengths and the number of blocks stored verbatim. Together with the invariant of the
  store this holds for whatever a client sends.
\<close>

section \<open>Tallies of the index\<close>

lemma tally_update:
  fixes f :: "'a \<Rightarrow> nat"
  assumes "b < length xs"
  shows "sum_list (map f (xs[b := e])) + f (xs ! b) = sum_list (map f xs) + f e"
  using assms elem_le_sum_list [of b "map f xs"] by (simp add: map_update sum_list_update)

definition is_live :: "64 word \<Rightarrow> nat" where "is_live e = (if clen_of e \<noteq> 0 then 1 else 0)"
definition is_raw :: "64 word \<Rightarrow> nat" where "is_raw e = (if clen_of e = CBLK_SIZE then 1 else 0)"

definition exact :: "'d world \<Rightarrow> bool" where
  "exact w \<longleftrightarrow> g_blocks_live w = u64 (sum_list (map is_live (g_index w))) \<and>
     g_codec_bytes w = u64 (sum_list (map clen_of (g_index w))) \<and>
     g_raw_blocks w = u64 (sum_list (map is_raw (g_index w)))"

definition books :: "'d world \<Rightarrow> 64 word list \<times> nat \<times> nat \<times> nat" where
  "books w = (g_index w, g_blocks_live w, g_codec_bytes w, g_raw_blocks w)"

lemma exact_books: "books w' = books w \<Longrightarrow> exact w' = exact w"
  by (simp add: exact_def books_def)

text \<open>Replacing a contribution modulo the width of the counter.\<close>

lemma swap_mod:
  assumes "a' + x = a + y" "x < 2 ^ 64"
  shows "u64 (sub64 (u64 a) x + y) = u64 a'"
proof -
  have "u64 (sub64 (u64 a) x + y) = (a + (2 ^ 64 - x) + y) mod 2 ^ 64"
    using assms(2) unfolding u64_def sub64_def by (simp only: mod_less mod_add_left_eq)
  also have "a + (2 ^ 64 - x) + y = a' + 2 ^ 64" using assms by linarith
  finally show ?thesis by (simp add: u64_def)
qed

lemma u64_idem: "u64 (u64 a) = u64 a" "sub64 (u64 a) 0 = u64 a" "u64 (sub64 a x) = sub64 a x"
  by (simp_all add: u64_def sub64_def)

lemma clen_of_small: "clen_of e < 2 ^ 13"
proof -
  have "ent_clen e = take_bit 13 (ent_clen e)" by (rule bit_word_eqI) (auto simp: bit_ent_clen bit_take_bit_iff)
  then have "unat (ent_clen e) = take_bit 13 (unat (ent_clen e))" by (metis unsigned_take_bit_eq)
  then show ?thesis unfolding clen_of_def by (metis take_bit_nat_less_exp)
qed

section \<open>Operations that publish nothing\<close>

lemma call_books:
  assumes "quiet en"
  shows "books (yield en held w) = books w" "books (snd (alloc_slot en held n w)) = books w" "books (free_slot en held g w) = books w"
    "books (snd (copy_in en held g bs w)) = books w" "books (snd (snd (copy_out en held g n w))) = books w" "books (sync en held w) = books w"
    "books (note_enospc w) = books w"
  by (simp_all add: books_def yield_quiet [OF assms] alloc_slot_def free_slot_def copy_in_def copy_out_def sync_def note_enospc_def Let_def case_prod_unfold)

lemma rd_books:
  assumes "quiet en"
  shows "books (snd (rd_prepare en bo w)) = books w" "books (snd (snd (rd_finish en bo w))) = books w"
    "books (snd (fetch_locked en b e w)) = books w" "books (snd (rd_block_locked en b w)) = books w"
    "books (snd (wr_prepare en bo w)) = books w" "books (snd (wr_abort en bo w)) = books w"
    "books (snd (snd (issue_copy en bo (q, w)))) = books w" "books (snd (snd (finish_read en bo (q, w)))) = books w"
    "books (snd (snd (retry_read en bo (q, w)))) = books w" "books (snd (read_locked en bo w)) = books w"
proof -
  note c = call_books [OF assms]
  show p: "books (snd (rd_prepare en bo w)) = books w" for bo w by (simp add: rd_prepare_def Let_def c)
  show f: "books (snd (snd (rd_finish en bo w))) = books w" by (simp add: rd_finish_def Let_def c split: option.split)
  show l: "books (snd (fetch_locked en b e w)) = books w" for b e w
    by (simp add: fetch_locked_def Let_def case_prod_unfold c)
  show r: "books (snd (rd_block_locked en b w)) = books w" for b w by (simp add: rd_block_locked_def Let_def l c)
  show "books (snd (wr_prepare en bo w)) = books w"
    using c(2) [of None _ w] by (auto simp: wr_prepare_def Let_def case_prod_unfold c)
  show "books (snd (wr_abort en bo w)) = books w" by (simp add: wr_abort_def Let_def c)
  show "books (snd (snd (issue_copy en bo (q, w)))) = books w"
    using c(4,5) by (auto simp: issue_copy_def Let_def case_prod_unfold)
  show "books (snd (snd (finish_read en bo (q, w)))) = books w"
    using f by (auto simp: finish_read_def Let_def case_prod_unfold)
  show "books (snd (snd (retry_read en bo (q, w)))) = books w"
    using c(5) p by (auto simp: retry_read_def Let_def case_prod_unfold)
  show "books (snd (read_locked en bo w)) = books w"
    using r [of "bo_blk bo" w] by (auto simp: read_locked_def split: prod.split option.split)
qed

lemma map_state_books:
  assumes "\<And>x s. B (snd (f x s)) = B s"
  shows "B (snd (map_state f xs s)) = B s"
  by (induction xs arbitrary: s) (simp_all add: map_state_Cons assms del: map_state.simps(2))

lemma map_state_cong: "(\<And>x s. x \<in> set xs \<Longrightarrow> f x s = g x s) \<Longrightarrow> map_state f xs s = map_state g xs s"
  by (induction xs arbitrary: s) simp_all

lemma counted_books:
  assumes "\<And>x q w. books (snd (snd (f x (q, w)))) = books w" "map_state f xs (n, w) = (ys, m, w')"
  shows "books w' = books w"
proof -
  have "books (snd (snd (f x s))) = books (snd s)" for x s using assms(1) [of x "fst s" "snd s"] by simp
  from map_state_books [of "\<lambda>s. books (snd s)" f, OF this, of xs "(n, w)"] assms(2) show ?thesis by simp
qed

lemma read_rounds_books: "quiet en \<Longrightarrow> books (snd (read_rounds en k ops w)) = books w"
proof (induction k arbitrary: ops w)
  case (Suc k)
  note r = rd_books [OF Suc.prems] and c = call_books [OF Suc.prems]
  obtain ops1 again w1 where a: "map_state (finish_read en) ops (0, w) = (ops1, again, w1)" by (metis prod_cases3)
  have w1: "books w1 = books w" by (rule counted_books [OF r(8) a])
  let ?w2 = "w1\<lparr>g_read_retry := u64 (g_read_retry w1 + again)\<rparr>"
  obtain ops2 q w3 where b: "map_state (retry_read en) ops1 (0, ?w2) = (ops2, q, w3)" by (metis prod_cases3)
  have w3: "books w3 = books w" using counted_books [OF r(9) b] w1 by (simp add: books_def)
  then show ?case using Suc.IH [OF Suc.prems] w1 a b c(6) by (simp add: Let_def)
qed simp

lemma do_blocks_books:
  assumes "quiet en" "do_blocks en ops w = (ops', w')"
  obtains w4 where "books w4 = books w" "map_state (publish_write en) ops' w4 = (ops', w')"
proof -
  note r = rd_books [OF assms(1)]
  obtain ops1 q w1 where i: "map_state (issue_copy en) ops (0, w) = (ops1, q, w1)" by (metis prod_cases3)
  define w2 where "w2 = (if q \<noteq> 0 then sync en None w1 else w1)"
  obtain ops3 w3 where rr: "read_rounds en 4 ops1 w2 = (ops3, w3)" by fastforce
  obtain ops4 w4 where l: "map_state (read_locked en) ops3 w3 = (ops4, w4)" by fastforce
  have eq: "map_state (publish_write en) ops4 w4 = (ops', w')"
    using assms(2) rr l by (cases "q = 0") (simp_all add: do_blocks_def i w2_def)
  have same: "fst (map_state (publish_write en) xs s) = xs" for xs and s :: "'a world"
    by (induction xs arbitrary: s) (simp_all add: map_state_Cons publish_write_def del: map_state.simps(2))
  have "ops4 = ops'" using same [of ops4 w4] eq by simp
  moreover have "books w4 = books w"
    using counted_books [OF r(7) i] read_rounds_books [OF assms(1), of 4 ops1 w2] map_state_books [of books "read_locked en", OF r(10), of ops3 w3]
      call_books(6) [OF assms(1)] rr l by (simp add: w2_def split: if_splits)
  ultimately show thesis using that eq by simp
qed

section \<open>Publishing\<close>

text \<open>The entry of a block is replaced and the counters follow.\<close>

lemma free_fields:
  assumes "quiet en"
  shows "g_index (free_slot en held g w) = g_index w" "g_blocks_live (free_slot en held g w) = g_blocks_live w"
    "g_codec_bytes (free_slot en held g w) = g_codec_bytes w" "g_raw_blocks (free_slot en held g w) = g_raw_blocks w"
  using call_books(3) [OF assms, of held g w] by (simp_all add: books_def)

lemma release_fields:
  assumes "quiet en" "clen_of old \<noteq> 0"
  shows "g_index (release_old en held old w) = g_index w" "g_blocks_live (release_old en held old w) = g_blocks_live w"
    "g_codec_bytes (release_old en held old w) = sub64 (g_codec_bytes w) (clen_of old)"
    "g_raw_blocks w = u64 x \<Longrightarrow> g_raw_blocks (release_old en held old w) = sub64 (g_raw_blocks w) (is_raw old)"
  by (simp_all add: release_old_def Let_def free_fields [OF assms(1)] clen_of_def is_raw_def u64_idem)

lemma exact_store:
  assumes "exact w" "b < length (g_index w)" "g_index w' = (g_index w)[b := e]"
    and "g_blocks_live w' = u64 (sub64 (g_blocks_live w) (is_live (g_index w ! b)) + is_live e)"
    and "g_codec_bytes w' = u64 (sub64 (g_codec_bytes w) (clen_of (g_index w ! b)) + clen_of e)"
    and "g_raw_blocks w' = u64 (sub64 (g_raw_blocks w) (is_raw (g_index w ! b)) + is_raw e)"
  shows "exact w'"
proof -
  have "is_live x < 2 ^ 64" "is_raw x < 2 ^ 64" for x by (simp_all add: is_live_def is_raw_def)
  moreover have "clen_of x < 2 ^ 64" for x using clen_of_small [of x] by simp
  ultimately show ?thesis using assms(1,3-6)
    swap_mod [OF tally_update [OF assms(2), of is_live e]] swap_mod [OF tally_update [OF assms(2), of clen_of e]]
    swap_mod [OF tally_update [OF assms(2), of is_raw e]] by (simp add: exact_def)
qed

lemma exact_displace:
  assumes "quiet en" "exact w" "b < length (g_index w)" "clen_of e = n" "n \<noteq> 0"
  shows "exact (displace en held (g_index w ! b) n (w\<lparr>g_index := (g_index w)[b := e]\<rparr>))"
proof (rule exact_store [OF assms(2,3)])
  let ?old = "g_index w ! b"
  obtain x y z where u: "g_blocks_live w = u64 x" "g_codec_bytes w = u64 y" "g_raw_blocks w = u64 z" using assms(2) by (auto simp: exact_def)
  have z: "ent_clen ?old = 0 \<longleftrightarrow> clen_of ?old = 0" by (simp add: clen_of_def unat_eq_zero)
  note r = release_fields [OF assms(1), where old = ?old and held = held and w = "w\<lparr>g_index := (g_index w)[b := e]\<rparr>"] and f = is_live_def is_raw_def u64_idem u
  show "g_index (displace en held ?old n (w\<lparr>g_index := (g_index w)[b := e]\<rparr>)) = (g_index w)[b := e]"
    using r(1) by (simp add: displace_def Let_def z)
  show "g_blocks_live (displace en held ?old n (w\<lparr>g_index := (g_index w)[b := e]\<rparr>)) = u64 (sub64 (g_blocks_live w) (is_live ?old) + is_live e)"
    using r(2) assms(4,5) swap_mod [of x 1 x 1] by (simp add: displace_def Let_def z f)
  show "g_codec_bytes (displace en held ?old n (w\<lparr>g_index := (g_index w)[b := e]\<rparr>)) = u64 (sub64 (g_codec_bytes w) (clen_of ?old) + clen_of e)"
    using r(3) assms(4) by (simp add: displace_def Let_def z f)
  show "g_raw_blocks (displace en held ?old n (w\<lparr>g_index := (g_index w)[b := e]\<rparr>)) = u64 (sub64 (g_raw_blocks w) (is_raw ?old) + is_raw e)"
    using r(4) [of z] assms(4) by (simp add: displace_def Let_def z f)
qed

lemma index_of_displace: "quiet en \<Longrightarrow> g_index (displace en held old n w) = g_index w"
  by (simp add: displace_def release_old_def Let_def free_fields)

lemma exact_publish:
  assumes "quiet en" "exact w" "bo_blk bo < length (g_index w)" "bo_grain bo < 2 ^ 30" "0 < bo_clen bo" "bo_clen bo < 2 ^ 13"
  shows "exact (wr_publish en bo w)" "length (g_index (wr_publish en bo w)) = length (g_index w)"
proof -
  let ?w = "yield en None w"
  have y: "books ?w = books w" by (rule call_books(1) [OF assms(1)])
  then have "exact ?w" "g_index ?w = g_index w" using exact_books [OF y] assms(2) by (simp_all add: books_def)
  then show "exact (wr_publish en bo w)"
    using exact_displace [OF assms(1), of ?w "bo_blk bo" "ent_publish (bo_grain bo, bo_clen bo) (g_index w ! bo_blk bo)" "bo_clen bo" None]
      ent_publish_fields(2) [of "bo_grain bo" "bo_clen bo" "g_index w ! bo_blk bo"] assms(3-6)
    by (simp add: wr_publish_def idx_publish_def idx_load_def Let_def clen_of_def)
  show "length (g_index (wr_publish en bo w)) = length (g_index w)"
    using \<open>g_index ?w = g_index w\<close> by (simp add: wr_publish_def idx_publish_def Let_def index_of_displace [OF assms(1)])
qed

lemma exact_publishes:
  assumes "quiet en" "exact w"
    and "\<And>bo. bo \<in> set ops \<Longrightarrow> bo_cmd bo = NBD_CMD_WRITE \<Longrightarrow> bo_grain bo \<noteq> SLOT_NONE \<Longrightarrow>
      bo_blk bo < length (g_index w) \<and> bo_grain bo < 2 ^ 30 \<and> 0 < bo_clen bo \<and> bo_clen bo < 2 ^ 13"
  shows "exact (snd (map_state (publish_write en) ops w))"
  using assms(2,3)
proof (induction ops arbitrary: w)
  case (Cons bo ops)
  have "exact (snd (publish_write en bo w)) \<and> length (g_index (snd (publish_write en bo w))) = length (g_index w)"
    using exact_publish [OF assms(1) Cons.prems(1), of bo] Cons.prems(1) Cons.prems(2) [of bo] by (auto simp: publish_write_def)
  then show ?case using Cons.IH [of "snd (publish_write en bo w)"] Cons.prems(2) by (simp add: map_state_Cons del: map_state.simps(2))
qed simp

section \<open>Operations of one worker\<close>

context single_worker
begin

lemma held_bounds:
  assumes "ok A R w" "(g, n, bs) \<in> set R"
  shows "g < 2 ^ 30" "n \<le> 4096"
proof -
  have "slot_fits w g n" using st_okD(3) [OF assms] by (simp add: hold_ok_def)
  from slot_fits_bounds(2,3) [OF st_okD(1) [OF assms(1)] this] show "g < 2 ^ 30" "n \<le> 4096" by simp_all
qed

lemma index_length: "ok A R w \<Longrightarrow> length (g_index w) = g_nblocks en"
  by (drule st_okD(1)) (simp add: store_wf_def)

lemma do_blocks_exact:
  assumes "ok A (concat (map (alone.wr_held (\<lambda>_. [])) ops) @ R) w" "\<And>bo. bo \<in> set ops \<Longrightarrow> alone.op_start A bo w" "exact w"
    and "do_blocks en ops w = (ops', w')"
  shows "exact w'"
proof -
  obtain w4 where w4: "books w4 = books w" "map_state (publish_write en) ops' w4 = (ops', w')" by (rule do_blocks_books [OF quiet assms(4)])
  have k: "list_all2 alone.op_kept ops ops'" by (rule alone.do_blocks_ok(3) [OF stab_any assms(1,2,4)])
  have len: "length (g_index w4) = g_nblocks en" using index_length [OF assms(1)] w4(1) by (simp add: books_def)
  have "bo_blk bo < length (g_index w4) \<and> bo_grain bo < 2 ^ 30 \<and> 0 < bo_clen bo \<and> bo_clen bo < 2 ^ 13"
    if bo: "bo \<in> set ops'" "bo_cmd bo = NBD_CMD_WRITE" "bo_grain bo \<noteq> SLOT_NONE" for bo
  proof -
    obtain bo0 where b0: "bo0 \<in> set ops" "alone.op_kept bo0 bo" by (rule list_all2_right [OF k bo(1)])
    then have f: "bo_cmd bo0 = NBD_CMD_WRITE" "bo_grain bo0 = bo_grain bo" "bo_clen bo0 = bo_clen bo" "bo_blk bo0 = bo_blk bo"
      using bo(2) by (auto simp: alone.op_kept_def)
    then have "(bo_grain bo, bo_clen bo, []) \<in> set (concat (map (alone.wr_held (\<lambda>_. [])) ops) @ R)"
      using b0(1) bo(3) by (auto simp: alone.wr_held_def intro!: bexI [of _ bo0])
    from held_bounds [OF assms(1) this] have "bo_grain bo < 2 ^ 30" "bo_clen bo < 2 ^ 13" by simp_all
    moreover have "bo_blk bo < g_nblocks en" "0 < bo_clen bo"
      using assms(2) [OF b0(1)] f bo(3) by (auto simp: alone.op_start_def alone.wr_ready_def)
    ultimately show ?thesis using len by simp
  qed
  note bounds = this
  have "exact w4" using exact_books [OF w4(1)] assms(3) by simp
  then have "exact (snd (map_state (publish_write en) ops' w4))" by (rule exact_publishes [OF quiet]) (rule bounds)
  then show ?thesis by (simp only: w4(2) snd_conv)
qed

lemma rmw_block_exact:
  assumes ok: "ok A R w" and b: "b < g_nblocks en" and fit: "boff + length src \<le> CBLK_SIZE" and ex: "exact w"
    and r: "rmw_block en b boff src w = (e, w')"
  shows "exact w'"
proof -
  let ?w = "yield en None w" and ?held = "Some (IDXL b)"
  note c = call_books [OF quiet]
  have y: "ok A R ?w" by (rule alone.rely [OF stab_any ok])
  obtain p where p: "ok (A(b := {p})) R ?w" by (rule alone.pick_page [OF y b])
  obtain po w2 where f: "fetch_locked en b (g_index ?w ! b) ?w = (po, w2)" by fastforce
  have bk: "books w2 = books w" using rd_books(3) [OF quiet, of b "g_index ?w ! b" ?w] c(1) f by simp
  have w2: "ok (A(b := {p})) R w2" by (rule alone.fetch_locked_ok(1) [OF p stab_any b _ f]) simp
  show ?thesis
  proof (cases po)
    case None
    then show ?thesis using r f bk ex exact_books by (auto simp: rmw_block_def idx_load_def Let_def)
  next
    case (Some scratch)
    obtain clen slot where cb: "comp_block (en_lib en) (en_codec en) (en_cc en) (overlay scratch boff src) = (clen, slot)" by fastforce
    obtain g w3 where al: "alloc_slot en ?held clen w2 = (g, w3)" by fastforce
    obtain r' w4 where cp: "copy_in en ?held g (take clen slot) w3 = (r', w4)" by fastforce
    note cl = comp_block_length [OF cb]
    have bk4: "books w3 = books w" "books w4 = books w" using bk c(2) [of ?held clen w2] c(4) [of ?held g "take clen slot" w3] al cp by simp_all
    let ?w5 = "sync en ?held w4" and ?old = "g_index ?w ! b"
    have bk5: "books ?w5 = books w" "books (free_slot en ?held g w4) = books w" "books (note_enospc w3) = books w" using bk4 c(3,6,7) by simp_all
    have w': "w' = (if g = SLOT_NONE then note_enospc w3 else if r' \<noteq> CUDA_SUCCESS then free_slot en ?held g w4
        else displace en ?held ?old clen (?w5\<lparr>g_index := (g_index ?w5)[b := ent_publish (g, clen) ?old]\<rparr>))"
      using r Some f cb al cp by (auto simp: rmw_block_def idx_load_def Let_def split: if_splits)
    have i: "g_index ?w5 ! b = ?old" "b < length (g_index ?w5)" "exact ?w5"
      using bk5(1) c(1) [of None w] index_length [OF ok] b exact_books ex by (auto simp: books_def)
    have "clen_of (ent_publish (g, clen) ?old) = clen" if "g \<noteq> SLOT_NONE"
    proof -
      have "ok (A(b := {p})) ((g, clen, []) # R) w3" using alone.alloc_slot_ok(1) [OF w2 stab_any cl al] that by simp
      from held_bounds [OF this, of g clen "[]"] ent_publish_fields(2) [of g clen ?old] show ?thesis by (simp add: clen_of_def)
    qed
    then show ?thesis using w' exact_displace [OF quiet i(3,2), of _ clen ?held] i(1) cl(1) bk5(2,3) exact_books ex by auto
  qed
qed

lemma trim_block_exact:
  assumes "ok A R w" "b < g_nblocks en" "exact w"
  shows "exact (trim_block en b w)"
proof -
  let ?w = "yield en None (yield en None w)" and ?old = "g_index w ! b"
  have y: "books (yield en None w) = books w" "books ?w = books w" using call_books(1) [OF quiet] by simp_all
  then have i: "exact ?w" "exact (yield en None w)" "g_index ?w = g_index w" "g_index (yield en None w) = g_index w" "b < length (g_index ?w)"
    using assms index_length [OF assms(1)] exact_books by (auto simp: books_def)
  show ?thesis
  proof (cases "ent_clen ?old = 0")
    case True
    then show ?thesis using i by (simp add: trim_block_def idx_load_def Let_def)
  next
    case False
    let ?e = "ent_publish (0, 0) ?old" and ?w3 = "release_old en None ?old (idx_publish b 0 0 ?w)"
    have z: "clen_of ?old \<noteq> 0" using False by (simp add: clen_of_def unat_eq_zero)
    have e: "clen_of ?e = 0" using ent_publish_fields(2) [of 0 0 ?old] by (simp add: clen_of_def)
    note r = release_fields [OF quiet z, where held = None and w = "idx_publish b 0 0 ?w"]
    obtain x where x: "g_raw_blocks ?w = u64 x" using i(1) by (auto simp: exact_def)
    have "exact (?w3\<lparr>g_blocks_live := sub64 (g_blocks_live ?w3) 1, g_trim_blocks := u64 (g_trim_blocks ?w3 + 1)\<rparr>)"
      by (rule exact_store [OF i(1,5), of _ ?e])
        (use r(1-3) r(4) [of x] x e z i(3) in \<open>simp_all add: idx_publish_def idx_load_def is_live_def is_raw_def u64_idem\<close>)
    then show ?thesis using False i(3,4) by (simp add: trim_block_def idx_load_def Let_def)
  qed
qed

section \<open>Whole operations\<close>

text \<open>
  The invariant of the store, whatever slots earlier failures may have lost, and the counters.
\<close>

definition sound :: "'d world \<Rightarrow> bool" where
  "sound w \<longleftrightarrow> (\<exists>R. ok (\<lambda>_. UNIV) R w) \<and> exact w"

lemma soundI: "ok A R w \<Longrightarrow> exact w \<Longrightarrow> sound w"
  unfolding sound_def by (blast intro: st_ok_top)

lemma soundE:
  assumes "sound w"
  obtains R where "ok (\<lambda>_. UNIV) R w" "exact w"
  using assms by (auto simp: sound_def)

text \<open>A set of block operations, once prepared.\<close>

lemma do_blocks_sound:
  assumes "ok A (concat (map (alone.wr_held (\<lambda>_. [])) ops) @ R) w" "\<forall>bo \<in> set ops. alone.op_start A bo w" "exact w"
    and "do_blocks en ops w = (ops', w')"
  shows "sound w'"
  using soundI [OF alone.do_blocks_ok(1) [OF stab_any assms(1) _ assms(4)] do_blocks_exact [OF assms(1) _ assms(3,4)]] assms(2) by blast

lemma prepare_sound:
  assumes "sound w" "\<forall>bo \<in> set ops. alone.op_in bo" "map_state (prepare_op en) ops w = (ops1, w1)"
  obtains R where "ok (\<lambda>_. UNIV) (concat (map (alone.wr_held (\<lambda>_. [])) ops1) @ R) w1"
    "\<forall>bo \<in> set ops1. alone.op_start (\<lambda>_. UNIV) bo w1" "exact w1"
proof -
  obtain R where R: "ok (\<lambda>_. UNIV) R w" "exact w" by (rule soundE [OF assms(1)])
  have P: "ok (\<lambda>_. UNIV) (concat (map (alone.wr_held (\<lambda>_. [])) ops1) @ R) w1"
      "list_all2 (\<lambda>bo bo'. alone.op_start (\<lambda>_. UNIV) bo' w1 \<and> alone.op_prepared bo bo') ops ops1"
    using alone.prepare_phase [OF R(1) stab_any _ assms(3)] assms(2) by blast+
  have s: "\<forall>bo \<in> set ops1. alone.op_start (\<lambda>_. UNIV) bo w1" by (auto elim!: list_all2_right [OF P(2)])
  have "books (snd (prepare_op en bo s)) = books s" for bo s using rd_books(1,5) [OF quiet] by (simp add: prepare_op_def)
  from map_state_books [of books "prepare_op en", OF this, of ops w] have "books w1 = books w" using assms(3) by simp
  from exact_books [OF this] R(2) have "exact w1" by simp
  then show thesis by (rule that [OF P(1) s])
qed

lemma window_sound:
  assumes "sound w" "\<forall>bo \<in> set ops. alone.op_in bo"
    and "map_state (prepare_op en) ops w = (ops1, w1)" "do_blocks en ops1 w1 = (ops2, w2)"
  shows "sound w2"
  by (rule prepare_sound [OF assms(1-3)]) (rule do_blocks_sound [OF _ _ _ assms(4)])

lemma store_blocks_sound:
  assumes "sound w" "blk + nblocks \<le> g_nblocks en" "nblocks * CBLK_SIZE \<le> length src"
  shows "sound (snd (store_blocks en blk src nblocks err w))"
  using assms
proof (induction nblocks arbitrary: blk src err w rule: less_induct)
  case (less nblocks)
  show ?case
  proof (cases "nblocks = 0")
    case False
    define n where "n = (if nblocks > maxops en then maxops en else nblocks)"
    define ops where "ops = map (\<lambda>i. blkop_set (blk + i) NBD_CMD_WRITE (page_of src i) 0) [0..<n]"
    have n: "0 < n" "n \<le> nblocks" using False by (auto simp: n_def)
    obtain ops1 w1 where pr: "map_state (wr_prepare en) ops w = (ops1, w1)" by fastforce
    obtain ops2 w2 where d: "do_blocks en ops1 w1 = (ops2, w2)" by fastforce
    have eq: "store_blocks en blk src nblocks err w =
        store_blocks en (blk + n) (drop (n * CBLK_SIZE) src) (nblocks - n) (run_err (map bo_err ops2) err) w2"
      using pr d by (subst store_blocks.simps)
        (simp add: False n_def [symmetric] page_of_def [unfolded CBLK_SIZE_val, symmetric] ops_def [symmetric] Let_def run_err_map)
    have len: "length (page_of src i) = CBLK_SIZE" if "i < n" for i
      by (rule length_page_of) (use that n(2) less.prems(3) mult_le_mono1 [of "i + 1" nblocks CBLK_SIZE] in simp)
    have wr: "bo_cmd bo = NBD_CMD_WRITE" "alone.op_in bo" if "bo \<in> set ops" for bo
      using that n(2) less.prems(2) len by (auto simp: ops_def alone.op_in_def alone.may_write_def blkop_set_def)
    have "map_state (prepare_op en) ops w = (ops1, w1)"
      using pr map_state_cong [of ops "prepare_op en" "wr_prepare en" w] wr(1) by (simp add: prepare_op_def)
    then have "sound w2" using window_sound [OF less.prems(1) _ _ d] wr(2) by blast
    moreover have "(nblocks - n) * CBLK_SIZE \<le> length (drop (n * CBLK_SIZE) src)" using less.prems(3) by (simp add: diff_mult_distrib)
    ultimately show ?thesis unfolding eq using less.IH [of "nblocks - n"] n less.prems(2) by simp
  qed (use less.prems(1) in \<open>simp add: store_blocks.simps\<close>)
qed

lemma load_blocks_sound:
  assumes "sound w" "blk + k \<le> g_nblocks en"
  shows "sound (snd (snd (load_blocks en blk k w)))"
  using assms
proof (induction k arbitrary: blk w rule: less_induct)
  case (less k)
  show ?case
  proof (cases "k = 0")
    case False
    define n where "n = (if k > maxops en then maxops en else k)"
    define ops where "ops = map (\<lambda>i. blkop_set (blk + i) NBD_CMD_READ [] 0) [0..<n]"
    have n: "0 < n" "n \<le> k" using False by (auto simp: n_def)
    obtain ops1 w1 where pr: "map_state (rd_prepare en) ops w = (ops1, w1)" by fastforce
    obtain ops2 w2 where d: "do_blocks en ops1 w1 = (ops2, w2)" by fastforce
    have l: "load_blocks en blk k w = (if \<exists>bo \<in> set ops2. bo_err bo \<noteq> 0 then (EIO, [], w2)
        else let (e, rest, w3) = load_blocks en (blk + n) (k - n) w2 in (e, concat (map bo_page ops2) @ rest, w3))"
      using False pr d by (subst load_blocks.simps) (simp add: n_def [symmetric] ops_def [symmetric] Let_def)
    have rd: "bo_cmd bo = NBD_CMD_READ" "alone.op_in bo" if "bo \<in> set ops" for bo
      using that n(2) less.prems(2) by (auto simp: ops_def alone.op_in_def blkop_set_def)
    have "map_state (prepare_op en) ops w = (ops1, w1)"
      using pr map_state_cong [of ops "prepare_op en" "rd_prepare en" w] rd(1) by (simp add: prepare_op_def)
    then have "sound w2" using window_sound [OF less.prems(1) _ _ d] rd(2) by blast
    then show ?thesis using less.IH [of "k - n" w2 "blk + n"] n less.prems(2) l by (auto simp: Let_def case_prod_unfold)
  qed (use less.prems(1) in \<open>simp add: load_blocks.simps\<close>)
qed

lemma sync_sound: "sound w \<Longrightarrow> sound (sync en None w)"
  by (elim soundE) (rule soundI [OF alone.sync_ok(1) [OF _ stab_any]], assumption, simp add: exact_books [OF call_books(6) [OF quiet]])

lemma rmw_part_sound:
  assumes "sound w" "c \<longrightarrow> off div CBLK_SIZE < g_nblocks en \<and> boff + length src \<le> CBLK_SIZE"
  shows "sound (snd (rmw_part en c off boff src w))"
proof (cases c)
  case True
  obtain R where R: "ok (\<lambda>_. UNIV) R w" "exact w" by (rule soundE [OF assms(1)])
  obtain e w' where r: "rmw_block en (off div CBLK_SIZE) boff src w = (e, w')" by fastforce
  have b: "off div CBLK_SIZE < g_nblocks en" "boff + length src \<le> CBLK_SIZE" using True assms(2) by simp_all
  have "\<exists>A. ok A R w'" using alone.rmw_block_ok [OF R(1) stab_any b _ r] by auto
  then show ?thesis using soundI rmw_block_exact [OF R(1) b R(2) r] True r by (auto simp: rmw_part_def)
qed (use assms(1) in \<open>simp add: rmw_part_def\<close>)

lemma store_part_sound:
  assumes "sound w" "c \<longrightarrow> off div CBLK_SIZE + k \<le> g_nblocks en \<and> k * CBLK_SIZE \<le> length src"
  shows "sound (snd (store_part en c off src k w))"
proof (cases c)
  case True
  then show ?thesis using assms store_blocks_sound by (simp add: store_part_def)
qed (use assms(1) in \<open>simp add: store_part_def\<close>)

lemma store_range_sound:
  assumes "sound w" "off + length src \<le> g_nblocks en * CBLK_SIZE" "off + length src < 2 ^ 64"
  shows "sound (snd (store_range en off src w))"
proof -
  let ?n = "length src"
  note b = range_bounds [OF assms(2,3)] and p = range_parts [where off = off and n = ?n]
  obtain e1 w1 where 1: "rmw_part en (off mod CBLK_SIZE \<noteq> 0) off (off mod CBLK_SIZE) (take (head_cnt off ?n) src) w = (e1, w1)" by fastforce
  obtain e2 w2 where 2: "store_part en (?n - head_cnt off ?n \<ge> CBLK_SIZE) (off_mid off ?n) (drop (head_cnt off ?n) src) (mid_cnt off ?n) w1 = (e2, w2)" by fastforce
  obtain e3 w3 where 3: "rmw_part en (tail_cnt off ?n \<noteq> 0) (off_tail off ?n) 0 (take (tail_cnt off ?n) (drop (mid_cnt off ?n * CBLK_SIZE) (drop (head_cnt off ?n) src))) w2 = (e3, w3)" by fastforce
  have "sound w1" using rmw_part_sound [OF assms(1), of "off mod CBLK_SIZE \<noteq> 0" off "off mod CBLK_SIZE" "take (head_cnt off ?n) src"] 1 b(3) p(1,2) by (simp add: Suc_le_eq)
  have le: "mid_cnt off ?n * CBLK_SIZE \<le> ?n - head_cnt off ?n" using p(3) by linarith
  from \<open>sound w1\<close> have "sound w2" using store_part_sound [of w1 "?n - head_cnt off ?n \<ge> CBLK_SIZE" "off_mid off ?n" "mid_cnt off ?n" "drop (head_cnt off ?n) src"] 2 b(4) le p(5) by simp
  then have "sound w3"
    using rmw_part_sound [of w2 "tail_cnt off ?n \<noteq> 0" "off_tail off ?n" 0 "take (tail_cnt off ?n) (drop (mid_cnt off ?n * CBLK_SIZE) (drop (head_cnt off ?n) src))"]
      3 b(5) p(4) by (auto simp: Suc_le_eq min_def)
  then show ?thesis using 1 2 3 by (simp add: store_range_def Let_def)
qed

lemma load_range_sound:
  assumes "sound w" "off + n \<le> g_nblocks en * CBLK_SIZE" "off + n < 2 ^ 64"
  shows "sound (snd (snd (load_range en off n w)))"
proof -
  note b = range_bounds [OF assms(2,3)] and p = range_parts(5) [where off = off and n = n]
  have part: "sound w'" if "load_part en c off k w = (e, bs, w')" "sound w" "c \<longrightarrow> off div CBLK_SIZE + k \<le> g_nblocks en" for c off k w e bs w'
    using load_blocks_sound [OF that(2), of "off div CBLK_SIZE" k] that by (auto simp: load_part_def split: if_splits)
  obtain e1 head w1 where h: "load_part en (off mod CBLK_SIZE \<noteq> 0) off 1 w = (e1, head, w1)" by (metis prod_cases3)
  obtain e2 mid w2 where m: "load_part en (mid_cnt off n \<noteq> 0) (off_mid off n) (mid_cnt off n) w1 = (e2, mid, w2)" by (metis prod_cases3)
  obtain e3 tail w3 where t: "load_part en (tail_cnt off n \<noteq> 0) (off_tail off n) 1 w2 = (e3, tail, w3)" by (metis prod_cases3)
  note s1 = part [OF h assms(1) b(3)]
  note s2 = part [OF m s1 b(4)]
  note s3 = part [OF t s2 b(5)]
  show ?thesis unfolding load_range_def p h m t prod.case using s1 s2 s3 by simp
qed

lemma trims_sound: "sound w \<Longrightarrow> \<forall>b \<in> set bs. b < g_nblocks en \<Longrightarrow> sound (fold (trim_block en) bs w)"
proof (induction bs arbitrary: w)
  case (Cons b bs)
  obtain R where R: "ok (\<lambda>_. UNIV) R w" "exact w" by (rule soundE [OF Cons.prems(1)])
  have b: "b < g_nblocks en" using Cons.prems(2) by simp
  have "sound (trim_block en b w)"
    by (rule soundI [OF alone.trim_block_ok [OF R(1) stab_any b] trim_block_exact [OF R(1) b R(2)]]) simp
  then show ?case using Cons.IH Cons.prems(2) by simp
qed simp

lemma trim_range_sound: "sound w \<Longrightarrow> sound (trim_range en off len w)"
  unfolding trim_range_def Let_def by (rule trims_sound) auto

lemma run_batch_sound:
  assumes "sound w" "store_env en mem" "batch_wf en reqs pl ops" "run_batch en reqs ops w = (reqs', ops', w')"
  shows "sound w'"
proof -
  have ops: "\<forall>bo \<in> set ops. alone.op_in bo"
    using batch_op_facts [OF assms(3,2)] by (auto simp: alone.op_in_def alone.may_write_def)
  obtain ops1 w1 where p: "map_state (prepare_op en) ops w = (ops1, w1)" by fastforce
  define reqs1 where "reqs1 = mark_failed ops1 reqs"
  obtain ops2 w2 where a: "map_state (abort_op en reqs1) ops1 w1 = (ops2, w2)" by fastforce
  have d: "do_blocks en ops2 w2 = (ops', w')" using assms(4) by (auto simp: run_batch_def p reqs1_def [symmetric] a Let_def split: prod.splits)
  obtain R where P: "ok (\<lambda>_. UNIV) (concat (map (alone.wr_held (\<lambda>_. [])) ops1) @ R) w1"
      "\<forall>bo \<in> set ops1. alone.op_start (\<lambda>_. UNIV) bo w1" "exact w1" by (rule prepare_sound [OF assms(1) ops p])
  have Q: "ok (\<lambda>_. UNIV) (concat (map (alone.wr_held (\<lambda>_. [])) ops2) @ R) w2"
      "list_all2 (\<lambda>bo bo'. alone.op_start (\<lambda>_. UNIV) bo' w2 \<and> alone.op_settled reqs1 bo bo') ops1 ops2"
    using alone.abort_phase [OF P(1) stab_any _ a] P(2) by auto
  have s: "\<forall>bo \<in> set ops2. alone.op_start (\<lambda>_. UNIV) bo w2" by (auto elim!: list_all2_right [OF Q(2)])
  have "books (snd (abort_op en rs bo s)) = books s" for bo s rs using rd_books(6) [OF quiet] by (simp add: abort_op_def)
  from map_state_books [of books "abort_op en reqs1", OF this, of ops1 w1] have "books w2 = books w1" using a by simp
  from exact_books [OF this] P(3) have "exact w2" by simp
  then show ?thesis by (rule do_blocks_sound [OF Q(1) s _ d])
qed

end

section \<open>Whatever a client sends\<close>

text \<open>What the rest assumes of the configuration: one worker at a time, a device of whole blocks; copies may fail.\<close>

definition steady :: "'d env \<Rightarrow> ('d \<Rightarrow> nat \<Rightarrow> byte) \<Rightarrow> bool" where
  "steady en mem \<longleftrightarrow> store_env en mem \<and> quiet en \<and> whole_blocks en \<and> g_disk_size en + CBLK_SIZE \<le> 2 ^ 64 \<and> 1 \<le> g_batch_depth en"

locale steady_server = single_worker en mem X
  for en :: "'d env" and mem :: "'d \<Rightarrow> nat \<Rightarrow> byte" and X :: "nat set" +
  assumes steady: "steady en mem"
begin

lemma env: "store_env en mem" "g_disk_size en + CBLK_SIZE \<le> 2 ^ 64" "g_nblocks en * CBLK_SIZE = g_disk_size en"
  using steady by (auto simp: steady_def whole_blocks_def g_nblocks_def)

lemma in_range: "\<not> oob en off len \<Longrightarrow> off + len \<le> g_nblocks en * CBLK_SIZE \<and> off + len < 2 ^ 64"
  using store_env_oob [OF env(1), of off len] env(2,3) by simp

lemma write_stream_sound:
  assumes "sound (sv_world s)" "error = 0 \<longrightarrow> voff + remaining \<le> g_nblocks en * CBLK_SIZE \<and> voff + remaining < 2 ^ 64"
  shows "sound (sv_world (snd (write_stream en voff remaining error s)))"
  using assms
proof (induction remaining arbitrary: voff error s rule: less_induct)
  case (less remaining)
  show ?case
  proof (cases "remaining = 0")
    case False
    let ?k = "window voff remaining"
    have k: "0 < ?k" "?k \<le> remaining" using window_bounds [of remaining voff] False by auto
    obtain x k1 where r: "recv_all ?k (sv_sock s) = (x, k1)" by fastforce
    show ?thesis
    proof (cases x)
      case None
      then show ?thesis using less.prems(1) False r by (simp add: write_stream.simps)
    next
      case (Some bs)
      then have len: "length bs = ?k" using recv_all_some(1) r by blast
      obtain e w where st: "(if error = 0 then store_range en voff bs (sv_world s) else (0, sv_world s)) = (e, w)" by fastforce
      have w: "sound w"
        using store_range_sound [OF less.prems(1), of voff bs] less.prems st len k by (auto split: if_splits)
      have err: "note_err error e = 0 \<longrightarrow> u64 (voff + ?k) + (remaining - ?k) \<le> g_nblocks en * CBLK_SIZE \<and> u64 (voff + ?k) + (remaining - ?k) < 2 ^ 64"
        using less.prems(2) k(2) by (auto simp: note_err_def u64_small split: if_splits)
      show ?thesis using less.IH [of "remaining - ?k" "s\<lparr>sv_sock := k1, sv_world := w\<rparr>" "note_err error e" "u64 (voff + ?k)"] k w err False r Some st
        by (subst write_stream.simps) simp
    qed
  qed (use less.prems(1) in \<open>simp add: write_stream.simps\<close>)
qed

lemma read_stream_sound:
  assumes "sound (sv_world s)" "voff + remaining \<le> g_nblocks en * CBLK_SIZE \<and> voff + remaining < 2 ^ 64"
  shows "sound (sv_world (snd (read_stream en voff remaining s)))"
  using assms
proof (induction remaining arbitrary: voff s rule: less_induct)
  case (less remaining)
  show ?case
  proof (cases "remaining = 0")
    case False
    let ?k = "window voff remaining"
    have k: "0 < ?k" "?k \<le> remaining" using window_bounds [of remaining voff] False by auto
    obtain e bs w where l: "load_range en voff ?k (sv_world s) = (e, bs, w)" by (metis prod_cases3)
    obtain ok k1 where sd: "send_all bs (sv_sock s) = (ok, k1)" by fastforce
    have w: "sound w" using load_range_sound [OF less.prems(1), of voff ?k] less.prems(2) k l by simp
    have "u64 (voff + ?k) + (remaining - ?k) \<le> g_nblocks en * CBLK_SIZE \<and> u64 (voff + ?k) + (remaining - ?k) < 2 ^ 64"
      using less.prems(2) k(2) by (auto simp: u64_small)
    then show ?thesis using less.IH [of "remaining - ?k" "s\<lparr>sv_world := w, sv_sock := k1\<rparr>" "u64 (voff + ?k)"] k w False l sd
      by (subst read_stream.simps) simp
  qed (use less.prems(1) in \<open>simp add: read_stream.simps\<close>)
qed

lemma handle_one_sound:
  assumes "sound (sv_world s)"
  shows "sound (sv_world (snd (handle_one en cf h s)))"
proof -
  let ?s = "count_legacy cf (rq_type h) s"
  have c: "sound (sv_world ?s)" using assms by (simp add: count_legacy_def)
  obtain x s1 where a: "one_apply en h ?s = (x, s1)" by fastforce
  have s1: "sound (sv_world s1)"
    using a c write_stream_sound [OF c, of _ "rq_from h" "rq_len h"] in_range [of "rq_from h" "rq_len h"] sync_sound [OF c] trim_range_sound [OF c]
    by (auto simp: one_apply_def Let_def EINVAL_def split: if_splits dest!: arg_cong [where f = snd])
  have r: "x = Some 0 \<Longrightarrow> rq_type h = NBD_CMD_READ \<Longrightarrow> \<not> oob en (rq_from h) (rq_len h)"
    using a by (auto simp: one_apply_def Let_def EINVAL_def split: if_splits)
  show ?thesis
  proof (cases x)
    case None
    then show ?thesis using a s1 by (simp add: handle_one_def)
  next
    case (Some error)
    obtain ok k where sd: "send_all (resp_hdr error (rq_handle h)) (sv_sock s1) = (ok, k)" by fastforce
    have "sound (sv_world (snd (read_stream en (rq_from h) (rq_len h) (s1\<lparr>sv_sock := k\<rparr>))))" if "error = 0" "rq_type h = NBD_CMD_READ"
      by (rule read_stream_sound) (use s1 that Some r in_range in auto)
    then show ?thesis using a Some sd s1 by (simp add: handle_one_def Let_def)
  qed
qed

lemma flush_batch_sound:
  assumes "sound (sv_world s)" "batch_wf en reqs pl ops"
  shows "sound (sv_world (snd (flush_batch en cf reqs ops s)))"
proof -
  obtain reqs1 ops1 w1 where r: "run_batch en reqs ops (sv_world s) = (reqs1, ops1, w1)" by (metis prod_cases3)
  have "sound w1" by (rule run_batch_sound [OF assms(1) env(1) assms(2) r])
  then show ?thesis using r by (simp add: flush_batch_def count_flush_def Let_def split: prod.split)
qed

lemma serve_req_sound:
  assumes "sound (sv_world s)"
  shows "sound (sv_world (snd (serve_req en cf h s)))"
proof -
  have depth: "1 \<le> g_batch_depth en" using steady by (simp add: steady_def)
  have again: "sound (sv_world (snd (again_if (handle_one en cf h s))))" if "sound (sv_world s)" for h s
    using handle_one_sound [OF that] by (simp add: again_if_def)
  have batch: "sound (sv_world (snd (serve_batch en cf reqs ops s)))"
    if s: "sound (sv_world s)" and wf: "batch_wf en reqs pl ops" "length reqs = 1" "length ops \<le> BATCH_BLOCKS" for reqs ops pl s
  proof -
    obtain g reqs1 ops1 k where gr: "gather en reqs ops (sv_sock s) = (g, reqs1, ops1, k)" by (metis prod_cases4)
    obtain ok s2 where f: "flush_batch en cf reqs1 ops1 (s\<lparr>sv_sock := k\<rparr>) = (ok, s2)" by fastforce
    show ?thesis
    proof (cases "g = G_Error")
      case True
      then show ?thesis using gr s by (simp add: serve_batch_def Let_def)
    next
      case False
      have "length ops \<le> maxops en" using wf(3) maxops_ge [of en] by simp
      with gather_wf [OF wf(1) _ _ gr False] wf(2) depth obtain pl1 where "batch_wf en reqs1 pl1 ops1" by auto
      from flush_batch_sound [OF _ this, of "s\<lparr>sv_sock := k\<rparr>" cf] have "sound (sv_world s2)" using s f by simp
      then show ?thesis using False gr f again by (auto simp: serve_batch_def Let_def split: gathered.split)
    qed
  qed
  obtain a reqs ops k where ad: "batch_admit en h [] [] (sv_sock s) = (a, reqs, ops, k)" by (metis prod_cases4)
  have "sound (sv_world (snd (serve_batch en cf reqs ops (s\<lparr>sv_sock := k\<rparr>))))" if "a = Batched"
    using batch_admit_wf [OF batch_wf_Nil ad [unfolded that]] batch assms by fastforce
  then show ?thesis using ad assms again by (cases a) (auto simp: serve_req_def)
qed

lemma serve_sound: "sound (sv_world s) \<Longrightarrow> sound (sv_world (snd (serve en cf n s)))"
proof (induction "length (pending (sv_sock s))" arbitrary: n s rule: less_induct)
  case less
  obtain x k where r: "recv_all 28 (sv_sock s) = (x, k)" by fastforce
  show ?case
  proof (cases "g_running_at cf n \<and> x \<noteq> None")
    case True
    then obtain bs where x: "x = Some bs" by blast
    obtain y s1 where q: "serve_req en cf (decode_req bs) (s\<lparr>sv_sock := k\<rparr>) = (y, s1)" by fastforce
    have s1: "sound (sv_world s1)" using serve_req_sound [of "s\<lparr>sv_sock := k\<rparr>" cf "decode_req bs"] less.prems q by simp
    have "length (pending (sv_sock s)) = 28 + length (pending k)" using recv_all_some(1,2) r x by simp
    moreover have "length (pending (sv_sock s1)) \<le> length (pending k)"
      using serve_req_shrinks [of en cf "decode_req bs" "s\<lparr>sv_sock := k\<rparr>"] q by simp
    ultimately have "sound (sv_world (snd (serve en cf (n + 1) s1)))" using less.hyps s1 by simp
    then show ?thesis using True r x q s1 by (subst serve.simps) (simp split: serve_next.split)
  qed (use less.prems r in \<open>subst serve.simps, auto\<close>)
qed

lemma handle_client_sound: "sound (sv_world s) \<Longrightarrow> sound (sv_world (snd (handle_client en cf s)))"
  using serve_sound by (simp add: handle_client_def split: prod.split)

end

text \<open>The counters against the written blocks of the index.\<close>

definition counted :: "'d world \<Rightarrow> bool" where
  "counted w \<longleftrightarrow> g_blocks_live w = card (written w) \<and> g_codec_bytes w = (\<Sum>b \<in> written w. clen_of (g_index w ! b)) \<and>
     g_raw_blocks w = card {b \<in> written w. clen_of (g_index w ! b) = CBLK_SIZE}"

lemma written_sum:
  assumes "\<And>e. clen_of e = 0 \<Longrightarrow> f e = (0 :: nat)"
  shows "sum_list (map f (g_index w)) = (\<Sum>b \<in> written w. f (g_index w ! b))"
proof -
  have "sum_list (map f (g_index w)) = (\<Sum>b = 0..<length (g_index w). f (g_index w ! b))" by (simp add: sum_list_sum_nth)
  also have "\<dots> = (\<Sum>b \<in> written w. f (g_index w ! b))"
    by (rule sum.mono_neutral_right) (auto simp: written_def assms)
  finally show ?thesis .
qed

lemma tallies:
  "sum_list (map is_live (g_index w)) = card (written w)"
  "sum_list (map clen_of (g_index w)) = (\<Sum>b \<in> written w. clen_of (g_index w ! b))"
  "sum_list (map is_raw (g_index w)) = card {b \<in> written w. clen_of (g_index w ! b) = CBLK_SIZE}"
proof -
  have fin: "finite (written w)" by (simp add: written_def)
  show "sum_list (map is_live (g_index w)) = card (written w)"
    by (subst written_sum) (auto simp: is_live_def written_def)
  show "sum_list (map clen_of (g_index w)) = (\<Sum>b \<in> written w. clen_of (g_index w ! b))" by (rule written_sum)
  have "sum_list (map is_raw (g_index w)) = (\<Sum>b \<in> written w. if clen_of (g_index w ! b) = CBLK_SIZE then 1 else 0)"
    by (subst written_sum) (auto simp: is_raw_def)
  also have "\<dots> = card {b \<in> written w. clen_of (g_index w ! b) = CBLK_SIZE}" using fin by (simp add: sum.If_cases Int_def)
  finally show "sum_list (map is_raw (g_index w)) = card {b \<in> written w. clen_of (g_index w ! b) = CBLK_SIZE}" .
qed

lemma written_bounds:
  assumes "store_wf en w"
  shows "card (written w) \<le> g_nblocks en" "(\<Sum>b \<in> written w. clen_of (g_index w ! b)) \<le> g_nblocks en * CBLK_SIZE"
proof -
  have sub: "written w \<subseteq> {..<g_nblocks en}" using assms by (auto simp: written_def store_wf_def)
  then show c: "card (written w) \<le> g_nblocks en" using card_mono [OF _ sub] by simp
  have "(\<Sum>b \<in> written w. clen_of (g_index w ! b)) \<le> of_nat (card (written w)) * CBLK_SIZE"
    by (rule sum_bounded_above) (use assms slot_fits_bounds(2) [OF assms] in \<open>auto simp: store_wf_def\<close>)
  also have "\<dots> \<le> g_nblocks en * CBLK_SIZE" using c by (simp add: mult_le_mono1)
  finally show "(\<Sum>b \<in> written w. clen_of (g_index w ! b)) \<le> g_nblocks en * CBLK_SIZE" .
qed

lemma counted_exact:
  assumes "store_wf en w" "g_nblocks en * CBLK_SIZE < 2 ^ 64"
  shows "counted w \<longleftrightarrow> exact w"
proof -
  have "card {b \<in> written w. clen_of (g_index w ! b) = CBLK_SIZE} \<le> card (written w)" by (rule card_mono) (auto simp: written_def)
  then have "card {b \<in> written w. clen_of (g_index w ! b) = CBLK_SIZE} < 2 ^ 64" "card (written w) < 2 ^ 64"
    using written_bounds(1) [OF assms(1)] assms(2) by simp_all
  moreover have "(\<Sum>b \<in> written w. clen_of (g_index w ! b)) < 2 ^ 64"
    using written_bounds(2) [OF assms(1)] assms(2) by (rule le_less_trans)
  ultimately show ?thesis by (simp add: counted_def exact_def tallies u64_small)
qed

lemma fresh_counted: "counted (world_boot en h d)"
proof -
  have "ent_clen 0 = 0" by (rule bit_word_eqI) (simp add: bit_ent_clen)
  then have "written (world_boot en h d) = {}" by (auto simp: written_def world_boot_def clen_of_def)
  then show ?thesis by (simp add: counted_def world_boot_def)
qed

interpretation demo_serve: steady_server demo "\<lambda>m. m" X for X
  by (simp add: steady_server_def steady_server_axioms_def demo.single_worker_axioms steady_def demo_env(1,2) demo_whole) (simp add: demo_def)

text \<open>
  Whatever a client sends, in whatever pieces and up to whatever point, with whatever failures of
  the socket and of the driver's copies: when @handle_client@ returns, the store satisfies its invariant again and
  the counters are exact.
\<close>

lemma client_keeps_store:
  assumes "steady en mem" "store_inv en mem X (sv_world s)" "counted (sv_world s)"
  shows "(\<exists>X'. store_inv en mem X' (sv_world (snd (handle_client en cf s)))) \<and> counted (sv_world (snd (handle_client en cf s)))"
proof -
  let ?w = "sv_world (snd (handle_client en cf s))"
  have e: "store_env en mem" "quiet en" "g_nblocks en * CBLK_SIZE < 2 ^ 64"
    using assms(1) by (auto simp: steady_def whole_blocks_def g_nblocks_def)
  note w = single_workerI [OF e(1,2)]
  have l: "steady_server en mem" using w assms(1) by (simp add: steady_server_def steady_server_axioms_def)
  have ok: "st_ok en mem (\<lambda>_. X) (\<lambda>_. UNIV) [] (sv_world s)" using assms(2) by (simp add: store_inv_def)
  have "single_worker.sound en mem X (sv_world s)"
    using single_worker.soundI [OF w ok] counted_exact [OF st_okD(1) [OF ok] e(3)] assms(3) by blast
  from steady_server.handle_client_sound [OF l this, of cf]
  obtain R where R: "st_ok en mem (\<lambda>_. X) (\<lambda>_. UNIV) (R @ []) ?w" "exact ?w" using single_worker.sound_def [OF w] by auto
  have "store_inv en mem (X \<union> holds R) ?w" unfolding store_inv_def by (rule st_ok_lose [OF R(1)])
  moreover have "counted ?w" using counted_exact [OF st_okD(1) [OF R(1)] e(3)] R(2) by blast
  ultimately show ?thesis by blast
qed

lemma demo_counted: "counted demo_world"
proof -
  obtain h where "store_init demo demo_host (\<lambda>_. 170) =
      (\<lparr>p_index = Some (idx_sz demo), p_ext = True, p_extbm = True\<rparr>, Some (world_boot demo h (\<lambda>_. 170)))"
    by (rule store_init_success [OF demo_env(4) demo_host_ok])
  then show ?thesis by (simp add: demo_world_def fresh_counted)
qed

end
