(* ===== verification/Report.thy ===== *)
theory Report
  imports Complex_Main Statistics Store_Counters
begin

text \<open>
  The statistics lines: @stats_log@ with @hsize@, the summary of the batching counters at the
  end of @main@, and the line @note_enospc@ logs at most once a second. A line is the record of the values it prints; the doubles the code divides are
  rationals here, before printf rounds them to one or two digits. The counters are read one after the
  other while the workers run: the function @seen@ gives the world at each read.
\<close>

section \<open>Figures\<close>

datatype human = GiB rat | MiB rat | KiB nat

definition hsize :: "nat \<Rightarrow> human" where
  "hsize b =
     (if b \<ge> 2 ^ 30 then GiB (of_nat b / 2 ^ 30) else if b \<ge> 2 ^ 20 then MiB (of_nat b / 2 ^ 20) else KiB (b div 2 ^ 10))"

text \<open>A quotient that is printed as 0 when there is nothing to divide by.\<close>

definition per :: "rat \<Rightarrow> nat \<Rightarrow> rat" where
  "per x n = (if n \<noteq> 0 then x / of_nat n else 0)"

record stats_line =
  l_stored :: human
  l_vram :: human
  l_ratio :: rat
  l_codec :: rat
  l_occupancy :: rat
  l_extents :: "nat \<times> nat \<times> nat"
  l_heap :: "human \<times> human"
  l_committed :: rat
  l_slack :: rat
  l_raw :: rat
  l_counts :: "nat \<times> nat \<times> nat"

definition stats_log :: "'d env \<Rightarrow> (nat \<Rightarrow> 'd world) \<Rightarrow> stats_line" where
  "stats_log en seen =
     (let blocks = g_blocks_live (seen 0);
          stored = u64 (blocks * CBLK_SIZE);
          codec = g_codec_bytes (seen 1);
          slots = g_slot_bytes (w_heap (seen 2));
          commit = heap_committed (w_heap (seen 3))
      in \<lparr>l_stored = hsize stored, l_vram = hsize commit, l_ratio = per (of_nat stored) commit, l_codec = per (of_nat stored) codec,
          l_occupancy = per (100 * of_nat (g_slot_bytes (w_heap (seen 5)))) (heap_committed (w_heap (seen 4))),
          l_extents = (g_extents_used (w_heap (seen 6)), g_n_extents (w_heap (seen 6)), g_extents_peak (w_heap (seen 7))),
          l_heap = (hsize commit, hsize (g_vram_size en)),
          l_committed = per (100 * of_nat commit) (g_vram_size en),
          l_slack = per (100 * of_nat (sub64 slots codec)) slots,
          l_raw = per (100 * of_nat (g_raw_blocks (seen 8))) blocks,
          l_counts = (g_enospc (seen 9), g_trim_blocks (seen 10), g_read_retry (seen 11))\<rparr>)"

section \<open>The heap's own figures\<close>

text \<open>@g_slot_bytes@ is the sum of the reservations.\<close>

lemma slots_of_extent:
  assumes "heap_core h" "ei < g_n_extents h"
  shows "(\<Sum>g \<in> {g \<in> dom (heap_map h). g div EXT_GRAINS h = ei}. the (heap_map h g)) = ext_bytes h ei"
proof (cases "e_used (g_ext h ! ei)")
  case False
  then have "{g \<in> dom (heap_map h). g div EXT_GRAINS h = ei} = {}" using heap_map_eq [OF _ assms(2)] by auto
  with False show ?thesis by (simp only: ext_bytes_def sum.empty if_False)
next
  case True
  let ?c = "e_cls (g_ext h ! ei)" and ?f = "\<lambda>s. ei * EXT_GRAINS h + s * (e_cls (g_ext h ! ei) + 1)"
  note cd = heap_coreD [OF assms(1)]
  have c: "?c < NCLASS" "e_nslots (g_ext h ! ei) = ext_nslots h ?c" using cd(2) assms(2) True by (auto simp: ext_ok_def Let_def)
  have lt: "s < ext_nslots h ?c" if "s \<in> used_slots h ei" for s using that c(2) by (simp add: used_slots_def)
  have map: "heap_map h (?f s) = Some (slot_size h ei)" if "s \<in> used_slots h ei" for s
    using heap_map_eq [OF grain_decode(1) [OF cd(1) c(1) lt [OF that]] assms(2)] grain_decode [OF cd(1) c(1) lt [OF that]] True that by simp
  have set: "{g \<in> dom (heap_map h). g div EXT_GRAINS h = ei} = ?f ` used_slots h ei"
  proof (intro set_eqI iffI)
    fix g assume "g \<in> {g \<in> dom (heap_map h). g div EXT_GRAINS h = ei}"
    then have g: "g div EXT_GRAINS h = ei" "g mod EXT_GRAINS h mod (?c + 1) = 0" "g mod EXT_GRAINS h div (?c + 1) \<in> used_slots h ei"
      using heap_map_eq [OF _ assms(2)] by (auto split: if_splits)
    show "g \<in> ?f ` used_slots h ei"
      by (rule image_eqI [OF _ g(3)]) (use grain_eq_iff [OF cd(1) c(1) lt [OF g(3)] g(1)] g(2) in simp)
  qed (use map grain_decode(1) [OF cd(1) c(1)] lt in auto)
  have inj: "inj_on ?f (used_slots h ei)"
  proof (rule inj_onI)
    fix x y assume "?f x = ?f y"
    then have "x * (?c + 1) = y * (?c + 1)" by (simp only: add_left_cancel)
    then show "x = y" by (simp only: mult_cancel2) simp
  qed
  show ?thesis unfolding set sum.reindex [OF inj] using map True by (simp add: ext_bytes_def)
qed

lemma slot_bytes_census:
  assumes "heap_inv h"
  shows "g_slot_bytes h = (\<Sum>g \<in> dom (heap_map h). the (heap_map h g))"
proof -
  have core: "heap_core h" using assms by (simp add: heap_inv_def)
  have "(\<lambda>g. g div EXT_GRAINS h) ` dom (heap_map h) \<subseteq> {..<g_n_extents h}" by (auto simp: heap_map_def Let_def split: if_splits)
  from sum.group [OF used_exts_le_reservations(1) [OF assms] _ this, of "\<lambda>g. the (heap_map h g)"]
  have "(\<Sum>g \<in> dom (heap_map h). the (heap_map h g)) = (\<Sum>ei < g_n_extents h. \<Sum>g \<in> {g \<in> dom (heap_map h). g div EXT_GRAINS h = ei}. the (heap_map h g))"
    by simp
  also have "\<dots> = heap_bytes h" unfolding heap_bytes_def by (rule sum.cong) (auto intro: slots_of_extent [OF core])
  finally show ?thesis using assms by (simp add: heap_inv_def)
qed

lemma slot_bytes_committed:
  assumes "heap_inv h"
  shows "g_slot_bytes h \<le> heap_committed h" "heap_committed h = g_extents_used h * EXTENT_SIZE h" "heap_committed h \<le> g_n_extents h * EXTENT_SIZE h"
proof -
  have core: "heap_core h" "g_slot_bytes h = heap_bytes h" using assms by (simp_all add: heap_inv_def)
  note cd = heap_coreD [OF core(1)]
  have le: "g_extents_used h \<le> g_n_extents h" using core(1) by (simp add: heap_core_def)
  have "g_n_extents h * EXTENT_SIZE h < 2 ^ 64"
    using extent_grains(5) [OF cd(1)] cd(1) by (simp add: shape_ok_def mult.commute)
  then have "g_extents_used h * EXTENT_SIZE h < 2 ^ 64" using mult_le_mono1 [OF le, of "EXTENT_SIZE h"] by (rule le_less_trans [rotated])
  then show c: "heap_committed h = g_extents_used h * EXTENT_SIZE h" by (simp only: heap_committed_def u64_small)
  then show "heap_committed h \<le> g_n_extents h * EXTENT_SIZE h" using mult_le_mono1 [OF le, of "EXTENT_SIZE h"] by simp
  have "heap_bytes h = (\<Sum>ei \<in> used_exts h. ext_bytes h ei)"
    unfolding heap_bytes_def by (rule sum.mono_neutral_right) (auto simp: used_exts_def ext_bytes_def)
  also have "\<dots> \<le> of_nat (card (used_exts h)) * EXTENT_SIZE h"
    by (rule sum_bounded_above) (use ext_bytes_le [OF cd(1)] cd(2) in \<open>auto simp: used_exts_def\<close>)
  also have "\<dots> = heap_committed h" using core(1) c by (simp add: heap_core_def)
  finally show "g_slot_bytes h \<le> heap_committed h" using core(2) by simp
qed

lemma committed_le_vram:
  assumes "store_wf en w"
  shows "heap_committed (w_heap w) \<le> g_vram_size en"
proof -
  from assms have inv: "heap_inv (w_heap w)" and "g_n_extents (w_heap w) * EXTENT_SIZE (w_heap w) \<le> g_vram_size en"
    by (auto simp: store_wf_def heap_geom_def EXTENT_SIZE_def)
  with slot_bytes_committed(3) [OF inv] show ?thesis by simp
qed

section \<open>What the line says\<close>

text \<open>The stored bytes of the written blocks fit into their slots.\<close>

lemma codec_le_slots:
  assumes "store_wf en w"
  shows "(\<Sum>b \<in> written w. clen_of (g_index w ! b)) \<le> g_slot_bytes (w_heap w)"
proof -
  let ?g = "\<lambda>b. grain_of (g_index w ! b)" and ?m = "heap_map (w_heap w)"
  have inv: "heap_inv (w_heap w)" and inj: "inj_on ?g (written w)" using assms by (simp_all add: store_wf_def)
  have fit: "\<exists>sb. ?m (?g b) = Some sb \<and> clen_of (g_index w ! b) \<le> sb" if "b \<in> written w" for b
    using assms that by (simp add: store_wf_def slot_fits_def)
  have "(\<Sum>b \<in> written w. clen_of (g_index w ! b)) \<le> (\<Sum>b \<in> written w. the (?m (?g b)))"
    by (rule sum_mono) (use fit in force)
  also have "\<dots> = (\<Sum>g \<in> ?g ` written w. the (?m g))" by (simp add: sum.reindex [OF inj])
  also have "\<dots> \<le> (\<Sum>g \<in> dom ?m. the (?m g))"
    by (rule sum_mono2 [OF used_exts_le_reservations(1) [OF inv]]) (use fit in auto)
  finally show ?thesis using slot_bytes_census [OF inv] by simp
qed

lemma per_le: "a \<le> b \<Longrightarrow> 0 \<le> per (100 * of_nat a) b \<and> per (100 * of_nat a) b \<le> 100"
  by (auto simp: per_def divide_le_eq)

lemma per_ge: "n \<noteq> 0 \<Longrightarrow> n \<le> a \<Longrightarrow> 1 \<le> per (of_nat a) n"
  by (simp add: per_def)



text \<open>
  Read while workers run, the figures belong to different moments. Then the subtraction can wrap: a TRIM between the
  reads of @g_codec_bytes@ and @g_slot_bytes@ may leave fewer slot bytes than the codec bytes read before, and the line
  shows a slack of more than 100 percent.
\<close>

lemma slack_torn:
  assumes "0 < g_slot_bytes (w_heap (seen 2))" "g_slot_bytes (w_heap (seen 2)) < g_codec_bytes (seen 1)"
    and "g_codec_bytes (seen 1) < 2 ^ 63" "g_slot_bytes (w_heap (seen 2)) < 2 ^ 36"
  shows "l_slack (stats_log en seen) > 100"
proof -
  let ?s = "g_slot_bytes (w_heap (seen 2))" and ?c = "g_codec_bytes (seen 1)"
  have "sub64 ?s ?c = ?s + 2 ^ 64 - ?c" using assms(2,3) by (simp add: sub64_def)
  then have "?s < sub64 ?s ?c" using assms(3) by simp
  then have "(100 :: rat) * of_nat ?s < 100 * of_nat (sub64 ?s ?c)" by simp
  then show ?thesis using assms(1) by (simp add: stats_log_def Let_def per_def less_divide_eq)
qed

section \<open>The batching summary\<close>

text \<open>What @main@ prints of the batching counters when @g_batch_debug@ is set.\<close>

record batch_summary =
  b_flushes :: "nat \<times> nat \<times> rat"
  b_coalesced :: "nat \<times> nat \<times> rat"
  b_legacy :: "nat \<times> rat \<times> nat"
  b_copies :: "nat \<times> rat \<times> rat"

definition debug_summary :: "'d srv \<Rightarrow> batch_summary" where
  "debug_summary s =
     (let total = u64 (g_flush_ops s + g_legacy_ops s)
      in \<lparr>b_flushes = (g_flush_count s, g_flush_ops s, per (of_nat (g_flush_ops s)) (g_flush_count s)),
          b_coalesced = (g_batch_count s, g_batch_ops s, per (of_nat (g_batch_ops s)) (g_batch_count s)),
          b_legacy = (g_legacy_ops s, per (100 * of_nat (g_legacy_ops s)) total, total),
          b_copies = (g_flush_copies s, per (of_nat (g_flush_copies s)) (g_flush_count s), per (of_nat (g_flush_copies s)) (g_flush_ops s))\<rparr>)"

text \<open>Short of a wrap, every flush carries a request and every coalesced flush two.\<close>

definition flushes_ok :: "'d srv \<Rightarrow> bool" where
  "flushes_ok s \<longleftrightarrow> g_flush_count s \<le> g_flush_ops s \<and> 2 * g_batch_count s \<le> g_batch_ops s \<and>
     g_batch_count s \<le> g_flush_count s \<and> g_batch_ops s \<le> g_flush_ops s"

lemma count_flush_ok:
  assumes "flushes_ok s" "1 \<le> nreq" "g_flush_ops s + nreq < 2 ^ 64"
  shows "flushes_ok (count_flush cf nreq nops s)"
  using assms by (auto simp: flushes_ok_def count_flush_def Let_def u64_small)

lemma debug_summary_averages:
  assumes "flushes_ok s" "g_batch_count s \<noteq> 0"
  shows "1 \<le> snd (snd (b_flushes (debug_summary s)))" "2 \<le> snd (snd (b_coalesced (debug_summary s)))"
proof -
  have "(2 :: rat) * of_nat (g_batch_count s) \<le> of_nat (g_batch_ops s)"
    using assms(1) by (metis flushes_ok_def of_nat_le_iff of_nat_mult of_nat_numeral)
  with assms show "1 \<le> snd (snd (b_flushes (debug_summary s)))" "2 \<le> snd (snd (b_coalesced (debug_summary s)))"
    by (auto simp: debug_summary_def Let_def per_def flushes_ok_def le_divide_eq)
qed

section \<open>The log line of note_enospc\<close>

text \<open>
  The static variable @last@ holds the second of the latest line; the line gives the committed and the whole VRAM in MiB.
  The counter @g_enospc@ is advanced by every call (@note_enospc@ of the block store).
\<close>

definition enospc_line :: "'d env \<Rightarrow> nat \<Rightarrow> nat \<Rightarrow> 'd world \<Rightarrow> (nat \<times> nat) option \<times> nat" where
  "enospc_line en now last_t w =
     (if now \<noteq> last_t then (Some (heap_committed (w_heap w) div 2 ^ 20, g_vram_size en div 2 ^ 20), now) else (None, last_t))"

fun enospc_lines :: "'d env \<Rightarrow> (nat \<times> 'd world) list \<Rightarrow> nat \<Rightarrow> (nat \<times> nat) list" where
  "enospc_lines en [] last_t = []"
| "enospc_lines en ((now, w) # calls) last_t =
     (case enospc_line en now last_t w of
        (None, l) \<Rightarrow> enospc_lines en calls l
      | (Some x, l) \<Rightarrow> x # enospc_lines en calls l)"

text \<open>Under a clock that does not run backwards there is one line for each second in which a write was refused.\<close>

lemma enospc_once_a_second:
  assumes "sorted (map fst calls)" "\<forall>t \<in> fst ` set calls. last_t \<le> t"
  shows "length (enospc_lines en calls last_t) = card (fst ` set calls - {last_t})"
  using assms
proof (induction en calls last_t rule: enospc_lines.induct)
  case (2 en now w calls last_t)
  show ?case
  proof (cases "now = last_t")
    case True
    then show ?thesis using 2 by (simp add: enospc_line_def)
  next
    case False
    have "last_t \<notin> fst ` set calls" using 2(3,4) False by fastforce
    then have "fst ` set ((now, w) # calls) - {last_t} = insert now (fst ` set calls - {now})" using False by auto
    moreover have "length (enospc_lines en calls now) = card (fst ` set calls - {now})" using 2 False by (auto simp: enospc_line_def)
    moreover have "card (insert now (fst ` set calls - {now})) = Suc (card (fst ` set calls - {now}))" by (rule card_insert_disjoint) auto
    ultimately show ?thesis using False by (simp add: enospc_line_def del: insert_Diff_single)
  qed
qed simp

text \<open>Every printed figure is at most the size of the VRAM.\<close>

lemma enospc_line_figures:
  assumes "store_wf en w" "enospc_line en now last_t w = (Some (c, v), l)"
  shows "c \<le> v"
  using committed_le_vram [OF assms(1)] assms(2) by (auto simp: enospc_line_def div_le_mono split: if_splits)

end
