(* ===== verification/Lifecycle.thy ===== *)
theory Lifecycle
  imports Nbd_Prelude
begin

text \<open>
  The life of the daemon once its workers are started: @thread_worker@, @sig_handler@,
  @clients_connected@ and the joining end of @main@, as a step relation over the globals
  @g_running@, @g_term_requested@, @g_client_fds@ and @g_worker_failed@. Every access to a
  global is a step of its own, so all interleavings of workers, signal handlers and the main
  thread are runs. A client of the daemon is the kernel's swap device: the point of the design
  is that a SIGTERM must not take the VRAM away from a client that is attached.
\<close>

section \<open>State\<close>

text \<open>
  Where a worker thread is. @Scan k@ is @clients_connected@ about to look at slot @k@ (lines
  1946-1947), @Drained@ stands before line 1948, @Record@ between accept and line 1967;
  @Greet@, @Look@ and @Serve@ are inside @handle_client@: in the handshake, at its loop test,
  and waiting for or handling a request.
\<close>

datatype wpc =
    Init | Loop | Term_Test | Scan nat | Drained | Nap | Poll | Accept | Record nat
  | Greet nat | Look nat | Serve nat | Clear nat | Close nat | Fini | Init_Failed | Mark_Failed | Exited

text \<open>
  Where an invocation of the signal handler is: @H_Scan k@ is @clients_connected@ at slot @k@, @H_Stop@ stands before
  line 720, @H_Fd k@ reads slot @k@ of line 726 and @H_Shutdown k fd@ stands before the shutdown of line 727.
\<close>

datatype hpc = H_Idle | H_Term | H_Scan nat | H_Stop | H_Fd nat | H_Shutdown nat int

datatype mpc = Joining nat | Joined | Returned nat

record daemon =
  g_nbd_threads :: nat
  g_running :: bool
  g_term_requested :: bool
  g_client_fds :: "nat \<Rightarrow> int"
  g_worker_failed :: bool
  wpc :: "nat \<Rightarrow> wpc"
  hpc :: "nat \<Rightarrow> hpc"
  mpc :: mpc
  shut :: "int set"

text \<open>The workers are created; main is about to join the first one.\<close>

definition started :: "nat \<Rightarrow> daemon" where
  "started n =
     \<lparr>g_nbd_threads = n, g_running = True, g_term_requested = False, g_client_fds = (\<lambda>_. -1), g_worker_failed = False,
      wpc = (\<lambda>_. Init), hpc = (\<lambda>_. H_Idle), mpc = Joining 0, shut = {}\<rparr>"

abbreviation goto :: "nat \<Rightarrow> wpc \<Rightarrow> daemon \<Rightarrow> daemon" where
  "goto i p s \<equiv> s\<lparr>wpc := (wpc s)(i := p)\<rparr>"

abbreviation hgoto :: "nat \<Rightarrow> hpc \<Rightarrow> daemon \<Rightarrow> daemon" where
  "hgoto k p s \<equiv> s\<lparr>hpc := (hpc s)(k := p)\<rparr>"

section \<open>Steps\<close>

text \<open>
  One step of worker @i@. The outcome of @worker_init@, of poll and accept, of the handshake and of a request is the
  environment's choice: @handle_client@ keeps its client until the client goes, the connection breaks, or it finds
  @g_running@ zero at its loop test. A descriptor that accept returns is not in use by another worker. On a socket
  that was shut down no further request arrives; shutting down a descriptor that is no longer open does nothing.
\<close>

definition fd_of :: "wpc \<Rightarrow> nat option" where
  "fd_of p = (case p of Record fd \<Rightarrow> Some fd | Greet fd \<Rightarrow> Some fd | Look fd \<Rightarrow> Some fd | Serve fd \<Rightarrow> Some fd
     | Clear fd \<Rightarrow> Some fd | Close fd \<Rightarrow> Some fd | _ \<Rightarrow> None)"

inductive wstep :: "nat \<Rightarrow> daemon \<Rightarrow> daemon \<Rightarrow> bool" for i :: nat where
  init_ok: "wpc s i = Init \<Longrightarrow> wstep i s (goto i Loop s)"
| init_fails: "wpc s i = Init \<Longrightarrow> wstep i s (goto i Init_Failed s)"
| fini_failed: "wpc s i = Init_Failed \<Longrightarrow> wstep i s (goto i Mark_Failed s)"
| mark_failed: "wpc s i = Mark_Failed \<Longrightarrow> wstep i s (goto i Exited (s\<lparr>g_worker_failed := True\<rparr>))"
| loop_on: "wpc s i = Loop \<Longrightarrow> g_running s \<Longrightarrow> wstep i s (goto i Term_Test s)"
| loop_off: "wpc s i = Loop \<Longrightarrow> \<not> g_running s \<Longrightarrow> wstep i s (goto i Fini s)"
| term_seen: "wpc s i = Term_Test \<Longrightarrow> g_term_requested s \<Longrightarrow> wstep i s (goto i (Scan 0) s)"
| no_term: "wpc s i = Term_Test \<Longrightarrow> \<not> g_term_requested s \<Longrightarrow> wstep i s (goto i Poll s)"
| scan_client: "wpc s i = Scan k \<Longrightarrow> k < g_nbd_threads s \<Longrightarrow> 0 \<le> g_client_fds s k \<Longrightarrow> wstep i s (goto i Nap s)"
| scan_next: "wpc s i = Scan k \<Longrightarrow> k < g_nbd_threads s \<Longrightarrow> g_client_fds s k < 0 \<Longrightarrow> wstep i s (goto i (Scan (Suc k)) s)"
| scan_end: "wpc s i = Scan k \<Longrightarrow> \<not> k < g_nbd_threads s \<Longrightarrow> wstep i s (goto i Drained s)"
| drained: "wpc s i = Drained \<Longrightarrow> wstep i s (goto i Fini (s\<lparr>g_running := False\<rparr>))"
| nap: "wpc s i = Nap \<Longrightarrow> wstep i s (goto i Loop s)"
| poll_none: "wpc s i = Poll \<Longrightarrow> wstep i s (goto i Loop s)"
| poll_some: "wpc s i = Poll \<Longrightarrow> wstep i s (goto i Accept s)"
| accept_again: "wpc s i = Accept \<Longrightarrow> wstep i s (goto i Loop s)"
| accept_error: "wpc s i = Accept \<Longrightarrow> wstep i s (goto i Fini s)"
| accept_ok: "wpc s i = Accept \<Longrightarrow> \<forall>j. fd_of (wpc s j) \<noteq> Some fd \<Longrightarrow> wstep i s (goto i (Record fd) s)"
| record_fd: "wpc s i = Record fd \<Longrightarrow> wstep i s (goto i (Greet fd) (s\<lparr>g_client_fds := (g_client_fds s)(i := int fd)\<rparr>))"
| greeted: "wpc s i = Greet fd \<Longrightarrow> int fd \<notin> shut s \<Longrightarrow> wstep i s (goto i (Look fd) s)"
| greet_fails: "wpc s i = Greet fd \<Longrightarrow> wstep i s (goto i (Clear fd) s)"
| look_on: "wpc s i = Look fd \<Longrightarrow> g_running s \<Longrightarrow> wstep i s (goto i (Serve fd) s)"
| look_off: "wpc s i = Look fd \<Longrightarrow> \<not> g_running s \<Longrightarrow> wstep i s (goto i (Clear fd) s)"
| served: "wpc s i = Serve fd \<Longrightarrow> int fd \<notin> shut s \<Longrightarrow> wstep i s (goto i (Look fd) s)"
| client_gone: "wpc s i = Serve fd \<Longrightarrow> wstep i s (goto i (Clear fd) s)"
| clear_fd: "wpc s i = Clear fd \<Longrightarrow> wstep i s (goto i (Close fd) (s\<lparr>g_client_fds := (g_client_fds s)(i := -1)\<rparr>))"
| close_fd: "wpc s i = Close fd \<Longrightarrow> wstep i s (goto i Loop (s\<lparr>shut := shut s - {int fd}\<rparr>))"
| fini: "wpc s i = Fini \<Longrightarrow> wstep i s (goto i Exited s)"

text \<open>One step of signal handler invocation @k@; any number of them may be under way in different threads.\<close>

inductive hstep :: "nat \<Rightarrow> daemon \<Rightarrow> daemon \<Rightarrow> bool" for k :: nat where
  deliver: "hpc s k = H_Idle \<Longrightarrow> hstep k s (hgoto k H_Term s)"
| set_term: "hpc s k = H_Term \<Longrightarrow> hstep k s (hgoto k (H_Scan 0) (s\<lparr>g_term_requested := True\<rparr>))"
| deferred: "hpc s k = H_Scan j \<Longrightarrow> j < g_nbd_threads s \<Longrightarrow> 0 \<le> g_client_fds s j \<Longrightarrow> hstep k s (hgoto k H_Idle s)"
| no_client: "hpc s k = H_Scan j \<Longrightarrow> j < g_nbd_threads s \<Longrightarrow> g_client_fds s j < 0 \<Longrightarrow> hstep k s (hgoto k (H_Scan (Suc j)) s)"
| no_clients: "hpc s k = H_Scan j \<Longrightarrow> \<not> j < g_nbd_threads s \<Longrightarrow> hstep k s (hgoto k H_Stop s)"
| stop: "hpc s k = H_Stop \<Longrightarrow> hstep k s (hgoto k (H_Fd 0) (s\<lparr>g_running := False\<rparr>))"
| read_fd: "hpc s k = H_Fd j \<Longrightarrow> j < g_nbd_threads s \<Longrightarrow> hstep k s (hgoto k (H_Shutdown j (g_client_fds s j)) s)"
| all_shut: "hpc s k = H_Fd j \<Longrightarrow> \<not> j < g_nbd_threads s \<Longrightarrow> hstep k s (hgoto k H_Idle s)"
| shut_fd: "hpc s k = H_Shutdown j fd \<Longrightarrow> 0 \<le> fd \<Longrightarrow> hstep k s (hgoto k (H_Fd (Suc j)) (s\<lparr>shut := shut s \<union> {fd. \<exists>i. fd_of (wpc s i) = Some (nat fd)} \<inter> {fd}\<rparr>))"
| skip_fd: "hpc s k = H_Shutdown j fd \<Longrightarrow> fd < 0 \<Longrightarrow> hstep k s (hgoto k (H_Fd (Suc j)) s)"

text \<open>The main thread joins the workers in order, stops the stats thread and returns its exit code.\<close>

inductive mstep :: "daemon \<Rightarrow> daemon \<Rightarrow> bool" where
  join: "mpc s = Joining i \<Longrightarrow> i < g_nbd_threads s \<Longrightarrow> wpc s i = Exited \<Longrightarrow> mstep s (s\<lparr>mpc := Joining (Suc i)\<rparr>)"
| joined: "mpc s = Joining i \<Longrightarrow> \<not> i < g_nbd_threads s \<Longrightarrow> mstep s (s\<lparr>g_running := False, mpc := Joined\<rparr>)"
| main_returns: "mpc s = Joined \<Longrightarrow> mstep s (s\<lparr>mpc := Returned (if g_worker_failed s then 1 else 0)\<rparr>)"

inductive dstep :: "daemon \<Rightarrow> daemon \<Rightarrow> bool" where
  worker: "i < g_nbd_threads s \<Longrightarrow> wstep i s t \<Longrightarrow> dstep s t"
| handler: "hstep k s t \<Longrightarrow> dstep s t"
| main: "mstep s t \<Longrightarrow> dstep s t"

inductive alive :: "nat \<Rightarrow> daemon \<Rightarrow> bool" for n :: nat where
  start: "alive n (started n)"
| step: "alive n s \<Longrightarrow> dstep s t \<Longrightarrow> alive n t"

inductive_cases dstepE: "dstep s t"

section \<open>Invariants\<close>

text \<open>The descriptor a worker has recorded as its client's.\<close>

definition client_of :: "wpc \<Rightarrow> nat option" where
  "client_of p = (case p of Greet fd \<Rightarrow> Some fd | Look fd \<Rightarrow> Some fd | Serve fd \<Rightarrow> Some fd | Clear fd \<Rightarrow> Some fd | _ \<Rightarrow> None)"

definition slots_match :: "nat \<Rightarrow> daemon \<Rightarrow> bool" where
  "slots_match n s \<longleftrightarrow> g_nbd_threads s = n \<and> (\<forall>i \<ge> n. wpc s i = Init) \<and>
     (\<forall>i. g_client_fds s i = (case client_of (wpc s i) of Some fd \<Rightarrow> int fd | None \<Rightarrow> -1))"

definition quiet_before_term :: "daemon \<Rightarrow> bool" where
  "quiet_before_term s \<longleftrightarrow> g_term_requested s \<or>
     (\<forall>k. hpc s k \<in> {H_Idle, H_Term}) \<and> (\<forall>i. wpc s i \<noteq> Drained \<and> (\<forall>j. wpc s i \<noteq> Scan j)) \<and> shut s = {} \<and>
     (g_running s \<or> mpc s = Joined \<or> (\<exists>r. mpc s = Returned r))"

definition joined_exited :: "daemon \<Rightarrow> bool" where
  "joined_exited s \<longleftrightarrow> (\<forall>i. (case mpc s of Joining k \<Rightarrow> i < k \<and> i < g_nbd_threads s | _ \<Rightarrow> i < g_nbd_threads s) \<longrightarrow> wpc s i = Exited) \<and>
     (\<forall>r. mpc s = Returned r \<longrightarrow> r = (if g_worker_failed s then 1 else 0))"

lemmas lifecycle_defs = slots_match_def quiet_before_term_def joined_exited_def client_of_def

lemma wstep_slots: "wstep i s t \<Longrightarrow> i < n \<Longrightarrow> slots_match n s \<Longrightarrow> slots_match n t"
  by (induction rule: wstep.induct) (auto simp: slots_match_def client_of_def split: wpc.splits)

lemma wstep_quiet: "wstep i s t \<Longrightarrow> quiet_before_term s \<Longrightarrow> quiet_before_term t"
  by (induction rule: wstep.induct) (auto simp: quiet_before_term_def)

lemma wstep_joined: "wstep i s t \<Longrightarrow> i < g_nbd_threads s \<Longrightarrow> joined_exited s \<Longrightarrow> joined_exited t"
  by (induction rule: wstep.induct) (auto simp: joined_exited_def split: mpc.splits if_splits)

lemma hstep_frame: "hstep k s t \<Longrightarrow> g_nbd_threads t = g_nbd_threads s \<and> wpc t = wpc s \<and> g_client_fds t = g_client_fds s \<and>
    mpc t = mpc s \<and> g_worker_failed t = g_worker_failed s"
  by (induction rule: hstep.induct) auto

lemma quiet_handler: "quiet_before_term s \<Longrightarrow> g_term_requested s \<or> hpc s k = H_Idle \<or> hpc s k = H_Term"
  by (auto simp: quiet_before_term_def)

lemma hstep_quiet: "hstep k s t \<Longrightarrow> quiet_before_term s \<Longrightarrow> quiet_before_term t"
  by (frule quiet_handler [of s k], induction rule: hstep.induct) (auto simp: quiet_before_term_def)

lemma mstep_frame: "mstep s t \<Longrightarrow> g_nbd_threads t = g_nbd_threads s \<and> wpc t = wpc s \<and> hpc t = hpc s \<and> g_client_fds t = g_client_fds s \<and>
    shut t = shut s \<and> g_term_requested t = g_term_requested s \<and> g_worker_failed t = g_worker_failed s"
  by (induction rule: mstep.induct) auto

lemma mstep_quiet: "mstep s t \<Longrightarrow> quiet_before_term s \<Longrightarrow> quiet_before_term t"
  by (induction rule: mstep.induct) (auto simp: quiet_before_term_def)

lemma mstep_joined: "mstep s t \<Longrightarrow> joined_exited s \<Longrightarrow> joined_exited t"
  by (induction rule: mstep.induct) (auto simp: joined_exited_def less_Suc_eq)

definition daemon_inv :: "nat \<Rightarrow> daemon \<Rightarrow> bool" where
  "daemon_inv n s \<longleftrightarrow> slots_match n s \<and> quiet_before_term s \<and> joined_exited s"

lemma daemon_inv_step: "dstep s t \<Longrightarrow> daemon_inv n s \<Longrightarrow> daemon_inv n t"
proof (induction rule: dstep.induct)
  case (worker i s t)
  then have "i < n" by (simp add: daemon_inv_def slots_match_def)
  with worker show ?case using wstep_slots wstep_quiet wstep_joined by (simp add: daemon_inv_def)
next
  case (handler k s t)
  with hstep_frame [OF handler(1)] hstep_quiet [OF handler(1)] show ?case
    by (simp add: daemon_inv_def slots_match_def joined_exited_def cong: mpc.case_cong)
next
  case (main s t)
  with mstep_frame [OF main(1)] mstep_quiet [OF main(1)] mstep_joined [OF main(1)] show ?case
    by (simp add: daemon_inv_def slots_match_def)
qed

lemma alive_inv: "alive n s \<Longrightarrow> daemon_inv n s"
proof (induction rule: alive.induct)
  case start
  show ?case by (simp add: daemon_inv_def lifecycle_defs started_def)
next
  case (step s t)
  then show ?case by (blast intro: daemon_inv_step)
qed

section \<open>A client attached before SIGTERM is never cut off\<close>

text \<open>A step through which worker @i@ keeps its client recorded.\<close>

definition keeps :: "nat \<Rightarrow> daemon \<Rightarrow> daemon \<Rightarrow> bool" where
  "keeps i s t \<longleftrightarrow> dstep s t \<and> 0 \<le> g_client_fds t i"

text \<open>No scan of the client slots has passed slot @i@ and nothing has been stopped.\<close>

definition guarded :: "nat \<Rightarrow> daemon \<Rightarrow> bool" where
  "guarded i s \<longleftrightarrow> g_running s \<and> shut s = {} \<and> 0 \<le> g_client_fds s i \<and>
     (\<forall>k. case hpc s k of H_Scan j \<Rightarrow> j \<le> i | H_Idle \<Rightarrow> True | H_Term \<Rightarrow> True | _ \<Rightarrow> False) \<and>
     (\<forall>w. case wpc s w of Scan j \<Rightarrow> j \<le> i | Drained \<Rightarrow> False | _ \<Rightarrow> True)"

lemma client_slot: "slots_match n s \<Longrightarrow> 0 \<le> g_client_fds s i \<Longrightarrow> i < n \<and> wpc s i \<noteq> Exited"
  by (rule conjI, rule ccontr) (auto simp: slots_match_def client_of_def)

lemma wstep_guarded:
  assumes "wstep w s t" "guarded i s" "slots_match n s" "0 \<le> g_client_fds t i"
  shows "guarded i t \<and> g_client_fds t i = g_client_fds s i"
proof -
  have i: "i < g_nbd_threads s" using assms(2,3) client_slot by (auto simp: guarded_def slots_match_def)
  have w: "case wpc s w of Scan j \<Rightarrow> j \<le> i | Drained \<Rightarrow> False | _ \<Rightarrow> True" "0 \<le> g_client_fds s i" "g_running s" "shut s = {}"
    using assms(2) by (simp_all add: guarded_def)
  have c: "g_client_fds s w = (case client_of (wpc s w) of Some fd \<Rightarrow> int fd | None \<Rightarrow> -1)" using assms(3) by (simp add: slots_match_def)
  show ?thesis using assms(1,2,4) i w c
    by (induction rule: wstep.induct) (auto simp: guarded_def client_of_def le_less Suc_le_eq split: if_splits)
qed

lemma hstep_guarded:
  assumes "hstep k s t" "guarded i s" "i < g_nbd_threads s"
  shows "guarded i t"
proof -
  have k: "case hpc s k of H_Scan j \<Rightarrow> j \<le> i | H_Idle \<Rightarrow> True | H_Term \<Rightarrow> True | _ \<Rightarrow> False" "0 \<le> g_client_fds s i"
    using assms(2) by (simp_all add: guarded_def)
  show ?thesis using assms k by (induction rule: hstep.induct) (auto simp: guarded_def le_less Suc_le_eq)
qed

lemma mstep_guarded:
  assumes "mstep s t" "guarded i s" "daemon_inv n s"
  shows "guarded i t"
proof -
  have "0 \<le> g_client_fds s i" using assms(2) by (simp add: guarded_def)
  with assms(3) have "i < n" "wpc s i \<noteq> Exited" "g_nbd_threads s = n" "joined_exited s"
    using client_slot by (auto simp: daemon_inv_def slots_match_def)
  with assms(1,2) show ?thesis
    by (induction rule: mstep.induct) (auto simp: guarded_def joined_exited_def)
qed

lemma keeps_guarded:
  assumes "keeps i s t" "guarded i s" "daemon_inv n s"
  shows "guarded i t \<and> daemon_inv n t \<and> g_client_fds t i = g_client_fds s i"
proof -
  have s: "slots_match n s" using assms(3) by (simp add: daemon_inv_def)
  have i: "i < g_nbd_threads s" using assms(2) client_slot [OF s] s by (simp add: guarded_def slots_match_def)
  from assms(1) have d: "dstep s t" "0 \<le> g_client_fds t i" by (simp_all add: keeps_def)
  from d(1) have "guarded i t \<and> g_client_fds t i = g_client_fds s i"
  proof (cases rule: dstep.cases)
    case (worker w)
    then show ?thesis using wstep_guarded [OF _ assms(2) s d(2)] by simp
  next
    case (handler k)
    then show ?thesis using hstep_guarded [OF _ assms(2) i] hstep_frame by simp
  next
    case main
    then show ?thesis using mstep_guarded [OF _ assms(2,3)] mstep_frame by simp
  qed
  with daemon_inv_step [OF d(1) assms(3)] show ?thesis by simp
qed

lemma attached_guarded:
  assumes "alive n s" "\<not> g_term_requested s" "0 \<le> g_client_fds s i"
  shows "guarded i s"
proof -
  have inv: "daemon_inv n s" using assms(1) by (rule alive_inv)
  with assms(3) have i: "i < n" "wpc s i \<noteq> Exited" "g_nbd_threads s = n" using client_slot by (auto simp: daemon_inv_def slots_match_def)
  have q: "\<forall>k. hpc s k \<in> {H_Idle, H_Term}" "\<forall>w. wpc s w \<noteq> Drained \<and> (\<forall>j. wpc s w \<noteq> Scan j)" "shut s = {}"
      "g_running s \<or> mpc s = Joined \<or> (\<exists>r. mpc s = Returned r)"
    using inv assms(2) by (auto simp: daemon_inv_def quiet_before_term_def)
  have "g_running s" using q(4) inv i by (auto simp: daemon_inv_def joined_exited_def)
  moreover have "case hpc s k of H_Scan j \<Rightarrow> j \<le> i | H_Idle \<Rightarrow> True | H_Term \<Rightarrow> True | _ \<Rightarrow> False" for k
    using q(1) by (auto split: hpc.splits) (metis hpc.distinct insert_iff singletonD)+
  moreover have "case wpc s w of Scan j \<Rightarrow> j \<le> i | Drained \<Rightarrow> False | _ \<Rightarrow> True" for w
    using q(2) by (simp split: wpc.splits)
  ultimately show ?thesis using assms(3) q(3) by (simp add: guarded_def)
qed

lemma keeps_run:
  assumes "(keeps i)\<^sup>*\<^sup>* s t" "guarded i s" "daemon_inv n s"
  shows "guarded i t \<and> daemon_inv n t \<and> g_client_fds t i = g_client_fds s i"
  using assms by (induction rule: rtranclp_induct) (auto dest: keeps_guarded)

text \<open>
  C10. A client that is attached when the first SIGTERM arrives is not cut off: as long as it stays
  attached, whatever the workers, any number of signal handlers and the main thread do, the
  daemon keeps running and its socket is not shut down.
\<close>

theorem drain_protects_clients:
  assumes "alive n s" "\<not> g_term_requested s" "0 \<le> g_client_fds s i" "(keeps i)\<^sup>*\<^sup>* s t"
  shows "g_running t \<and> g_client_fds t i = g_client_fds s i \<and> g_client_fds t i \<notin> shut t \<and> (\<forall>r. mpc t \<noteq> Returned r)"
proof -
  note g = keeps_run [OF assms(4) attached_guarded [OF assms(1-3)] alive_inv [OF assms(1)]]
  then have m: "slots_match n t" "0 \<le> g_client_fds t i" by (simp_all add: guarded_def daemon_inv_def)
  have "i < n \<and> wpc t i \<noteq> Exited \<and> g_nbd_threads t = n" using client_slot [OF m] m(1) by (simp add: slots_match_def)
  with g show ?thesis by (auto simp: guarded_def daemon_inv_def joined_exited_def)
qed


text \<open>One worker whose client, on descriptor 5, has shaken hands and is being served.\<close>

definition serving :: daemon where
  "serving = (started 1)\<lparr>g_client_fds := (\<lambda>_. -1)(0 := 5), wpc := (\<lambda>_. Init)(0 := Serve 5)\<rparr>"

lemma alive_worker: "alive n s \<Longrightarrow> wstep i s t \<Longrightarrow> i < n \<Longrightarrow> alive n t"
proof -
  assume a: "alive n s" and w: "wstep i s t" "i < n"
  have "g_nbd_threads s = n" using alive_inv [OF a] by (simp add: daemon_inv_def slots_match_def)
  then show "alive n t" using alive.step [OF a dstep.worker] w by simp
qed

lemma alive_handler: "alive n s \<Longrightarrow> hstep k s t \<Longrightarrow> alive n t"
  by (rule alive.step, assumption, rule dstep.handler)

text \<open>A worker that is in its loop can take a connection while no SIGTERM is pending.\<close>

lemma at_poll:
  assumes "alive n s" "i < n" "wpc s i = Init" "g_running s" "\<not> g_term_requested s"
  shows "alive n (goto i Poll s)"
proof -
  have "alive n (goto i Loop s)" by (rule alive_worker [OF assms(1) wstep.init_ok [OF assms(3)] assms(2)])
  from alive_worker [OF this wstep.loop_on assms(2)] assms(4) have "alive n (goto i Term_Test s)" by simp
  from alive_worker [OF this wstep.no_term assms(2)] assms(5) show ?thesis by simp
qed

lemma take_client:
  assumes "alive n s" "i < n" "wpc s i = Poll" "g_running s" "shut s = {}" "\<forall>j. fd_of (wpc s j) \<noteq> Some fd"
  shows "alive n (s\<lparr>g_client_fds := (g_client_fds s)(i := int fd), wpc := (wpc s)(i := Serve fd)\<rparr>)"
proof -
  have "alive n (goto i Accept s)" by (rule alive_worker [OF assms(1) wstep.poll_some [OF assms(3)] assms(2)])
  from alive_worker [OF this wstep.accept_ok [of _ i fd] assms(2)] assms(6) have "alive n (goto i (Record fd) s)"
    by (simp add: fd_of_def)
  from alive_worker [OF this wstep.record_fd [of _ i fd] assms(2)]
  have "alive n (s\<lparr>g_client_fds := (g_client_fds s)(i := int fd), wpc := (wpc s)(i := Greet fd)\<rparr>)" by simp
  from alive_worker [OF this wstep.greeted [of _ i fd] assms(2)] assms(5)
  have "alive n (s\<lparr>g_client_fds := (g_client_fds s)(i := int fd), wpc := (wpc s)(i := Look fd)\<rparr>)" by simp
  from alive_worker [OF this wstep.look_on [of _ i fd] assms(2)] assms(4) show ?thesis by simp
qed

lemma serving_alive: "alive 1 serving"
proof -
  have "alive 1 (goto 0 Poll (started 1))" by (rule at_poll [OF alive.start]) (simp_all add: started_def)
  from take_client [OF this, of 0 5] show ?thesis by (simp add: started_def serving_def fd_of_def fun_upd_def cong: if_cong)
qed

theorem drain_protects_clients_witness:
  "\<exists>t. (keeps 0)\<^sup>*\<^sup>* serving t \<and> g_term_requested t \<and> g_running t \<and> g_client_fds t 0 = 5 \<and> g_client_fds t 0 \<notin> shut t"
proof -
  let ?a = "hgoto 0 H_Term serving"
  let ?b = "hgoto 0 (H_Scan 0) (serving\<lparr>g_term_requested := True\<rparr>)"
  have "hstep 0 serving ?a" by (rule hstep.deliver) (simp add: serving_def started_def)
  moreover have "hstep 0 ?a ?b" using hstep.set_term [of ?a 0] by simp
  ultimately have k: "keeps 0 serving ?a" "keeps 0 ?a ?b" by (auto simp: keeps_def dstep.handler) (simp_all add: serving_def)
  have r: "(keeps 0)\<^sup>*\<^sup>* serving ?b" using k by (meson converse_rtranclp_into_rtranclp rtranclp.rtrancl_refl)
  from drain_protects_clients [OF serving_alive _ _ r] have "g_running ?b \<and> g_client_fds ?b 0 = g_client_fds serving 0 \<and> g_client_fds ?b 0 \<notin> shut ?b"
    by (simp add: serving_def started_def)
  then show ?thesis using r by (intro exI [of _ ?b]) (simp add: serving_def)
qed

section \<open>A client that arrives during SIGTERM may be cut off\<close>

text \<open>
  C29. The scan of @clients_connected@ and the store to @g_running@ that follows it are not atomic: a worker
  that has already passed its drain test may record and serve a new client in between. The handler then stops
  the daemon and shuts that client's socket down although it is attached.
\<close>

theorem late_client_cut_off: "\<exists>s. alive 1 s \<and> wpc s 0 = Serve 5 \<and> g_client_fds s 0 = 5 \<and> \<not> g_running s \<and> 5 \<in> shut s"
proof -
  have "alive 1 (goto 0 Poll (started 1))" by (rule at_poll [OF alive.start]) (simp_all add: started_def)
  moreover define p where "p = goto 0 Poll (started 1)"
  ultimately have "alive 1 p" by simp
  have p: "hpc p 0 = H_Idle" "g_nbd_threads p = 1" "g_client_fds p 0 = -1" "wpc p 0 = Poll" "g_running p" "shut p = {}"
    by (simp_all add: p_def started_def)
  have o: "\<forall>j. fd_of (wpc p j) \<noteq> Some 5" by (simp add: p_def started_def fd_of_def)
  let ?stop = "p\<lparr>g_term_requested := True, hpc := (hpc p)(0 := H_Stop)\<rparr>"
  from alive_handler [OF \<open>alive 1 p\<close> hstep.deliver [of p 0]] p(1) have "alive 1 (hgoto 0 H_Term p)" by simp
  from alive_handler [OF this hstep.set_term [of _ 0]] have "alive 1 (hgoto 0 (H_Scan 0) (p\<lparr>g_term_requested := True\<rparr>))" by simp
  from alive_handler [OF this hstep.no_client [of _ 0 0]] p have "alive 1 (hgoto 0 (H_Scan 1) (p\<lparr>g_term_requested := True\<rparr>))" by simp
  from alive_handler [OF this hstep.no_clients [of _ 0 1]] p have "alive 1 ?stop" by simp
  from take_client [OF this, of 0 5] p o
  have "alive 1 (?stop\<lparr>g_client_fds := (g_client_fds p)(0 := 5), wpc := (wpc p)(0 := Serve 5)\<rparr>)" (is "alive 1 ?a") by simp
  from alive_handler [OF this hstep.stop [of _ 0]] have "alive 1 (hgoto 0 (H_Fd 0) (?a\<lparr>g_running := False\<rparr>))" by simp
  from alive_handler [OF this hstep.read_fd [of _ 0 0]] p
  have "alive 1 (hgoto 0 (H_Shutdown 0 5) (?a\<lparr>g_running := False\<rparr>))" by simp
  from alive_handler [OF this hstep.shut_fd [of _ 0 0 5]] p
  have z: "alive 1 (hgoto 0 (H_Fd 1) (?a\<lparr>g_running := False, shut := {fd. \<exists>i. fd_of (((wpc p)(0 := Serve 5)) i) = Some (nat fd)} \<inter> {5}\<rparr>))"
    by simp
  have m: "5 \<in> {fd. \<exists>i. fd_of (((wpc p)(0 := Serve 5)) i) = Some (nat fd)} \<inter> {5}"
    using exI [of "\<lambda>i. fd_of (((wpc p)(0 := Serve 5)) i) = Some 5" 0] by (simp add: fd_of_def)
  show ?thesis by (intro exI conjI, rule z) (use m in simp_all)
qed

section \<open>Ending\<close>

lemma scan_through:
  assumes "wpc s i = Scan k" "\<forall>j < g_nbd_threads s. g_client_fds s j < 0"
  shows "(wstep i)\<^sup>*\<^sup>* s (goto i Drained s)"
  using assms
proof (induction "g_nbd_threads s - k" arbitrary: s k)
  case 0
  then have "wstep i s (goto i Drained s)" by (intro wstep.scan_end [of s i k]) auto
  then show ?case by (rule r_into_rtranclp)
next
  case (Suc m)
  then have k: "k < g_nbd_threads s" by simp
  have "wstep i s (goto i (Scan (Suc k)) s)" using Suc.prems k by (intro wstep.scan_next) auto
  moreover have "(wstep i)\<^sup>*\<^sup>* (goto i (Scan (Suc k)) s) (goto i Drained (goto i (Scan (Suc k)) s))"
    using Suc.hyps(2) Suc.prems by (intro Suc.hyps(1)) auto
  ultimately show ?case by (simp add: converse_rtranclp_into_rtranclp)
qed

text \<open>
  C30. A drain ends: once SIGTERM is pending and the last client has gone, any worker that runs through its loop
  stops the daemon and exits.
\<close>

theorem drain_completes:
  assumes "wpc s i = Loop" "g_running s" "g_term_requested s" "\<forall>j < g_nbd_threads s. g_client_fds s j < 0"
  shows "\<exists>t. (wstep i)\<^sup>*\<^sup>* s t \<and> \<not> g_running t \<and> wpc t i = Exited"
proof -
  have "wstep i s (goto i Term_Test s)" using assms by (intro wstep.loop_on)
  moreover have "wstep i (goto i Term_Test s) (goto i (Scan 0) s)" using wstep.term_seen [of "goto i Term_Test s" i] assms(3) by simp
  moreover have "(wstep i)\<^sup>*\<^sup>* (goto i (Scan 0) s) (goto i Drained s)" using scan_through [of "goto i (Scan 0) s" i 0] assms(4) by simp
  moreover have "wstep i (goto i Drained s) (s\<lparr>g_running := False, wpc := (wpc s)(i := Fini)\<rparr>)"
    using wstep.drained [of "goto i Drained s" i] by simp
  moreover have "wstep i (s\<lparr>g_running := False, wpc := (wpc s)(i := Fini)\<rparr>) (s\<lparr>g_running := False, wpc := (wpc s)(i := Exited)\<rparr>)"
    using wstep.fini [of "s\<lparr>g_running := False, wpc := (wpc s)(i := Fini)\<rparr>" i] by simp
  ultimately have "(wstep i)\<^sup>*\<^sup>* s (s\<lparr>g_running := False, wpc := (wpc s)(i := Exited)\<rparr>)"
    by (meson converse_rtranclp_into_rtranclp rtranclp.rtrancl_into_rtrancl)
  then show ?thesis by (rule_tac exI) (erule conjI, simp)
qed

theorem drain_completes_witness:
  "\<exists>t. (wstep 0)\<^sup>*\<^sup>* ((started 4)\<lparr>g_term_requested := True, wpc := (\<lambda>_. Loop)\<rparr>) t \<and> \<not> g_running t \<and> wpc t 0 = Exited"
  by (rule drain_completes) (simp_all add: started_def)

text \<open>How many steps a worker has left once @g_running@ is zero.\<close>

definition steps_left :: "nat \<Rightarrow> wpc \<Rightarrow> nat" where
  "steps_left n p = (case p of Exited \<Rightarrow> 0 | Fini \<Rightarrow> 1 | Mark_Failed \<Rightarrow> 1 | Init_Failed \<Rightarrow> 2 | Drained \<Rightarrow> 2 | Loop \<Rightarrow> 2 | Nap \<Rightarrow> 3
     | Init \<Rightarrow> 3 | Close fd \<Rightarrow> 3 | Clear fd \<Rightarrow> 4 | Look fd \<Rightarrow> 5 | Serve fd \<Rightarrow> 6 | Greet fd \<Rightarrow> 7 | Record fd \<Rightarrow> 8 | Accept \<Rightarrow> 9 | Poll \<Rightarrow> 10
     | Scan k \<Rightarrow> 4 + (n - k) | Term_Test \<Rightarrow> 11 + n)"

lemma wstep_winds_down:
  "wstep i s t \<Longrightarrow> \<not> g_running s \<Longrightarrow> \<not> g_running t \<and> g_nbd_threads t = g_nbd_threads s \<and>
     steps_left (g_nbd_threads s) (wpc t i) < steps_left (g_nbd_threads s) (wpc s i)"
  by (induction rule: wstep.induct) (auto simp: steps_left_def)

lemma wstep_enabled: "wpc s i \<noteq> Exited \<Longrightarrow> \<exists>t. wstep i s t"
proof (cases "wpc s i")
  case (Scan k)
  then show ?thesis by (meson linorder_not_less scan_client scan_end scan_next)
qed (meson wstep.intros)+

lemma wsteps_bound: "(wstep i ^^ m) s t \<Longrightarrow> \<not> g_running s \<Longrightarrow> m + steps_left (g_nbd_threads s) (wpc t i) \<le> steps_left (g_nbd_threads s) (wpc s i)"
proof (induction m arbitrary: t)
  case (Suc m)
  then obtain u where u: "(wstep i ^^ m) s u" "wstep i u t" by auto
  have "\<not> g_running u \<and> g_nbd_threads u = g_nbd_threads s"
    using u(1) Suc.prems(2) by (induction m arbitrary: u) (auto dest: wstep_winds_down)
  with wstep_winds_down [OF u(2)] Suc.IH [OF u(1) Suc.prems(2)] show ?case by simp
qed simp

lemma reaches_exit: "\<not> g_running s \<Longrightarrow> \<exists>t. (wstep i)\<^sup>*\<^sup>* s t \<and> wpc t i = Exited"
proof (induction "steps_left (g_nbd_threads s) (wpc s i)" arbitrary: s rule: less_induct)
  case less
  show ?case
  proof (cases "wpc s i = Exited")
    case False
    then obtain t where t: "wstep i s t" using wstep_enabled by blast
    with wstep_winds_down [OF t less.prems] less.hyps [of t] show ?thesis by (metis converse_rtranclp_into_rtranclp)
  qed auto
qed



text \<open>
  C28. The daemon exits only when every worker has ended and no client is recorded; its exit code is 1 exactly when a
  worker could not initialise.
\<close>

theorem exit_without_clients:
  assumes "alive n s" "mpc s = Returned r"
  shows "(\<forall>i < n. wpc s i = Exited) \<and> (\<forall>i. g_client_fds s i = -1) \<and> r = (if g_worker_failed s then 1 else 0)"
proof -
  have inv: "slots_match n s" "joined_exited s" using alive_inv [OF assms(1)] by (simp_all add: daemon_inv_def)
  then have e: "\<forall>i < n. wpc s i = Exited" "r = (if g_worker_failed s then 1 else 0)"
    using assms(2) by (auto simp: joined_exited_def slots_match_def)
  have "g_client_fds s i = -1" for i
    using inv(1) e(1) by (cases "i < n") (auto simp: slots_match_def client_of_def)
  with e show ?thesis by simp
qed

theorem exit_without_clients_witness:
  "\<exists>s. alive 1 s \<and> mpc s = Returned 1 \<and> wpc s 0 = Exited \<and> g_client_fds s 0 = -1"
proof -
  note a = alive.start [of 1]
  from alive_worker [OF a wstep.init_fails [of _ 0]] have "alive 1 (goto 0 Init_Failed (started 1))" by (simp add: started_def)
  from alive_worker [OF this wstep.fini_failed [of _ 0]] have "alive 1 (goto 0 Mark_Failed (started 1))" by simp
  from alive_worker [OF this wstep.mark_failed [of _ 0]] have "alive 1 ((started 1)\<lparr>g_worker_failed := True, wpc := (\<lambda>_. Init)(0 := Exited)\<rparr>)" (is "alive 1 ?e")
    by (simp add: started_def)
  from alive.step [OF this dstep.main [OF mstep.join [of _ 0]]] have "alive 1 (?e\<lparr>mpc := Joining 1\<rparr>)" by (simp add: started_def)
  from alive.step [OF this dstep.main [OF mstep.joined [of _ 1]]] have "alive 1 (?e\<lparr>g_running := False, mpc := Joined\<rparr>)" by (simp add: started_def)
  from alive.step [OF this dstep.main [OF mstep.main_returns]] have r: "alive 1 (?e\<lparr>g_running := False, mpc := Returned 1\<rparr>)" by (simp add: started_def)
  from exit_without_clients [OF r, of 1] have c: "g_client_fds (?e\<lparr>g_running := False, mpc := Returned 1\<rparr>) 0 = -1" by simp
  show ?thesis by (intro exI conjI, rule r) (use c in simp_all)
qed

end
