(* ===== verification/Worker_Setup.thy ===== *)
theory Worker_Setup
  imports Store_Properties
begin

text \<open>
  A worker's own resources: @worker_alloc@, @worker_init@ and @worker_fini@. A pointer of
  @struct worker@ is @None@ for NULL, else whether it is pinned driver memory (cuMemAllocHost, not malloc) and its size. Which allocations the
  host and the driver grant, and whether the stream can be created, is the record
  @worker_host@.
\<close>

section \<open>Setting a worker up\<close>

datatype buf = Cws | Dws | Cstage | Ubuf | Iobuf | Scratch | Cscratch | Ops | Reqs

record worker =
  wk_maxops :: nat
  wk_stream :: bool
  wk_cc :: comp_ctx
  wk_buf :: "buf \<Rightarrow> (bool \<times> nat) option"

record worker_host =
  stream_ok :: bool
  malloc_ok :: "buf \<Rightarrow> nat \<Rightarrow> bool"
  alloc_host_ok :: "buf \<Rightarrow> nat \<Rightarrow> bool"

definition worker_alloc :: "worker_host \<Rightarrow> buf \<Rightarrow> nat \<Rightarrow> bool \<Rightarrow> (bool \<times> nat) option" where
  "worker_alloc host b n pinned =
     (if pinned then (if alloc_host_ok host b n then Some (True, n) else None)
      else if malloc_ok host b n then Some (False, n) else None)"

text \<open>The sizes of @struct blkop@ and @struct bop@ on the 64-bit target.\<close>

definition sizeof_blkop :: nat where "sizeof_blkop = 48"
definition sizeof_bop :: nat where "sizeof_bop = 48"

definition no_ctx :: comp_ctx where
  "no_ctx = \<lparr>cc_cctx = False, cc_dctx = False, cc_lz4_state = False\<rparr>"

definition worker_zero :: "'d env \<Rightarrow> worker" where
  "worker_zero en = \<lparr>wk_maxops = maxops en, wk_stream = False, wk_cc = no_ctx, wk_buf = (\<lambda>_. None)\<rparr>"

text \<open>The codec workspaces are only allocated when the codec asks for them.\<close>

definition alloc_workspaces :: "'d env \<Rightarrow> worker_host \<Rightarrow> worker \<Rightarrow> worker" where
  "alloc_workspaces en host w =
     (let cn = comp_cws_bytes (en_lib en) (en_codec en); dn = comp_dws_bytes (en_lib en) (en_codec en)
      in w\<lparr>wk_buf := (wk_buf w)(Cws := if cn \<noteq> 0 then worker_alloc host Cws cn False else None,
                               Dws := if dn \<noteq> 0 then worker_alloc host Dws dn False else None)\<rparr>)"

definition workspaces_missing :: "'d env \<Rightarrow> worker \<Rightarrow> bool" where
  "workspaces_missing en w \<longleftrightarrow>
     comp_cws_bytes (en_lib en) (en_codec en) \<noteq> 0 \<and> wk_buf w Cws = None \<or>
     comp_dws_bytes (en_lib en) (en_codec en) \<noteq> 0 \<and> wk_buf w Dws = None"

definition alloc_buffers :: "'d env \<Rightarrow> worker_host \<Rightarrow> worker \<Rightarrow> worker" where
  "alloc_buffers en host w =
     w\<lparr>wk_buf := (wk_buf w)
         (Cstage := worker_alloc host Cstage (wk_maxops w * CSLOT_SIZE) True,
          Ubuf := worker_alloc host Ubuf (g_batch_depth en * BATCH_SLOT) False,
          Iobuf := worker_alloc host Iobuf IO_BUF_SIZE False,
          Scratch := worker_alloc host Scratch CBLK_SIZE False,
          Cscratch := worker_alloc host Cscratch CSLOT_SIZE True,
          Ops := worker_alloc host Ops (wk_maxops w * sizeof_blkop) False,
          Reqs := worker_alloc host Reqs (g_batch_depth en * sizeof_bop) False)\<rparr>"

definition io_buffers :: "buf list" where
  "io_buffers = [Cstage, Ubuf, Iobuf, Scratch, Cscratch, Ops, Reqs]"

text \<open>The flag is false for the return value -1; the worker is what is set up by then.\<close>

definition worker_init :: "'d env \<Rightarrow> worker_host \<Rightarrow> bool \<times> worker" where
  "worker_init en host =
     (if \<not> stream_ok host then (False, worker_zero en)
      else let w1 = alloc_workspaces en host ((worker_zero en)\<lparr>wk_stream := True\<rparr>)
           in if workspaces_missing en w1 then (False, w1)
              else let (ok, c) = comp_ctx_init (en_lib en) (en_codec en) (wk_buf w1 Cws \<noteq> None);
                       w2 = w1\<lparr>wk_cc := c\<rparr>
                   in if \<not> ok then (False, w2)
                      else let w3 = alloc_buffers en host w2
                           in if list_ex (\<lambda>b. wk_buf w3 b = None) io_buffers then (False, w3)
                              else (comp_selftest (en_lib en) (en_codec en) (wk_cc w3), w3))"

datatype wfree = Ctx string | MemFreeHost buf | Free buf | StreamDestroy

definition worker_fini :: "'d env \<Rightarrow> worker \<Rightarrow> wfree list" where
  "worker_fini en w =
     map Ctx (fst (comp_ctx_fini (en_codec en) (wk_cc w))) @
     map MemFreeHost (filter (\<lambda>b. wk_buf w b \<noteq> None) [Cstage, Cscratch]) @
     map Free (filter (\<lambda>b. wk_buf w b \<noteq> None) [Cws, Dws, Ubuf, Iobuf, Scratch, Ops, Reqs]) @
     (if wk_stream w then [StreamDestroy] else [])"

section \<open>Properties\<close>

lemma worker_alloc_cases: "worker_alloc host b n pinned \<in> {None, Some (pinned, n)}"
  by (simp add: worker_alloc_def)

text \<open>The four points @worker_init@ can return at.\<close>

lemma worker_init_stages:
  assumes "worker_init en host = (ok, w)"
  obtains "\<not> ok" "w = worker_zero en"
  | "\<not> ok" "w = alloc_workspaces en host ((worker_zero en)\<lparr>wk_stream := True\<rparr>)"
  | c where "\<not> ok" "w = (alloc_workspaces en host ((worker_zero en)\<lparr>wk_stream := True\<rparr>))\<lparr>wk_cc := c\<rparr>"
  | c where "w = alloc_buffers en host ((alloc_workspaces en host ((worker_zero en)\<lparr>wk_stream := True\<rparr>))\<lparr>wk_cc := c\<rparr>)"
      "ok \<longrightarrow> (\<forall>b \<in> set io_buffers. wk_buf w b \<noteq> None) \<and> comp_selftest (en_lib en) (en_codec en) c"
proof -
  define w1 where "w1 = alloc_workspaces en host ((worker_zero en)\<lparr>wk_stream := True\<rparr>)"
  define r where "r = comp_ctx_init (en_lib en) (en_codec en) (wk_buf w1 Cws \<noteq> None)"
  define w3 where "w3 = alloc_buffers en host (w1\<lparr>wk_cc := snd r\<rparr>)"
  have cc: "wk_cc w3 = snd r" by (simp add: w3_def alloc_buffers_def)
  have e: "worker_init en host = (if \<not> stream_ok host then (False, worker_zero en) else if workspaces_missing en w1 then (False, w1)
      else if \<not> fst r then (False, w1\<lparr>wk_cc := snd r\<rparr>) else if list_ex (\<lambda>b. wk_buf w3 b = None) io_buffers then (False, w3)
      else (comp_selftest (en_lib en) (en_codec en) (snd r), w3))"
    unfolding worker_init_def Let_def case_prod_unfold w1_def [symmetric] r_def [symmetric] w3_def [symmetric] cc ..
  consider "\<not> stream_ok host" | "stream_ok host" "workspaces_missing en w1" | "stream_ok host" "\<not> workspaces_missing en w1" "\<not> fst r"
    | "stream_ok host" "\<not> workspaces_missing en w1" "fst r" by blast
  then show thesis
  proof cases
    case 4
    show ?thesis by (rule that(4) [of "snd r"]) (use assms e 4 in \<open>auto simp: w3_def w1_def list_ex_iff split: if_splits\<close>)
  qed (use assms e that(1-3) in \<open>auto simp: w1_def\<close>)
qed

lemmas alloc_defs = alloc_workspaces_def alloc_buffers_def worker_zero_def Let_def

lemma worker_init_maxops: "worker_init en host = (ok, w) \<Longrightarrow> wk_maxops w = maxops en"
  by (erule worker_init_stages) (simp_all add: alloc_defs)

lemma worker_init_stream: "worker_init en host = (ok, w) \<Longrightarrow> wk_stream w \<longleftrightarrow> stream_ok host"
proof (cases "stream_ok host")
  case True
  assume e: "worker_init en host = (ok, w)"
  have "wk_stream (snd (worker_init en host))"
    using True by (simp add: worker_init_def Let_def case_prod_unfold) (simp add: alloc_workspaces_def alloc_buffers_def Let_def)
  with e True show ?thesis by simp
next
  case False
  assume "worker_init en host = (ok, w)"
  with False show ?thesis by (auto simp: worker_init_def worker_zero_def)
qed

text \<open>Which pointers are pinned, and the size of each when the worker came up.\<close>

definition pinned :: "buf \<Rightarrow> bool" where
  "pinned b \<longleftrightarrow> b = Cstage \<or> b = Cscratch"

definition buf_size :: "'d env \<Rightarrow> buf \<Rightarrow> nat" where
  "buf_size en b = (case b of Cws \<Rightarrow> comp_cws_bytes (en_lib en) (en_codec en) | Dws \<Rightarrow> comp_dws_bytes (en_lib en) (en_codec en)
     | Cstage \<Rightarrow> maxops en * CSLOT_SIZE | Ubuf \<Rightarrow> g_batch_depth en * BATCH_SLOT | Iobuf \<Rightarrow> IO_BUF_SIZE | Scratch \<Rightarrow> CBLK_SIZE
     | Cscratch \<Rightarrow> CSLOT_SIZE | Ops \<Rightarrow> maxops en * sizeof_blkop | Reqs \<Rightarrow> g_batch_depth en * sizeof_bop)"

lemma worker_zero_buf: "wk_buf (worker_zero en) b = None" by (simp add: worker_zero_def)

lemma workspaces_buf: "wk_buf (alloc_workspaces en host ((worker_zero en)\<lparr>wk_stream := True\<rparr>)) b \<in> {None, Some (pinned b, buf_size en b)}"
  by (cases b) (simp_all add: alloc_workspaces_def worker_zero_def Let_def worker_alloc_def pinned_def buf_size_def)

lemma buffers_buf:
  "wk_buf w b \<in> {None, Some (pinned b, buf_size en b)} \<Longrightarrow> wk_maxops w = maxops en \<Longrightarrow>
   wk_buf (alloc_buffers en host w) b \<in> {None, Some (pinned b, buf_size en b)}"
  by (cases b) (simp_all add: alloc_buffers_def worker_alloc_def pinned_def buf_size_def)

lemma worker_init_buf:
  assumes "worker_init en host = (ok, w)"
  shows "wk_buf w b \<in> {None, Some (pinned b, buf_size en b)}"
  using assms
proof (cases rule: worker_init_stages)
  case (4 c)
  have "wk_maxops (alloc_workspaces en host ((worker_zero en)\<lparr>wk_stream := True\<rparr>)) = maxops en" by (simp add: alloc_defs)
  then have "wk_buf (alloc_buffers en host ((alloc_workspaces en host ((worker_zero en)\<lparr>wk_stream := True\<rparr>))\<lparr>wk_cc := c\<rparr>)) b \<in>
      {None, Some (pinned b, buf_size en b)}" using workspaces_buf [of en host b] by (intro buffers_buf) simp_all
  with 4 show ?thesis by simp
qed (use workspaces_buf in \<open>simp_all add: worker_zero_buf\<close>)

lemma worker_init_sizes:
  assumes "worker_init en host = (True, w)" "b \<in> set io_buffers"
  shows "wk_buf w b = Some (pinned b, buf_size en b)"
  using assms worker_init_buf [OF assms(1), of b] by (cases rule: worker_init_stages) auto

text \<open>When the host and the driver grant everything and the codec is sound, the worker comes up.\<close>

definition generous :: worker_host where
  "generous = \<lparr>stream_ok = True, malloc_ok = (\<lambda>_ _. True), alloc_host_ok = (\<lambda>_ _. True)\<rparr>"

lemma worker_init_succeeds:
  assumes "codec_lib_ok (en_lib en)" "fst (comp_ctx_init (en_lib en) (en_codec en) cws)"
  shows "fst (worker_init en generous)"
proof -
  have "fst (comp_ctx_init (en_lib en) (en_codec en) b)" for b
    using assms(2) by (auto simp: comp_ctx_init_def Let_def split: if_splits)
  then show ?thesis
    using comp_selftest_all [OF assms(1)]
    by (simp add: worker_init_def generous_def worker_alloc_def alloc_defs workspaces_missing_def io_buffers_def case_prod_unfold) auto
qed

lemma demo_worker: obtains w where "worker_init demo generous = (True, w)"
proof -
  have "fst (worker_init demo generous)"
    by (rule worker_init_succeeds [of demo True]) (simp_all add: run_codec_ok, simp add: demo_def comp_ctx_init_def run_codec_def)
  then show thesis using that by (metis prod.collapse)
qed

text \<open>
  C27. A worker that came up has room for everything the I/O paths address: the staging slot of
  every block operation, the payload slot of every request of a full batch, the entries of
  both arrays, and a whole window of the per-request path, which never needs more block operations
  than there are.
\<close>

theorem worker_buffers_suffice:
  assumes "worker_init en host = (True, w)" "g_batch_depth en \<le> 256"
  shows "(\<forall>oi < maxops en. \<exists>n m. wk_buf w Cstage = Some (True, n) \<and> (oi + 1) * CSLOT_SIZE \<le> n \<and> wk_buf w Ops = Some (False, m) \<and> (oi + 1) * sizeof_blkop \<le> m) \<and>
    (\<forall>ri < g_batch_depth en. \<forall>len \<le> BATCH_SLOT. \<exists>n m. wk_buf w Ubuf = Some (False, n) \<and> ri * BATCH_SLOT + len \<le> n \<and>
       wk_buf w Reqs = Some (False, m) \<and> (ri + 1) * sizeof_bop \<le> m) \<and>
    wk_buf w Iobuf = Some (False, LEGACY_WINDOW_BLOCKS * CBLK_SIZE) \<and> LEGACY_WINDOW_BLOCKS \<le> maxops en \<and> g_batch_depth en * BATCH_BLOCKS \<le> maxops en"
proof -
  have s: "wk_buf w Cstage = Some (True, maxops en * CSLOT_SIZE)" "wk_buf w Ubuf = Some (False, g_batch_depth en * BATCH_SLOT)"
    "wk_buf w Iobuf = Some (False, LEGACY_WINDOW_BLOCKS * CBLK_SIZE)"
    "wk_buf w Ops = Some (False, maxops en * sizeof_blkop)" "wk_buf w Reqs = Some (False, g_batch_depth en * sizeof_bop)"
    using worker_init_sizes [OF assms(1)] by (simp_all add: io_buffers_def pinned_def buf_size_def IO_BUF_SIZE_def)
  have r: "ri * BATCH_SLOT + len \<le> g_batch_depth en * BATCH_SLOT \<and> (ri + 1) * sizeof_bop \<le> g_batch_depth en * sizeof_bop"
    if "ri < g_batch_depth en" "len \<le> BATCH_SLOT" for ri len
    using that mult_le_mono1 [of "Suc ri" "g_batch_depth en" BATCH_SLOT] by (simp add: sizeof_bop_def)
  have o: "(oi + 1) * k \<le> maxops en * k" if "oi < maxops en" for oi k using that by (intro mult_le_mono1) simp
  have "g_batch_depth en * BATCH_BLOCKS \<le> maxops en" "LEGACY_WINDOW_BLOCKS \<le> maxops en"
    using assms(2) by (auto simp: maxops_def Let_def u32_def BATCH_BLOCKS_def BATCH_SLOT_def)
  with s r o show ?thesis by auto
qed

theorem worker_buffers_suffice_witness: "\<exists>w. worker_init demo generous = (True, w) \<and> (\<exists>n. wk_buf w Ubuf = Some (False, n) \<and> 31 * BATCH_SLOT + BATCH_SLOT \<le> n)"
proof -
  obtain w where w: "worker_init demo generous = (True, w)" by (rule demo_worker)
  have d: "g_batch_depth demo = 32" by (simp add: demo_def)
  from worker_buffers_suffice [OF w] d have "\<forall>ri < 32. \<forall>len \<le> BATCH_SLOT. \<exists>n. wk_buf w Ubuf = Some (False, n) \<and> ri * BATCH_SLOT + len \<le> n" by simp blast
  from this [rule_format, of 31 BATCH_SLOT] have "\<exists>n. wk_buf w Ubuf = Some (False, n) \<and> 31 * BATCH_SLOT + BATCH_SLOT \<le> n" by simp
  with w show ?thesis by blast
qed

lemma worker_fini_distinct: "distinct (worker_fini en w)"
proof -
  have f: "distinct (map MemFreeHost (filter P [Cstage, Cscratch]))" "distinct (map Free (filter P [Cws, Dws, Ubuf, Iobuf, Scratch, Ops, Reqs]))" for P
    by (simp_all add: distinct_map inj_on_def del: filter.simps)
  have c: "distinct (map Ctx (fst (comp_ctx_fini st c)))" for st c by (simp add: comp_ctx_fini_def)
  have "set (map Ctx xs) \<inter> set (map MemFreeHost ys @ map Free zs @ (if q then [StreamDestroy] else [])) = {}"
    "set (map MemFreeHost ys) \<inter> set (map Free zs @ (if q then [StreamDestroy] else [])) = {}"
    "set (map Free zs) \<inter> set (if q then [StreamDestroy] else []) = {}" for xs ys zs q by auto
  with f c show ?thesis unfolding worker_fini_def distinct_append by (intro conjI) simp_all
qed

lemma worker_fini_mem:
  "MemFreeHost b \<in> set (worker_fini en w) \<longleftrightarrow> b \<in> {Cstage, Cscratch} \<and> wk_buf w b \<noteq> None"
  "Free b \<in> set (worker_fini en w) \<longleftrightarrow> b \<in> {Cws, Dws, Ubuf, Iobuf, Scratch, Ops, Reqs} \<and> wk_buf w b \<noteq> None"
  "StreamDestroy \<in> set (worker_fini en w) \<longleftrightarrow> wk_stream w"
  unfolding worker_fini_def set_append set_map set_filter by auto



end
