(* ===== verification/Endpoint.thy ===== *)
theory Endpoint
  imports Nbd_Prelude
begin

unbundle bit_operations_syntax

text \<open>
  What @main@ asks of the operating system besides memory: its signal dispositions, the locking
  of its pages, the name, mode and backlog of the listening socket, and the READY datagram for
  the service manager. The kernel's state is the record @os@: the names in the file system
  with the kind and mode of what they name, and what the process has set up. Whether the kernel grants a call is the record @kernel@; a
  refusal changes nothing. Names are compared as they are written.
\<close>

section \<open>The kernel's state\<close>

datatype kind = Sock | Dir | File

record node =
  n_kind :: kind
  n_mode :: "32 word"

datatype signal = SIGTERM | SIGINT | SIGPIPE

datatype action = SIG_DFL | SIG_IGN | Sig_Handler

text \<open>A Unix socket has a file name or a name in the abstract namespace, which is any string of bytes.\<close>

datatype sockname = Filename string | Abstract string

record os =
  os_files :: "string \<Rightarrow> node option"
  os_umask :: "32 word"
  os_action :: "signal \<Rightarrow> action"
  os_locked :: bool
  os_io_flusher :: bool
  os_line_buffered :: bool
  os_backlog :: "nat option"
  os_nonblocking :: bool
  os_sent :: "(sockname \<times> string) list"

record kernel =
  mlockall_ok :: bool
  prctl_ok :: bool
  may_unlink :: "string \<Rightarrow> bool"
  may_chmod :: "string \<Rightarrow> bool"
  socket_ok :: bool
  bind_ok :: bool
  listen_ok :: bool
  dgram_ok :: bool

section \<open>Names\<close>

definition NUL :: char where "NUL = CHR 0x00"
definition SOCK_PATH :: string where "SOCK_PATH = ''/run/nbd-vram.sock''"

definition sock_path :: "(string \<Rightarrow> string option) \<Rightarrow> string" where
  "sock_path getenv =
     (case getenv ''VRAM_SOCK_PATH'' of None \<Rightarrow> SOCK_PATH | Some p \<Rightarrow> if p = [] then SOCK_PATH else p)"

text \<open>@strncpy@ copies up to the terminator and fills the rest of the @n@ bytes with zeros; it writes no terminator of its own.\<close>

definition strncpy :: "string \<Rightarrow> nat \<Rightarrow> string" where
  "strncpy s n = take n (takeWhile (\<lambda>c. c \<noteq> NUL) s @ replicate n NUL)"

text \<open>The array sun_path of 108 bytes after @strncpy(addr.sun_path, s, sizeof(addr.sun_path) - 1)@ on a zeroed address.\<close>

definition SUN_PATH_LEN :: nat where "SUN_PATH_LEN = 108"

definition sun_path :: "string \<Rightarrow> string" where
  "sun_path s = strncpy s (SUN_PATH_LEN - 1) @ [NUL]"

text \<open>How the kernel reads the address when it is given the whole structure.\<close>

definition sockname_of :: "string \<Rightarrow> sockname" where
  "sockname_of a = (if a = [] \<or> hd a = NUL then Abstract (tl a) else Filename (takeWhile (\<lambda>c. c \<noteq> NUL) a))"

section \<open>Calls\<close>

definition unlink :: "kernel \<Rightarrow> string \<Rightarrow> os \<Rightarrow> os" where
  "unlink k p s =
     (case os_files s p of
        None \<Rightarrow> s
      | Some nd \<Rightarrow> if n_kind nd \<noteq> Dir \<and> may_unlink k p then s\<lparr>os_files := (os_files s)(p := None)\<rparr> else s)"

definition chmod :: "kernel \<Rightarrow> string \<Rightarrow> 32 word \<Rightarrow> os \<Rightarrow> os" where
  "chmod k p mode s =
     (case os_files s p of
        None \<Rightarrow> s
      | Some nd \<Rightarrow> if may_chmod k p then s\<lparr>os_files := (os_files s)(p \<mapsto> nd\<lparr>n_mode := mode\<rparr>)\<rparr> else s)"

text \<open>bind creates the name with the permissions the umask leaves of 0777, and refuses one that exists.\<close>

definition new_socket :: "os \<Rightarrow> node" where
  "new_socket s = \<lparr>n_kind = Sock, n_mode = 0x1FF AND NOT (os_umask s)\<rparr>"

definition bind :: "kernel \<Rightarrow> string \<Rightarrow> os \<Rightarrow> os option" where
  "bind k a s =
     (if \<not> bind_ok k then None
      else case sockname_of a of
             Filename p \<Rightarrow> if os_files s p = None then Some (s\<lparr>os_files := (os_files s)(p \<mapsto> new_socket s)\<rparr>) else None
           | Abstract _ \<Rightarrow> Some s)"

section \<open>What main does with them\<close>

definition prologue :: "kernel \<Rightarrow> (string \<Rightarrow> string option) \<Rightarrow> os \<Rightarrow> os" where
  "prologue k getenv s =
     s\<lparr>os_line_buffered := True,
       os_action := (os_action s)(SIGTERM := Sig_Handler, SIGINT := Sig_Handler, SIGPIPE := SIG_IGN),
       os_locked := os_locked s \<or> (getenv ''VRAM_NO_MLOCK'' = None \<and> mlockall_ok k),
       os_io_flusher := os_io_flusher s \<or> prctl_ok k\<rparr>"

definition notify_name :: "string \<Rightarrow> string" where
  "notify_name ns = (if ns \<noteq> [] \<and> hd ns = CHR ''@'' then tl ns else ns)"

definition sd_notify :: "kernel \<Rightarrow> (string \<Rightarrow> string option) \<Rightarrow> os \<Rightarrow> os" where
  "sd_notify k getenv s =
     (case getenv ''NOTIFY_SOCKET'' of
        None \<Rightarrow> s
      | Some ns \<Rightarrow>
          if dgram_ok k then s\<lparr>os_sent := os_sent s @ [(sockname_of (sun_path (notify_name ns)), ''READY=1'' @ [CHR 0x0A])]\<rparr> else s)"

definition set_listening :: "nat \<Rightarrow> os \<Rightarrow> os" where
  "set_listening backlog s = s\<lparr>os_backlog := Some backlog, os_nonblocking := True\<rparr>"

definition close_listen :: "os \<Rightarrow> os" where
  "close_listen s = s\<lparr>os_backlog := None, os_nonblocking := False\<rparr>"

section \<open>Names that fit and names that do not\<close>

lemma takeWhile_no_NUL [simp]: "NUL \<notin> set p \<Longrightarrow> takeWhile (\<lambda>c. c \<noteq> NUL) p = p"
  by (metis (mono_tags, lifting) takeWhile_eq_all_conv)

lemma length_sun_path [simp]: "length (sun_path s) = SUN_PATH_LEN"
  by (simp add: sun_path_def strncpy_def SUN_PATH_LEN_def)

text \<open>The name a socket address made from @s@ stands for: at most the first 107 bytes of it.\<close>

lemma sun_path_name:
  assumes "NUL \<notin> set s" "s \<noteq> []"
  shows "sockname_of (sun_path s) = Filename (take 107 s)"
proof -
  have s: "sun_path s = take 107 s @ replicate (107 - length s) NUL @ [NUL]"
    using assms by (simp add: sun_path_def strncpy_def SUN_PATH_LEN_def)
  have t: "NUL \<notin> set (take 107 s)" using assms(1) by (metis in_set_takeD)
  then have "takeWhile (\<lambda>c. c \<noteq> NUL) (sun_path s) = take 107 s"
    unfolding s by (cases "107 - length s") (auto simp: takeWhile_append)
  moreover have "hd (sun_path s) \<noteq> NUL" using assms by (cases s) (auto simp: sun_path_def strncpy_def SUN_PATH_LEN_def)
  moreover have "sun_path s \<noteq> []" by (metis length_sun_path SUN_PATH_LEN_def list.size(3) zero_neq_numeral)
  ultimately show ?thesis by (simp add: sockname_of_def)
qed

text \<open>
  The service manager's convention for NOTIFY_SOCKET: a leading @ stands for the zero byte of an abstract name, whose length is
  that of the rest; any other value is a file name.
\<close>

definition notify_address :: "string \<Rightarrow> sockname" where
  "notify_address ns = (if ns \<noteq> [] \<and> hd ns = CHR ''@'' then Abstract (tl ns) else Filename ns)"

lemma ready_reaches_manager:
  assumes "getenv ''NOTIFY_SOCKET'' = Some ns" "dgram_ok k" "ns \<noteq> []" "NUL \<notin> set ns" "hd ns \<noteq> CHR ''@''" "length ns < SUN_PATH_LEN"
  shows "os_sent (sd_notify k getenv s) = os_sent s @ [(notify_address ns, ''READY=1'' @ [CHR 0x0A])]"
  using assms sun_path_name [of ns] by (simp add: sd_notify_def notify_name_def notify_address_def SUN_PATH_LEN_def)

text \<open>An abstract NOTIFY_SOCKET is never reached: the datagram goes to a file of that name.\<close>

lemma ready_misses_abstract:
  assumes "getenv ''NOTIFY_SOCKET'' = Some (CHR ''@'' # n)" "dgram_ok k" "n \<noteq> []" "NUL \<notin> set n"
  shows "os_sent (sd_notify k getenv s) = os_sent s @ [(Filename (take 107 n), ''READY=1'' @ [CHR 0x0A])]"
    "Filename (take 107 n) \<noteq> notify_address (CHR ''@'' # n)"
  using assms sun_path_name [of n] by (simp_all add: sd_notify_def notify_name_def notify_address_def)

lemma sd_notify_frame [simp]:
  "os_files (sd_notify k g s) = os_files s" "os_action (sd_notify k g s) = os_action s" "os_locked (sd_notify k g s) = os_locked s"
  "os_backlog (sd_notify k g s) = os_backlog s" "os_nonblocking (sd_notify k g s) = os_nonblocking s"
  by (simp_all add: sd_notify_def split: option.split)

lemma unlink_frame [simp]:
  "os_umask (unlink k p s) = os_umask s" "os_action (unlink k p s) = os_action s" "os_locked (unlink k p s) = os_locked s"
  "q \<noteq> p \<Longrightarrow> os_files (unlink k p s) q = os_files s q"
  by (simp_all add: unlink_def split: option.split)

end
