(* ===== verification/Startup.thy ===== *)
theory Startup
  imports Server_Requests Worker_Setup Endpoint
begin

text \<open>
  @main@ up to the point where the workers are created: the environment variables, the
  libraries, cuInit with its retries, the VRAM allocation that backs off 512 MiB at a time,
  the size of the device, the block store and the listening socket; and the release of it all
  at the labels out_cuda and out. The environment, the dynamic loader, the driver's setup calls, the
  kernel's answers and its state at the start are the record @machine@.
\<close>

section \<open>Configuration\<close>

record config =
  c_threads :: nat
  c_batch :: bool
  c_depth :: nat
  c_debug :: bool
  c_stats_interval :: nat

definition NBD_THREADS_MAX :: int where "NBD_THREADS_MAX = 64"
definition NBD_THREADS_DEFAULT :: nat where "NBD_THREADS_DEFAULT = 4"
definition BATCH_DEPTH_MAX :: int where "BATCH_DEPTH_MAX = 256"
definition BATCH_DEPTH_DEFAULT :: nat where "BATCH_DEPTH_DEFAULT = 32"
definition DEFAULT_SIZE_MB :: nat where "DEFAULT_SIZE_MB = 7168"
definition SIZE_ALIGN :: nat where "SIZE_ALIGN = 64 * 1024"

definition read_config :: "(string \<Rightarrow> string option) \<Rightarrow> config" where
  "read_config getenv =
     \<lparr>c_threads = (case getenv ''VRAM_NBD_THREADS'' of None \<Rightarrow> NBD_THREADS_DEFAULT | Some v \<Rightarrow> nat (clamp 1 NBD_THREADS_MAX (atoi v))),
      c_batch = (case getenv ''VRAM_BATCH'' of None \<Rightarrow> True | Some v \<Rightarrow> atoi v \<noteq> 0),
      c_depth = (case getenv ''VRAM_BATCH_DEPTH'' of None \<Rightarrow> BATCH_DEPTH_DEFAULT | Some v \<Rightarrow> nat (clamp 1 BATCH_DEPTH_MAX (atoi v))),
      c_debug = (case getenv ''VRAM_BATCH_DEBUG'' of None \<Rightarrow> False | Some v \<Rightarrow> atoi v \<noteq> 0),
      c_stats_interval = (case getenv ''VRAM_STATS_INTERVAL_SEC'' of None \<Rightarrow> 60
        | Some v \<Rightarrow> if atoi v < 0 then 0 else nat (atoi v))\<rparr>"

text \<open>atol reads the same text as atoi; the casts to size_t and uint64_t are modulo 2^64.\<close>

definition atol_u64 :: "string \<Rightarrow> nat" where
  "atol_u64 s = nat (atoi s mod 2 ^ 64)"

section \<open>Obtaining VRAM\<close>

text \<open>cuInit is tried at most ten times.\<close>

function cuInit_retry :: "(nat \<Rightarrow> bool) \<Rightarrow> nat \<Rightarrow> bool" where
  "cuInit_retry ok i = (if ok i then True else if 9 \<le> i then False else cuInit_retry ok (Suc i))"
  by auto

termination by (relation "measure (\<lambda>(ok, i). 9 - i)") auto

declare cuInit_retry.simps [simp del]

definition vram_bytes :: "nat \<Rightarrow> nat" where
  "vram_bytes mb = u64 (mb * (1024 * 1024)) div SIZE_ALIGN * SIZE_ALIGN"

text \<open>Attempt @i@ asks for @mb@ mebibytes; @None@ is the loop running out with no allocation.\<close>

function back_off :: "(nat \<Rightarrow> nat \<Rightarrow> nat option) \<Rightarrow> nat \<Rightarrow> nat \<Rightarrow> (nat \<times> nat) option" where
  "back_off cuMemAlloc i mb =
     (if mb < 1024 then None
      else case cuMemAlloc i (vram_bytes mb) of
             Some p \<Rightarrow> Some (p, vram_bytes mb)
           | None \<Rightarrow> back_off cuMemAlloc (Suc i) (mb - 512))"
  by auto

termination by (relation "measure (\<lambda>(a, i, mb). mb)") auto

declare back_off.simps [simp del]

definition setup_mb :: "(string \<Rightarrow> string option) \<Rightarrow> nat" where
  "setup_mb getenv = (case getenv ''VRAM_SETUP_SIZE_MB'' of None \<Rightarrow> DEFAULT_SIZE_MB | Some v \<Rightarrow> atol_u64 v)"

text \<open>The logical size of the device; @None@ when it is less than one block.\<close>

definition disk_bytes :: "(string \<Rightarrow> string option) \<Rightarrow> codec \<Rightarrow> nat \<Rightarrow> nat option" where
  "disk_bytes getenv codec vram =
     (let d0 = (case getenv ''VRAM_DISK_SIZE_MB'' of
                  None \<Rightarrow> u64 (vram * 2)
                | Some v \<Rightarrow> if v = [] then u64 (vram * 2) else u64 (atol_u64 v * (1024 * 1024)));
          d1 = (if codec = CODEC_NONE \<and> d0 > vram then vram else d0);
          d2 = d1 div 2 ^ CBLK_SHIFT * 2 ^ CBLK_SHIFT
      in if d2 < CBLK_SIZE then None else Some d2)"

section \<open>The sequence\<close>

record machine =
  m_getenv :: "string \<Rightarrow> string option"
  m_dl :: dl
  cuInit_ok :: "nat \<Rightarrow> bool"
  cuDeviceGet_ok :: bool
  cuCtxCreate_ok :: bool
  m_cuMemAlloc :: "nat \<Rightarrow> nat \<Rightarrow> nat option"
  m_host :: host_mem
  m_kernel :: kernel
  m_os :: os

datatype boot_error =
    E_Libcuda | E_CuInit | E_Device | E_Context | E_Alloc | E_Index_Limit | E_Disk_Small | E_Store | E_Socket | E_Bind | E_Listen

text \<open>
  What main holds: @g_listen_fd@, the store's pointers, the VRAM, the context and the two library handles;
  @h_os@ is the kernel's state as main has changed it.
\<close>

record held =
  h_listen :: bool
  h_store :: store_ptrs
  h_vram :: bool
  h_ctx :: bool
  h_libcuda :: bool
  h_libcomp :: bool
  h_os :: os

text \<open>
  The fixed parts of the environment record (driver, codec library, the worker's codec context,
  EXTENT_SHIFT, the other workers) come as @base@, main fills in what it decides.
\<close>

definition boot_env :: "'d env \<Rightarrow> codec_state \<Rightarrow> nat \<Rightarrow> nat \<Rightarrow> nat \<Rightarrow> nat \<Rightarrow> 'd env" where
  "boot_env base cs ptr vram dsz depth =
     base\<lparr>en_codec := cs, g_vram_ptr := ptr, g_vram_size := vram, g_disk_size := dsz, g_batch_depth := depth\<rparr>"

definition open_socket :: "machine \<Rightarrow> nat \<Rightarrow> held \<Rightarrow> boot_error option \<times> held" where
  "open_socket m threads h =
     (let k = m_kernel m; p = sock_path (m_getenv m); s1 = unlink k p (h_os h)
      in if \<not> socket_ok k then (Some E_Socket, h\<lparr>h_os := s1\<rparr>)
         else case bind k (sun_path p) s1 of
                None \<Rightarrow> (Some E_Bind, h\<lparr>h_listen := True, h_os := s1\<rparr>)
              | Some s2 \<Rightarrow>
                  let s3 = chmod k p 0x180 s2
                  in if \<not> listen_ok k then (Some E_Listen, h\<lparr>h_listen := True, h_os := s3\<rparr>)
                     else (None, h\<lparr>h_listen := True, h_os := sd_notify k (m_getenv m) (set_listening (threads + 1) s3)\<rparr>))"

text \<open>From the allocated VRAM to the listening socket.\<close>

definition boot_store :: "machine \<Rightarrow> 'd env \<Rightarrow> 'd \<Rightarrow> codec_state \<Rightarrow> config \<Rightarrow> nat \<Rightarrow> nat \<Rightarrow> held \<Rightarrow>
    (boot_error + 'd env \<times> 'd world) \<times> held" where
  "boot_store m base d cs cfg ptr vram h =
     (if vram div ALLOC_GRAIN \<ge> 2 ^ ENT_GRAIN_BITS then (Inl E_Index_Limit, h)
      else case disk_bytes (m_getenv m) (g_codec cs) vram of
             None \<Rightarrow> (Inl E_Disk_Small, h)
           | Some dsz \<Rightarrow>
               let en = boot_env base cs ptr vram dsz (c_depth cfg); (ptrs, r) = store_init en (m_host m) d; h1 = h\<lparr>h_store := ptrs\<rparr>
               in case r of
                    None \<Rightarrow> (Inl E_Store, h1)
                  | Some w \<Rightarrow> (case open_socket m (c_threads cfg) h1 of (Some e, h2) \<Rightarrow> (Inl e, h2) | (None, h2) \<Rightarrow> (Inr (en, w), h2)))"

definition boot_vram :: "machine \<Rightarrow> 'd env \<Rightarrow> 'd \<Rightarrow> codec_state \<Rightarrow> config \<Rightarrow> held \<Rightarrow> (boot_error + 'd env \<times> 'd world) \<times> held" where
  "boot_vram m base d cs cfg h =
     (case back_off (m_cuMemAlloc m) 0 (setup_mb (m_getenv m)) of
        None \<Rightarrow> (Inl E_Alloc, h)
      | Some (ptr, vram) \<Rightarrow>
          if ptr = 0 then (Inl E_Alloc, h) else boot_store m base d cs cfg ptr vram (h\<lparr>h_vram := True\<rparr>))"

definition nothing_held :: "os \<Rightarrow> held" where
  "nothing_held s = \<lparr>h_listen = False, h_store = no_ptrs, h_vram = False, h_ctx = False, h_libcuda = False, h_libcomp = False, h_os = s\<rparr>"

definition boot :: "machine \<Rightarrow> 'd env \<Rightarrow> 'd \<Rightarrow> config \<times> (boot_error + 'd env \<times> 'd world) \<times> held" where
  "boot m base d =
     (let cfg = read_config (m_getenv m);
          h0 = (nothing_held (prologue (m_kernel m) (m_getenv m) (m_os m)))\<lparr>h_libcuda := first_opening (m_dl m) libcuda_paths \<noteq> None\<rparr>
      in if \<not> load_libcuda (m_dl m) then (cfg, Inl E_Libcuda, h0)
         else let cs = load_libcompress (m_getenv m) (m_dl m) codec_boot; h1 = h0\<lparr>h_libcomp := (g_codec cs \<noteq> CODEC_NONE)\<rparr>
              in if \<not> cuInit_retry (cuInit_ok m) 0 then (cfg, Inl E_CuInit, h1)
                 else if \<not> cuDeviceGet_ok m then (cfg, Inl E_Device, h1)
                 else if \<not> cuCtxCreate_ok m then (cfg, Inl E_Context, h1)
                 else (cfg, boot_vram m base d cs cfg (h1\<lparr>h_ctx := True\<rparr>)))"

text \<open>The labels: the first four errors jump to out, which releases nothing, the others to out_cuda.\<close>

datatype teardown = Close_Listen | Unlink_Socket | Store_Release release | Mem_Free | Ctx_Destroy | Dlclose_Cuda | Dlclose_Comp

definition out_cuda :: "'d env \<Rightarrow> held \<Rightarrow> teardown list" where
  "out_cuda en h =
     (if h_listen h then [Close_Listen] else []) @ [Unlink_Socket] @ map Store_Release (fst (store_fini en (h_store h))) @
     (if h_vram h then [Mem_Free] else []) @ (if h_ctx h then [Ctx_Destroy] else []) @
     (if h_libcuda h then [Dlclose_Cuda] else []) @ (if h_libcomp h then [Dlclose_Comp] else [])"

section \<open>Properties\<close>

lemma clamp_nat: "1 \<le> hi \<Longrightarrow> 1 \<le> nat (clamp 1 hi v) \<and> nat (clamp 1 hi v) \<le> nat hi"
  by (auto simp: clamp_def Let_def)

lemma read_config_bounds:
  "1 \<le> c_threads (read_config g)" "c_threads (read_config g) \<le> 64" "1 \<le> c_depth (read_config g)" "c_depth (read_config g) \<le> 256"
  using clamp_nat [of NBD_THREADS_MAX] clamp_nat [of BATCH_DEPTH_MAX]
  by (simp_all add: read_config_def NBD_THREADS_MAX_def BATCH_DEPTH_MAX_def NBD_THREADS_DEFAULT_def BATCH_DEPTH_DEFAULT_def split: option.split)

lemma vram_bytes_mib: "vram_bytes mb = u64 (mb * 2 ^ 20)"
proof -
  have "(2::nat) ^ 20 dvd u64 (mb * 2 ^ 20)" unfolding u64_def by (rule dvd_mod) (simp_all add: le_imp_power_dvd)
  then have "SIZE_ALIGN dvd u64 (mb * 2 ^ 20)" by (rule dvd_trans [rotated]) (simp add: SIZE_ALIGN_def)
  then show ?thesis by (simp add: vram_bytes_def)
qed

lemma ex_nat_split: "(\<exists>k. P k) \<longleftrightarrow> P 0 \<or> (\<exists>k. P (Suc k))"
  by (rule iffI) (auto, metis nat.exhaust)

lemma back_off_iff:
  "back_off alloc i mb = Some (p, sz) \<longleftrightarrow>
     (\<exists>k. 1024 + 512 * k \<le> mb \<and> alloc (i + k) (vram_bytes (mb - 512 * k)) = Some p \<and> sz = vram_bytes (mb - 512 * k) \<and>
        (\<forall>j < k. alloc (i + j) (vram_bytes (mb - 512 * j)) = None))"
proof (induction alloc i mb rule: back_off.induct)
  case (1 alloc i mb)
  let ?P = "\<lambda>i mb k. 1024 + 512 * k \<le> mb \<and> alloc (i + k) (vram_bytes (mb - 512 * k)) = Some p \<and> sz = vram_bytes (mb - 512 * k) \<and>
        (\<forall>j < k. alloc (i + j) (vram_bytes (mb - 512 * j)) = None)"
  have split: "(\<exists>k. ?P i mb k) \<longleftrightarrow> ?P i mb 0 \<or> (\<exists>k. ?P i mb (Suc k))" by (rule ex_nat_split)
  show ?case
  proof (cases "mb < 1024 \<or> alloc i (vram_bytes mb) \<noteq> None")
    case True
    have "\<not> ?P i mb (Suc k)" for k using True by (auto dest: spec [of _ 0])
    with True split show ?thesis by (subst back_off.simps) (auto split: option.split)
  next
    case False
    moreover have "1536 + k * 512 \<le> mb \<longleftrightarrow> 1024 + k * 512 \<le> mb - 512" for k by arith
    ultimately have "?P i mb (Suc k) \<longleftrightarrow> ?P (Suc i) (mb - 512) k" for k by (simp add: All_less_Suc2 algebra_simps)
    with False split 1 show ?thesis by (subst back_off.simps) auto
  qed
qed

lemma disk_bytes_some:
  assumes "disk_bytes g c vram = Some dsz" "vram < 2 ^ 63"
  shows "dsz mod CBLK_SIZE = 0" "CBLK_SIZE \<le> dsz" "dsz + CBLK_SIZE \<le> 2 ^ 64" "c = CODEC_NONE \<longrightarrow> dsz \<le> vram"
proof -
  define d0 where "d0 = (case g ''VRAM_DISK_SIZE_MB'' of None \<Rightarrow> u64 (vram * 2)
    | Some v \<Rightarrow> if v = [] then u64 (vram * 2) else u64 (atol_u64 v * (1024 * 1024)))"
  define d1 where "d1 = (if c = CODEC_NONE \<and> d0 > vram then vram else d0)"
  have d: "dsz = d1 div CBLK_SIZE * CBLK_SIZE" "\<not> d1 div CBLK_SIZE * CBLK_SIZE < CBLK_SIZE"
    using assms(1) by (simp_all add: disk_bytes_def d0_def [symmetric] d1_def [symmetric] Let_def split: if_splits)
  have "d0 < 2 ^ 64" by (simp add: d0_def u64_def split: option.split)
  then have d1: "d1 < 2 ^ 64" using assms(2) by (simp add: d1_def)
  then have "d1 div CBLK_SIZE < 2 ^ 52" by (simp add: less_mult_imp_div_less)
  then have "(d1 div CBLK_SIZE + 1) * CBLK_SIZE \<le> 2 ^ 52 * CBLK_SIZE" by (intro mult_le_mono1) simp
  then have "dsz + CBLK_SIZE \<le> 2 ^ 64" using d(1) by simp
  moreover have "d1 div CBLK_SIZE * CBLK_SIZE \<le> d1" by simp
  then have "c = CODEC_NONE \<longrightarrow> dsz \<le> vram" using d(1) by (auto simp: d1_def)
  ultimately show "dsz mod CBLK_SIZE = 0" "CBLK_SIZE \<le> dsz" "dsz + CBLK_SIZE \<le> 2 ^ 64" "c = CODEC_NONE \<longrightarrow> dsz \<le> vram"
    using d by simp_all
qed

lemma boot_env_fields [simp]:
  "en_codec (boot_env base cs ptr vram dsz depth) = cs" "g_vram_ptr (boot_env base cs ptr vram dsz depth) = ptr"
  "g_vram_size (boot_env base cs ptr vram dsz depth) = vram" "g_disk_size (boot_env base cs ptr vram dsz depth) = dsz"
  "g_batch_depth (boot_env base cs ptr vram dsz depth) = depth" "en_ext_shift (boot_env base cs ptr vram dsz depth) = en_ext_shift base"
  "en_lib (boot_env base cs ptr vram dsz depth) = en_lib base" "en_cuda (boot_env base cs ptr vram dsz depth) = en_cuda base"
  "others (boot_env base cs ptr vram dsz depth) = others base" "g_nblocks (boot_env base cs ptr vram dsz depth) = dsz div CBLK_SIZE"
  by (simp_all add: boot_env_def g_nblocks_def)

text \<open>What a successful start went through.\<close>

lemma boot_successE:
  assumes "boot m base d = (cfg, Inr (en, w), h)"
  obtains ptr vram dsz cs ptrs where "cfg = read_config (m_getenv m)" "cs = load_libcompress (m_getenv m) (m_dl m) codec_boot"
    "back_off (m_cuMemAlloc m) 0 (setup_mb (m_getenv m)) = Some (ptr, vram)" "ptr \<noteq> 0" "vram div ALLOC_GRAIN < 2 ^ 30"
    "disk_bytes (m_getenv m) (g_codec cs) vram = Some dsz" "en = boot_env base cs ptr vram dsz (c_depth cfg)"
    "store_init en (m_host m) d = (ptrs, Some w)"
    "open_socket m (c_threads cfg) \<lparr>h_listen = False, h_store = ptrs, h_vram = True, h_ctx = True, h_libcuda = True,
       h_libcomp = (g_codec cs \<noteq> CODEC_NONE), h_os = prologue (m_kernel m) (m_getenv m) (m_os m)\<rparr> = (None, h)"
proof -
  define cs where "cs = load_libcompress (m_getenv m) (m_dl m) codec_boot"
  have lib: "load_libcuda (m_dl m)" using assms by (auto simp: boot_def Let_def split: if_splits)
  then have fo: "first_opening (m_dl m) libcuda_paths \<noteq> None" by (auto simp: load_libcuda_def split: option.splits)
  define h0 where "h0 = (nothing_held (prologue (m_kernel m) (m_getenv m) (m_os m)))\<lparr>h_libcuda := True, h_libcomp := (g_codec cs \<noteq> CODEC_NONE), h_ctx := True\<rparr>"
  have b: "cfg = read_config (m_getenv m)" "boot_vram m base d cs cfg h0 = (Inr (en, w), h)"
    using assms lib fo by (auto simp: boot_def Let_def cs_def [symmetric] h0_def split: if_splits)
  obtain ptr vram where v: "back_off (m_cuMemAlloc m) 0 (setup_mb (m_getenv m)) = Some (ptr, vram)" "ptr \<noteq> 0"
      "boot_store m base d cs cfg ptr vram (h0\<lparr>h_vram := True\<rparr>) = (Inr (en, w), h)"
    using b(2) by (auto simp: boot_vram_def split: option.splits prod.splits if_splits)
  obtain dsz where z: "vram div ALLOC_GRAIN < 2 ^ 30" "disk_bytes (m_getenv m) (g_codec cs) vram = Some dsz"
    using v(3) by (auto simp: boot_store_def ENT_GRAIN_BITS_def split: option.splits if_splits)
  let ?en = "boot_env base cs ptr vram dsz (c_depth cfg)"
  obtain ptrs where i: "store_init ?en (m_host m) d = (ptrs, Some w)" "en = ?en" "open_socket m (c_threads cfg) (h0\<lparr>h_vram := True, h_store := ptrs\<rparr>) = (None, h)"
    using v(3) z by (auto simp: boot_store_def ENT_GRAIN_BITS_def Let_def split: option.splits prod.splits if_splits)
  then show thesis using that [OF b(1) cs_def v(1,2) z i(2)] by (simp add: h0_def nothing_held_def)
qed

lemma boot_facts:
  assumes "boot m base d = (cfg, Inr (en, w), h)" "12 \<le> en_ext_shift base" "en_ext_shift base \<le> 20"
  shows "store_sizes en \<and> whole_blocks en \<and> 0 < g_nblocks en \<and> g_disk_size en + CBLK_SIZE \<le> 2 ^ 64 \<and>
    (g_codec (en_codec en) = CODEC_NONE \<longrightarrow> g_disk_size en \<le> g_vram_size en) \<and>
    g_batch_depth en \<in> {1..256} \<and> c_threads cfg \<in> {1..64} \<and>
    store_inv en mem {} w \<and> (\<forall>x < g_disk_size en. disk en mem w x = 0)"
proof -
  obtain ptr vram dsz cs ptrs where b: "cfg = read_config (m_getenv m)" "vram div ALLOC_GRAIN < 2 ^ 30"
      "disk_bytes (m_getenv m) (g_codec cs) vram = Some dsz" "en = boot_env base cs ptr vram dsz (c_depth cfg)"
      "store_init en (m_host m) d = (ptrs, Some w)" by (rule boot_successE [OF assms(1)])
  have "vram < 2 ^ 63" using b(2) by (simp add: ALLOC_GRAIN_def)
  note z = disk_bytes_some [OF b(3) this]
  have "heap_init (en_ext_shift base) vram \<noteq> None" using b(4,5) by (auto simp: store_init_def Let_def split: if_splits option.splits)
  then have "0 < vram div 2 ^ en_ext_shift base" by (auto simp: heap_init_def Let_def u32_def split: if_splits intro!: Nat.gr0I)
  then have "2 ^ en_ext_shift base \<le> vram" by (simp add: div_greater_zero_iff)
  then have sizes: "store_sizes en" using assms(2,3) b(2,4) by (simp add: store_sizes_def)
  have n: "g_nblocks en * CBLK_SIZE = dsz" "0 < g_nblocks en" using z(1,2) b(4) by (auto simp: div_greater_zero_iff mod_0_imp_dvd)
  have fresh: "store_inv en mem {} w \<and> disk en mem w x = 0" if "x < dsz" for x
    by (rule store_init_fresh [OF sizes b(5)]) (use n that in simp)
  have "store_inv en mem {} w" using fresh [of 0] z(2) by (simp add: CBLK_SIZE_def)
  with fresh sizes n z b(1,4) read_config_bounds [of "m_getenv m"] show ?thesis by (simp add: whole_blocks_def)
qed

text \<open>
  C11. When the daemon reaches the point where it serves, its sizes and settings are the ones every other
  property relies on: the block store is set up within what the index can address, the device is a positive
  number of whole blocks and small enough for 64-bit byte arithmetic, without a codec it is no larger
  than the VRAM, the batch depth and the number of threads are within their arrays, and every byte of the device reads as zero.
\<close>

theorem boot_establishes:
  assumes "boot m base d = (cfg, Inr (en, w), h)" "12 \<le> en_ext_shift base" "en_ext_shift base \<le> 20"
  shows "store_sizes en \<and> whole_blocks en \<and> 0 < g_nblocks en \<and> g_disk_size en + CBLK_SIZE \<le> 2 ^ 64 \<and>
    (g_codec (en_codec en) = CODEC_NONE \<longrightarrow> g_disk_size en \<le> g_vram_size en) \<and>
    g_batch_depth en \<in> {1..256} \<and> c_threads cfg \<in> {1..64} \<and>
    store_inv en mem {} w \<and> (\<forall>x < g_disk_size en. disk en mem w x = 0)"
  by (rule boot_facts [OF assms])

text \<open>The listening socket, with the name its address stands for.\<close>

lemma open_socket_named:
  fixes m h
  defines "k \<equiv> m_kernel m" and "p \<equiv> sock_path (m_getenv m)"
  defines "s1 \<equiv> unlink k p (h_os h)"
  defines "s3 \<equiv> chmod k p 0x180 (s1\<lparr>os_files := (os_files s1)(take 107 p \<mapsto> new_socket s1)\<rparr>)"
  assumes p: "NUL \<notin> set p" "p \<noteq> []"
  shows "open_socket m n h =
     (if \<not> socket_ok k then (Some E_Socket, h\<lparr>h_os := s1\<rparr>)
      else if \<not> bind_ok k \<or> os_files s1 (take 107 p) \<noteq> None then (Some E_Bind, h\<lparr>h_listen := True, h_os := s1\<rparr>)
      else if \<not> listen_ok k then (Some E_Listen, h\<lparr>h_listen := True, h_os := s3\<rparr>)
      else (None, h\<lparr>h_listen := True, h_os := sd_notify k (m_getenv m) (set_listening (n + 1) s3)\<rparr>))"
  using sun_path_name [OF p]
  by (simp add: open_socket_def bind_def Let_def s3_def s1_def flip: k_def p_def)

lemma sock_path_default: "NUL \<notin> set SOCK_PATH" "SOCK_PATH \<noteq> []" "length SOCK_PATH < SUN_PATH_LEN"
  by (simp_all add: SOCK_PATH_def NUL_def SUN_PATH_LEN_def)

lemma sock_path_nonempty: "sock_path g \<noteq> []"
  using sock_path_default(2) by (simp add: sock_path_def split: option.split)

text \<open>A machine with no environment variable set whose calls all succeed, with a stale socket of an earlier run.\<close>

definition demo_kernel :: kernel where
  "demo_kernel = \<lparr>mlockall_ok = True, prctl_ok = True, may_unlink = (\<lambda>_. True), may_chmod = (\<lambda>_. True),
     socket_ok = True, bind_ok = True, listen_ok = True, dgram_ok = True\<rparr>"

definition demo_os :: os where
  "demo_os = \<lparr>os_files = [''/run'' \<mapsto> \<lparr>n_kind = Dir, n_mode = 0x1ED\<rparr>, SOCK_PATH \<mapsto> \<lparr>n_kind = Sock, n_mode = 0x180\<rparr>], os_umask = 0x12,
     os_action = (\<lambda>_. SIG_DFL), os_locked = False, os_io_flusher = False, os_line_buffered = False, os_backlog = None,
     os_nonblocking = False, os_sent = []\<rparr>"

definition demo_machine :: machine where
  "demo_machine = \<lparr>m_getenv = (\<lambda>_. None), m_dl = (\<lambda>_. Some (\<lambda>_. True)), cuInit_ok = (\<lambda>_. True), cuDeviceGet_ok = True,
     cuCtxCreate_ok = True, m_cuMemAlloc = (\<lambda>i sz. if sz \<le> 4294967296 then Some 65536 else None), m_host = demo_host,
     m_kernel = demo_kernel, m_os = demo_os\<rparr>"

definition demo_base :: "(nat \<Rightarrow> byte) env" where
  "demo_base = demo\<lparr>en_ext_shift := 20\<rparr>"

text \<open>The same machine with a name for the socket in its environment.\<close>

definition demo_named :: "string option \<Rightarrow> machine" where
  "demo_named name = demo_machine\<lparr>m_getenv := (\<lambda>v. if v = ''VRAM_SOCK_PATH'' then name else None)\<rparr>"

lemma demo_named_None: "demo_named None = demo_machine"
  by (simp add: demo_named_def demo_machine_def)

lemma demo_opens:
  assumes "NUL \<notin> set p" "p = sock_path (m_getenv (demo_named name))" "take 107 p \<noteq> ''/run''" "take 107 p = SOCK_PATH \<longrightarrow> p = SOCK_PATH"
    and h: "h_os h = prologue (m_kernel (demo_named name)) (m_getenv (demo_named name)) (m_os (demo_named name))"
  shows "fst (open_socket (demo_named name) n h) = None"
proof -
  have m: "m_kernel (demo_named name) = demo_kernel" "m_os (demo_named name) = demo_os" by (simp_all add: demo_named_def demo_machine_def)
  have "os_files (unlink demo_kernel p (prologue demo_kernel g demo_os)) (take 107 p) = None" for g
    using assms(3,4) by (auto simp: unlink_def prologue_def demo_os_def demo_kernel_def)
  then show ?thesis
    using open_socket_named [of "demo_named name" n h, folded assms(2), OF assms(1) sock_path_nonempty [of "m_getenv (demo_named name)", folded assms(2)]] h m
    by (simp add: demo_kernel_def)
qed

lemma demo_back_off: "back_off (m_cuMemAlloc demo_machine) 0 7168 = Some (65536, 4294967296)"
  unfolding back_off_iff by (rule exI [of _ 6]) (auto simp: demo_machine_def vram_bytes_mib u64_def)

text \<open>
  C33. The back-off finds the largest of the sizes mb, mb - 512, mb - 1024, ... not below 1024 MiB that the
  driver grants, asking once for each and stopping at the first success; it gives up exactly when the driver grants none of them.
\<close>

theorem back_off_largest:
  "back_off alloc i mb = Some (p, sz) \<longleftrightarrow>
     (\<exists>k. 1024 + 512 * k \<le> mb \<and> alloc (i + k) (vram_bytes (mb - 512 * k)) = Some p \<and> sz = vram_bytes (mb - 512 * k) \<and>
        (\<forall>j < k. alloc (i + j) (vram_bytes (mb - 512 * j)) = None))"
  by (rule back_off_iff)

theorem back_off_largest_witness:
  "\<exists>k. 1024 + 512 * k \<le> 7168 \<and> m_cuMemAlloc demo_machine k (vram_bytes (7168 - 512 * k)) = Some 65536 \<and> 4294967296 = vram_bytes (7168 - 512 * k)"
  using iffD1 [OF back_off_largest [of "m_cuMemAlloc demo_machine" 0 7168 65536 4294967296] demo_back_off] by (auto simp del: One_nat_def)

lemma demo_named_boots:
  assumes p: "NUL \<notin> set p" "p = sock_path (m_getenv (demo_named name))" "take 107 p \<noteq> ''/run''" "take 107 p = SOCK_PATH \<longrightarrow> p = SOCK_PATH"
  obtains w h where "boot (demo_named name) demo_base (\<lambda>_. 0) =
    (read_config (\<lambda>_. None), Inr (boot_env demo_base \<lparr>g_codec = CODEC_ZSTD, g_zstd_level = 1, g_static_ctx = True\<rparr> 65536 4294967296 8589934592 32, w), h)"
proof -
  let ?cs = "\<lparr>g_codec = CODEC_ZSTD, g_zstd_level = 1, g_static_ctx = True\<rparr>" and ?m = "demo_named name"
  let ?en = "boot_env demo_base ?cs 65536 4294967296 8589934592 32"
  have m: "m_dl ?m = (\<lambda>_. Some (\<lambda>_. True))" "m_host ?m = demo_host" "m_cuMemAlloc ?m = m_cuMemAlloc demo_machine"
    "cuInit_retry (cuInit_ok ?m) 0" "cuDeviceGet_ok ?m" "cuCtxCreate_ok ?m" "load_libcuda (\<lambda>_. Some (\<lambda>_. True))"
    by (simp_all add: demo_named_def demo_machine_def cuInit_retry.simps load_libcuda_def libcuda_paths_def libcuda_symbols_def)
  have g: "m_getenv ?m v = None" if "v \<noteq> ''VRAM_SOCK_PATH''" for v using that by (simp add: demo_named_def)
  have env: "read_config (m_getenv ?m) = read_config (\<lambda>_. None)" "setup_mb (m_getenv ?m) = 7168"
    "disk_bytes (m_getenv ?m) CODEC_ZSTD 4294967296 = Some 8589934592" "load_libcompress (m_getenv ?m) (\<lambda>_. Some (\<lambda>_. True)) codec_boot = ?cs"
    by (simp_all add: g read_config_def setup_mb_def DEFAULT_SIZE_MB_def disk_bytes_def u64_def CBLK_SHIFT_def
        load_libcompress_def codec_boot_def try_zstd_def zstd_symbols_def zstd_static_symbols_def Let_def)
  have sz: "store_sizes ?en" by (simp add: store_sizes_def demo_base_def ALLOC_GRAIN_def)
  have ok: "mmap_ok demo_host (idx_sz ?en)" "calloc_ext_ok demo_host" "calloc_bm_ok demo_host"
    by (simp_all add: demo_host_def idx_sz_def u64_def)
  obtain hp where i: "store_init ?en demo_host (\<lambda>_. 0) = (\<lparr>p_index = Some (idx_sz ?en), p_ext = True, p_extbm = True\<rparr>, Some (world_boot ?en hp (\<lambda>_. 0)))"
    by (rule store_init_success [OF sz ok])
  have c: "c_depth (read_config (\<lambda>_. None)) = 32" by (simp add: read_config_def BATCH_DEPTH_DEFAULT_def)
  have "\<exists>h. boot ?m demo_base (\<lambda>_. 0) = (read_config (\<lambda>_. None), Inr (?en, world_boot ?en hp (\<lambda>_. 0)), h)"
    by (simp add: boot_def boot_vram_def boot_store_def m env c i demo_back_off demo_opens [OF p] nothing_held_def case_prod_unfold Let_def
        ALLOC_GRAIN_def ENT_GRAIN_BITS_def)
  then show thesis using that by blast
qed

lemma demo_boots:
  obtains w h where "boot demo_machine demo_base (\<lambda>_. 0) =
    (read_config (\<lambda>_. None), Inr (boot_env demo_base \<lparr>g_codec = CODEC_ZSTD, g_zstd_level = 1, g_static_ctx = True\<rparr> 65536 4294967296 8589934592 32, w), h)"
proof -
  have "SOCK_PATH = sock_path (m_getenv (demo_named None))" by (simp add: sock_path_def demo_named_def)
  moreover have "take 107 SOCK_PATH \<noteq> ''/run''" by (simp add: SOCK_PATH_def)
  ultimately show thesis using that demo_named_boots [of SOCK_PATH None] sock_path_default(1) by (auto simp: demo_named_None)
qed

theorem boot_establishes_witness:
  "\<exists>cfg en w h. boot demo_machine demo_base (\<lambda>_. 0) = (cfg, Inr (en, w), h) \<and> g_nblocks en = 2097152 \<and> store_inv en (\<lambda>m. m) {} w \<and> disk en (\<lambda>m. m) w 5000 = 0"
proof -
  obtain w h where b: "boot demo_machine demo_base (\<lambda>_. 0) =
    (read_config (\<lambda>_. None), Inr (boot_env demo_base \<lparr>g_codec = CODEC_ZSTD, g_zstd_level = 1, g_static_ctx = True\<rparr> 65536 4294967296 8589934592 32, w), h)"
    by (rule demo_boots)
  let ?en = "boot_env demo_base \<lparr>g_codec = CODEC_ZSTD, g_zstd_level = 1, g_static_ctx = True\<rparr> 65536 4294967296 8589934592 32"
  from boot_establishes [OF b, of "\<lambda>m. m"] have e: "store_inv ?en (\<lambda>m. m) {} w" "\<forall>x < 8589934592. disk ?en (\<lambda>m. m) w x = 0"
    by (simp_all add: demo_base_def)
  show ?thesis by (intro exI conjI, rule b) (use e in simp_all)
qed

section \<open>Failing starts\<close>

definition before_context :: "boot_error set" where
  "before_context = {E_Libcuda, E_CuInit, E_Device, E_Context}"

lemma store_init_ptrs:
  assumes "store_init en hm d = (ptrs, r)"
  shows "p_index ptrs = None \<or> p_index ptrs = Some (idx_sz en)" "r \<noteq> None \<Longrightarrow> p_index ptrs \<noteq> None \<and> p_ext ptrs \<and> p_extbm ptrs"
  using assms by (auto simp: store_init_def no_ptrs_def Let_def split: if_splits option.splits)

lemma boot_store_held:
  assumes "boot_store m base d cs cfg ptr vram h = (Inl e, h')" "\<not> h_listen h" "h_store h = no_ptrs"
  shows "e \<notin> before_context \<and> e \<noteq> E_Alloc \<and> h_vram h' = h_vram h \<and> h_ctx h' = h_ctx h \<and> (h_listen h' \<longleftrightarrow> e \<in> {E_Bind, E_Listen}) \<and>
    (p_index (h_store h') \<noteq> None \<longrightarrow> e \<in> {E_Store, E_Socket, E_Bind, E_Listen})"
proof (cases "vram div ALLOC_GRAIN \<ge> 2 ^ ENT_GRAIN_BITS \<or> disk_bytes (m_getenv m) (g_codec cs) vram = None")
  case True
  then show ?thesis using assms by (auto simp: boot_store_def before_context_def no_ptrs_def split: option.splits if_splits)
next
  case False
  then obtain dsz where z: "\<not> 2 ^ ENT_GRAIN_BITS \<le> vram div ALLOC_GRAIN" "disk_bytes (m_getenv m) (g_codec cs) vram = Some dsz" by auto
  obtain ptrs r where i: "store_init (boot_env base cs ptr vram dsz (c_depth cfg)) (m_host m) d = (ptrs, r)" by fastforce
  show ?thesis
  proof (cases r)
    case None
    then show ?thesis using assms z i by (auto simp: boot_store_def before_context_def)
  next
    case (Some w)
    then have "open_socket m (c_threads cfg) (h\<lparr>h_store := ptrs\<rparr>) = (Some e, h')"
      using assms(1) z i by (auto simp: boot_store_def split: option.splits prod.splits)
    then show ?thesis using assms(2) by (auto simp: open_socket_def before_context_def Let_def split: if_splits option.splits)
  qed
qed

lemma boot_vram_held:
  assumes "boot_vram m base d cs cfg h = (Inl e, h')" "\<not> h_listen h" "h_store h = no_ptrs" "\<not> h_vram h" "h_ctx h"
  shows "e \<notin> before_context \<and> h_ctx h' \<and> (h_vram h' \<longleftrightarrow> e \<noteq> E_Alloc) \<and> (h_listen h' \<longleftrightarrow> e \<in> {E_Bind, E_Listen}) \<and>
    (p_index (h_store h') \<noteq> None \<longrightarrow> e \<in> {E_Store, E_Socket, E_Bind, E_Listen})"
proof (cases "\<exists>ptr vram. back_off (m_cuMemAlloc m) 0 (setup_mb (m_getenv m)) = Some (ptr, vram) \<and> ptr \<noteq> 0")
  case True
  then obtain ptr vram where v: "back_off (m_cuMemAlloc m) 0 (setup_mb (m_getenv m)) = Some (ptr, vram)" "ptr \<noteq> 0" by blast
  with assms(1) have "boot_store m base d cs cfg ptr vram (h\<lparr>h_vram := True\<rparr>) = (Inl e, h')" by (simp add: boot_vram_def)
  from boot_store_held [OF this] assms(2-5) show ?thesis by simp
next
  case False
  then show ?thesis using assms
    by (auto simp: boot_vram_def before_context_def no_ptrs_def split: option.splits prod.splits if_splits)
qed

lemma boot_failE:
  assumes "boot m base d = (cfg, Inl e, h)"
  obtains (early) "e \<in> before_context" "\<not> h_vram h" "\<not> h_ctx h" "\<not> h_listen h" "h_store h = no_ptrs"
  | (late) cs h0 where "boot_vram m base d cs cfg h0 = (Inl e, h)" "\<not> h_listen h0" "h_store h0 = no_ptrs" "\<not> h_vram h0" "h_ctx h0"
  using assms early late by (auto simp: boot_def Let_def before_context_def nothing_held_def split: if_splits)

section \<open>The kernel's state\<close>

text \<open>The names after main returned: all labels but out lead past the unlink.\<close>

definition exit_os :: "machine \<Rightarrow> boot_error option \<Rightarrow> held \<Rightarrow> os" where
  "exit_os m r h =
     (if r \<in> Some ` before_context then h_os h
      else unlink (m_kernel m) (sock_path (m_getenv m)) (if h_listen h then close_listen (h_os h) else h_os h))"

abbreviation boot_err :: "boot_error + 'a \<Rightarrow> boot_error option" where
  "boot_err r \<equiv> (case r of Inl e \<Rightarrow> Some e | Inr _ \<Rightarrow> None)"

text \<open>Either main stops before it touches a name, or all it did to the kernel's state is the prologue and @open_socket@.\<close>

lemma boot_store_os:
  assumes "boot_store m base d cs cfg ptr vram h = (r, h')"
  shows "(\<exists>e. r = Inl e \<and> e \<notin> {E_Socket, E_Bind, E_Listen} \<and> h_os h' = h_os h) \<or>
    (\<exists>h0. h_os h0 = h_os h \<and> open_socket m (c_threads cfg) h0 = (boot_err r, h'))"
proof (cases "vram div ALLOC_GRAIN \<ge> 2 ^ ENT_GRAIN_BITS \<or> disk_bytes (m_getenv m) (g_codec cs) vram = None")
  case True
  then show ?thesis using assms by (auto simp: boot_store_def split: option.splits if_splits)
next
  case False
  then obtain dsz where z: "\<not> 2 ^ ENT_GRAIN_BITS \<le> vram div ALLOC_GRAIN" "disk_bytes (m_getenv m) (g_codec cs) vram = Some dsz" by auto
  obtain ptrs q where i: "store_init (boot_env base cs ptr vram dsz (c_depth cfg)) (m_host m) d = (ptrs, q)" by fastforce
  obtain e h2 where o: "open_socket m (c_threads cfg) (h\<lparr>h_store := ptrs\<rparr>) = (e, h2)" by fastforce
  show ?thesis
  proof (cases q)
    case None
    then show ?thesis using assms z i by (auto simp: boot_store_def)
  next
    case (Some w)
    then have "h' = h2" "boot_err r = e"
      using assms z i o by (auto simp: boot_store_def split: option.splits)
    with o show ?thesis by (intro disjI2 exI [of _ "h\<lparr>h_store := ptrs\<rparr>"]) simp
  qed
qed

lemma boot_os:
  assumes "boot m base d = (cfg, r, h)"
  shows "(\<exists>e. r = Inl e \<and> e \<notin> {E_Socket, E_Bind, E_Listen} \<and> h_os h = prologue (m_kernel m) (m_getenv m) (m_os m)) \<or>
    (\<exists>h0. h_os h0 = prologue (m_kernel m) (m_getenv m) (m_os m) \<and>
       open_socket m (c_threads cfg) h0 = (boot_err r, h))"
proof -
  have "cfg = read_config (m_getenv m)" using assms by (auto simp: boot_def Let_def split: if_splits)
  with assms show ?thesis
    by (auto simp: boot_def boot_vram_def nothing_held_def Let_def dest!: boot_store_os split: if_splits option.splits prod.splits)
qed

lemma open_socket_files:
  fixes m h
  defines "k \<equiv> m_kernel m" and "p \<equiv> sock_path (m_getenv m)"
  assumes p: "NUL \<notin> set p" "length p < SUN_PATH_LEN" and o: "open_socket m n h = (e, h')"
  shows "q \<noteq> p \<Longrightarrow> os_files (h_os h') q = os_files (h_os h) q"
    "e = None \<Longrightarrow> os_files (h_os h') p = Some \<lparr>n_kind = Sock, n_mode = if may_chmod k p then 0x180 else 0x1FF AND NOT (os_umask (h_os h))\<rparr>"
    "e \<noteq> None \<Longrightarrow> os_files (h_os h') p = os_files (unlink k p (h_os h)) p \<or> e = Some E_Listen \<and> (\<exists>mo. os_files (h_os h') p = Some \<lparr>n_kind = Sock, n_mode = mo\<rparr>)"
proof -
  have t: "take 107 p = p" using p(2) by (simp add: SUN_PATH_LEN_def)
  note r = open_socket_named [of m n h, folded k_def p_def, OF p(1) sock_path_nonempty [of "m_getenv m", folded p_def], unfolded t o]
  show "q \<noteq> p \<Longrightarrow> os_files (h_os h') q = os_files (h_os h) q"
    "e = None \<Longrightarrow> os_files (h_os h') p = Some \<lparr>n_kind = Sock, n_mode = if may_chmod k p then 0x180 else 0x1FF AND NOT (os_umask (h_os h))\<rparr>"
    "e \<noteq> None \<Longrightarrow> os_files (h_os h') p = os_files (unlink k p (h_os h)) p \<or> e = Some E_Listen \<and> (\<exists>mo. os_files (h_os h') p = Some \<lparr>n_kind = Sock, n_mode = mo\<rparr>)"
    using r by (auto simp: chmod_def new_socket_def set_listening_def split: if_splits option.splits)
qed

text \<open>A name that fits its address: nothing else changes, and the name is gone when main has returned.\<close>

lemma exit_files:
  assumes b: "boot m base d = (cfg, r, h)" and p: "p = sock_path (m_getenv m)" "NUL \<notin> set p" "length p < SUN_PATH_LEN" "may_unlink (m_kernel m) p"
  shows "q \<noteq> p \<Longrightarrow> os_files (exit_os m (boot_err r) h) q = os_files (m_os m) q"
    "os_files (exit_os m (boot_err r) h) p = None \<or> boot_err r \<in> Some ` before_context \<or> (\<exists>nd. os_files (m_os m) p = Some nd \<and> n_kind nd = Dir)"
proof -
  define s where "s = prologue (m_kernel m) (m_getenv m) (m_os m)"
  have sf: "os_files s = os_files (m_os m)" by (simp add: s_def prologue_def)
  have ex: "os_files (exit_os m (boot_err r) h) = (if boot_err r \<in> Some ` before_context then os_files (h_os h) else os_files (unlink (m_kernel m) p (h_os h)))"
    by (auto simp: exit_os_def p(1) unlink_def close_listen_def split: option.split)
  have gone: "os_files (unlink (m_kernel m) p x) p = None \<or> (\<exists>nd. os_files x p = Some nd \<and> n_kind nd = Dir)" for x
    using p(4) by (auto simp: unlink_def split: option.split)
  from boot_os [OF b, folded s_def] have "(q \<noteq> p \<longrightarrow> os_files (h_os h) q = os_files s q) \<and>
      (os_files (h_os h) p = os_files s p \<or> os_files (h_os h) p = os_files (unlink (m_kernel m) p s) p \<or> (\<exists>nd. os_files (h_os h) p = Some nd \<and> n_kind nd = Sock))"
  proof
    assume "\<exists>h0. h_os h0 = s \<and> open_socket m (c_threads cfg) h0 = (boot_err r, h)"
    then obtain h0 e where o: "h_os h0 = s" "open_socket m (c_threads cfg) h0 = (e, h)" by blast
    from open_socket_files [OF p(2,3) [unfolded p(1)] o(2), folded p(1), unfolded o(1)] show ?thesis by (cases e) auto
  qed auto
  then show "q \<noteq> p \<Longrightarrow> os_files (exit_os m (boot_err r) h) q = os_files (m_os m) q"
    "os_files (exit_os m (boot_err r) h) p = None \<or> boot_err r \<in> Some ` before_context \<or> (\<exists>nd. os_files (m_os m) p = Some nd \<and> n_kind nd = Dir)"
    using gone [of "h_os h"] gone [of s] by (auto simp: ex sf)
qed

section \<open>Releases\<close>



section \<open>The listening socket\<close>

text \<open>
  C35. When the name of the socket fits its address and the kernel lets the daemon unlink and chmod it, then once the daemon serves, that name
  is a socket only its owner may use, no other name has changed, the socket does not block and has room for one connection per worker and one more; SIGTERM and
  SIGINT reach the handler, SIGPIPE is ignored so that a vanished client is an error of the call, the pages are locked unless that was
  refused or switched off; and after the exit the name is gone and the rest is as before the start.
\<close>

theorem endpoint_private:
  assumes b: "boot m base d = (cfg, Inr (en, w), h)" and p: "p = sock_path (m_getenv m)" "NUL \<notin> set p" "length p < SUN_PATH_LEN"
    and ok: "may_unlink (m_kernel m) p" "may_chmod (m_kernel m) p"
  shows "os_files (h_os h) = (os_files (m_os m))(p \<mapsto> \<lparr>n_kind = Sock, n_mode = 0x180\<rparr>) \<and>
    os_backlog (h_os h) = Some (c_threads cfg + 1) \<and> os_nonblocking (h_os h) \<and>
    os_action (h_os h) = (os_action (m_os m))(SIGTERM := Sig_Handler, SIGINT := Sig_Handler, SIGPIPE := SIG_IGN) \<and>
    (os_locked (h_os h) \<longleftrightarrow> os_locked (m_os m) \<or> m_getenv m ''VRAM_NO_MLOCK'' = None \<and> mlockall_ok (m_kernel m)) \<and>
    os_files (exit_os m None h) = (os_files (m_os m))(p := None)"
proof -
  define s where "s = prologue (m_kernel m) (m_getenv m) (m_os m)"
  from boot_os [OF b, folded s_def] obtain h0 where o: "h_os h0 = s" "open_socket m (c_threads cfg) h0 = (None, h)" by auto
  note f = open_socket_files [OF p(2,3) [unfolded p(1)] o(2), folded p(1), unfolded o(1)]
  have sf: "os_files s = os_files (m_os m)" by (simp add: s_def prologue_def)
  have files: "os_files (h_os h) = (os_files (m_os m))(p \<mapsto> \<lparr>n_kind = Sock, n_mode = 0x180\<rparr>)"
    using f(1,2) ok(2) by (auto simp: fun_eq_iff sf)
  have "os_files (exit_os m None h) = (os_files (m_os m))(p := None)"
    using ok(1) by (simp add: exit_os_def unlink_def close_listen_def files flip: p(1))
  moreover have "os_backlog (h_os h) = Some (c_threads cfg + 1) \<and> os_nonblocking (h_os h) \<and> os_action (h_os h) = os_action s \<and> os_locked (h_os h) = os_locked s"
    using o by (auto simp: open_socket_def set_listening_def chmod_def bind_def Let_def split: if_splits option.splits sockname.splits)
  ultimately show ?thesis using files by (simp add: s_def prologue_def)
qed

theorem endpoint_private_witness:
  "\<exists>cfg en w h. boot demo_machine demo_base (\<lambda>_. 0) = (cfg, Inr (en, w), h) \<and>
     os_files (h_os h) SOCK_PATH = Some \<lparr>n_kind = Sock, n_mode = 0x180\<rparr> \<and> os_action (h_os h) SIGPIPE = SIG_IGN \<and> os_locked (h_os h)"
proof -
  obtain w h where b: "boot demo_machine demo_base (\<lambda>_. 0) =
    (read_config (\<lambda>_. None), Inr (boot_env demo_base \<lparr>g_codec = CODEC_ZSTD, g_zstd_level = 1, g_static_ctx = True\<rparr> 65536 4294967296 8589934592 32, w), h)"
    by (rule demo_boots)
  have p: "SOCK_PATH = sock_path (m_getenv demo_machine)" by (simp add: demo_machine_def sock_path_def)
  from endpoint_private [OF b p sock_path_default(1,3)] have
    "os_files (h_os h) SOCK_PATH = Some \<lparr>n_kind = Sock, n_mode = 0x180\<rparr> \<and> os_action (h_os h) SIGPIPE = SIG_IGN \<and> os_locked (h_os h)"
    by (simp add: demo_machine_def demo_kernel_def)
  with b show ?thesis by blast
qed

text \<open>The same machine started again on another state of the kernel comes as far as the socket.\<close>

lemma boot_again:
  assumes b: "boot m base d = (cfg, Inr (en, w), h)"
  obtains h0 where "h_os h0 = prologue (m_kernel m) (m_getenv m) s"
    "boot (m\<lparr>m_os := s\<rparr>) base d = (cfg, case open_socket m (c_threads cfg) h0 of (Some e, h2) \<Rightarrow> (Inl e, h2) | (None, h2) \<Rightarrow> (Inr (en, w), h2))"
proof -
  have pre: "load_libcuda (m_dl m)" "cuInit_retry (cuInit_ok m) 0" "cuDeviceGet_ok m" "cuCtxCreate_ok m"
    using b by (auto simp: boot_def Let_def split: if_splits)
  then have fo: "first_opening (m_dl m) libcuda_paths \<noteq> None" by (auto simp: load_libcuda_def split: option.splits)
  obtain ptr vram dsz cs ptrs where f: "cfg = read_config (m_getenv m)" "cs = load_libcompress (m_getenv m) (m_dl m) codec_boot"
    "back_off (m_cuMemAlloc m) 0 (setup_mb (m_getenv m)) = Some (ptr, vram)" "ptr \<noteq> 0" "vram div ALLOC_GRAIN < 2 ^ 30"
    "disk_bytes (m_getenv m) (g_codec cs) vram = Some dsz" "en = boot_env base cs ptr vram dsz (c_depth cfg)"
    "store_init en (m_host m) d = (ptrs, Some w)" by (rule boot_successE [OF b])
  have o: "open_socket (m\<lparr>m_os := s\<rparr>) n h = open_socket m n h" for n h by (simp add: open_socket_def Let_def cong: if_cong option.case_cong)
  show thesis
    by (rule that [of "\<lparr>h_listen = False, h_store = ptrs, h_vram = True, h_ctx = True, h_libcuda = True, h_libcomp = (g_codec cs \<noteq> CODEC_NONE),
        h_os = prologue (m_kernel m) (m_getenv m) s\<rparr>"])
      (use pre fo f in \<open>simp_all add: boot_def boot_vram_def boot_store_def nothing_held_def o Let_def ENT_GRAIN_BITS_def split: prod.split option.split\<close>)
qed

text \<open>
  C36. A VRAM_SOCK_PATH of 108 bytes or more is cut to 107 for the address but used in full everywhere else. The socket then appears under a name nobody
  asked for with the permissions the umask leaves, because the chmod is aimed at the full name; it is still there after the exit, because so is the
  unlink; and the next start fails to bind.
\<close>

theorem long_path_exposed:
  assumes b: "boot m base d = (cfg, Inr (en, w), h)" and p: "p = sock_path (m_getenv m)" "NUL \<notin> set p" "SUN_PATH_LEN \<le> length p"
    and s': "s' = exit_os m None h"
  shows "take 107 p \<noteq> p \<and> os_files (h_os h) (take 107 p) = Some \<lparr>n_kind = Sock, n_mode = 0x1FF AND NOT (os_umask (m_os m))\<rparr> \<and>
    os_files s' (take 107 p) = os_files (h_os h) (take 107 p) \<and>
    fst (snd (boot (m\<lparr>m_os := s'\<rparr>) base d)) = Inl E_Bind"
proof -
  define s where "s = prologue (m_kernel m) (m_getenv m) (m_os m)"
  define q where "q = take 107 p"
  have "length q = 107" using p(3) by (simp add: SUN_PATH_LEN_def q_def)
  then have q: "q \<noteq> p" using p(3) by (auto simp: SUN_PATH_LEN_def)
  from boot_os [OF b, folded s_def] obtain h0 where o: "h_os h0 = s" "open_socket m (c_threads cfg) h0 = (None, h)" by auto
  note named = open_socket_named [of m _ _, folded p(1), OF p(2) sock_path_nonempty [of "m_getenv m", folded p(1)], folded q_def]
  from o named have granted: "socket_ok (m_kernel m)" by (auto split: if_splits)
  have f: "os_files (h_os h) q = Some \<lparr>n_kind = Sock, n_mode = 0x1FF AND NOT (os_umask (m_os m))\<rparr>"
    using o q named by (auto simp: chmod_def new_socket_def set_listening_def s_def prologue_def split: if_splits option.splits)
  have e: "os_files s' q = os_files (h_os h) q" using q by (simp add: s' exit_os_def close_listen_def flip: p(1))
  obtain h1 where h1: "h_os h1 = prologue (m_kernel m) (m_getenv m) s'"
      "boot (m\<lparr>m_os := s'\<rparr>) base d = (cfg, case open_socket m (c_threads cfg) h1 of (Some e, h2) \<Rightarrow> (Inl e, h2) | (None, h2) \<Rightarrow> (Inr (en, w), h2))"
    by (rule boot_again [OF b])
  have "os_files (unlink (m_kernel m) p (h_os h1)) q \<noteq> None" using q e f h1(1) by (simp add: prologue_def)
  then have "fst (open_socket m (c_threads cfg) h1) = Some E_Bind" using named granted by simp
  then have "fst (snd (boot (m\<lparr>m_os := s'\<rparr>) base d)) = Inl E_Bind" using h1(2) by (simp add: case_prod_unfold)
  with q f e show ?thesis unfolding q_def by blast
qed

theorem long_path_exposed_witness:
  "\<exists>cfg en w h. boot (demo_named (Some (replicate 120 CHR ''a''))) demo_base (\<lambda>_. 0) = (cfg, Inr (en, w), h) \<and>
     os_files (exit_os (demo_named (Some (replicate 120 CHR ''a''))) None h) (replicate 107 CHR ''a'') =
       Some \<lparr>n_kind = Sock, n_mode = 0x1FF AND NOT 0x12\<rparr>"
proof -
  let ?p = "replicate 120 CHR ''a''" let ?m = "demo_named (Some ?p)"
  have p: "NUL \<notin> set ?p" "?p = sock_path (m_getenv ?m)" "take 107 ?p = replicate 107 CHR ''a''" "SUN_PATH_LEN \<le> length ?p"
    by (simp_all add: NUL_def sock_path_def demo_named_def SUN_PATH_LEN_def)
  have "replicate 107 CHR ''a'' \<noteq> ''/run''" "replicate 107 CHR ''a'' \<noteq> SOCK_PATH" by (simp_all add: SOCK_PATH_def numeral_eq_Suc)
  then obtain w h where b: "boot ?m demo_base (\<lambda>_. 0) =
    (read_config (\<lambda>_. None), Inr (boot_env demo_base \<lparr>g_codec = CODEC_ZSTD, g_zstd_level = 1, g_static_ctx = True\<rparr> 65536 4294967296 8589934592 32, w), h)"
    using demo_named_boots [OF p(1,2)] p(3) by metis
  have "os_umask (m_os ?m) = 0x12" by (simp add: demo_named_def demo_machine_def demo_os_def)
  with long_path_exposed [OF b p(2,1,4) refl] b show ?thesis unfolding p(3) by auto
qed

end
