(* ===== verification/Test_Stub.thy ===== *)
theory Test_Stub
  imports Startup Worker_Setup
begin

text \<open>
  The stub driver src/test-harness/fakecuda.c, which backs the VRAM with host memory. The
  copies are in the theory @Cuda@; here are the other entry points, over a model of the C
  heap in which the allocator's choice of an address is given. With the stub the daemon
  cannot fail before it asks for the VRAM, and the memory it gets is zeroed.
\<close>

section \<open>The C heap\<close>

record cheap =
  c_blocks :: "nat \<rightharpoonup> nat"
  c_mem :: "nat \<Rightarrow> byte"

text \<open>@calloc@: the block at the address chosen, cleared, or NULL.\<close>

definition calloc :: "nat option \<Rightarrow> nat \<Rightarrow> cheap \<Rightarrow> nat \<times> cheap" where
  "calloc choice n m =
     (case choice of
        None \<Rightarrow> (0, m)
      | Some p \<Rightarrow> (p, m\<lparr>c_blocks := (c_blocks m)(p \<mapsto> n), c_mem := (\<lambda>x. if p \<le> x \<and> x < p + n then 0 else c_mem m x)\<rparr>))"

definition cfree :: "nat \<Rightarrow> cheap \<Rightarrow> cheap" where
  "cfree p m = (if p = 0 then m else m\<lparr>c_blocks := (c_blocks m)(p := None)\<rparr>)"

section \<open>The entry points\<close>

definition fake_cuInit :: "nat \<Rightarrow> int" where "fake_cuInit f = 0"
definition fake_cuDeviceGet :: "int \<Rightarrow> int \<times> int" where "fake_cuDeviceGet ordinal = (0, 0)"
definition fake_cuCtxCreate :: "nat \<Rightarrow> int \<Rightarrow> int \<times> nat" where "fake_cuCtxCreate f d = (0, 1)"
definition fake_cuCtxDestroy :: "nat \<Rightarrow> int" where "fake_cuCtxDestroy c = 0"
definition fake_cuCtxSetCurrent :: "nat \<Rightarrow> int" where "fake_cuCtxSetCurrent c = 0"

text \<open>The pointer is written only on success.\<close>

definition fake_cuMemAlloc :: "nat option \<Rightarrow> nat \<Rightarrow> cheap \<Rightarrow> int \<times> nat option \<times> cheap" where
  "fake_cuMemAlloc choice n m = (case calloc choice n m of (p, m1) \<Rightarrow> if p = 0 then (2, None, m1) else (0, Some p, m1))"

definition fake_cuMemFree :: "nat \<Rightarrow> cheap \<Rightarrow> int \<times> cheap" where "fake_cuMemFree p m = (0, cfree p m)"

definition fake_cuStreamCreate :: "nat \<Rightarrow> int \<times> nat" where "fake_cuStreamCreate f = (0, 2)"
definition fake_cuStreamDestroy :: "nat \<Rightarrow> int" where "fake_cuStreamDestroy s = 0"

text \<open>Here the pointer is written always, with NULL on failure.\<close>

definition fake_cuMemAllocHost :: "nat option \<Rightarrow> nat \<Rightarrow> cheap \<Rightarrow> int \<times> nat \<times> cheap" where
  "fake_cuMemAllocHost choice n m = (case calloc choice n m of (p, m1) \<Rightarrow> (if p \<noteq> 0 then 0 else 2, p, m1))"

definition fake_cuMemFreeHost :: "nat \<Rightarrow> cheap \<Rightarrow> int \<times> cheap" where "fake_cuMemFreeHost p m = (0, cfree p m)"

definition fake_cuGetErrorString :: "int \<Rightarrow> int \<times> string" where "fake_cuGetErrorString r = (0, ''fake'')"

text \<open>The names the stub exports.\<close>

definition fake_symbols :: "string list" where
  "fake_symbols =
     [''cuInit'', ''cuDeviceGet'', ''cuCtxCreate_v2'', ''cuCtxDestroy_v2'', ''cuCtxSetCurrent'', ''cuMemAlloc_v2'', ''cuMemFree_v2'',
      ''cuMemcpyHtoDAsync_v2'', ''cuMemcpyDtoHAsync_v2'', ''cuStreamCreate'', ''cuStreamDestroy_v2'', ''cuStreamSynchronize'',
      ''cuMemAllocHost_v2'', ''cuMemFreeHost'', ''cuGetErrorString'']"

section \<open>The daemon on the stub\<close>

text \<open>The machine main sees when the stub is the libcuda.so.1 it opens.\<close>

definition on_stub :: "(nat \<Rightarrow> nat \<Rightarrow> nat option) \<Rightarrow> cheap \<Rightarrow> machine \<Rightarrow> machine" where
  "on_stub choice m mc =
     mc\<lparr>m_dl := (m_dl mc)(''libcuda.so.1'' \<mapsto> (\<lambda>s. s \<in> set fake_symbols)),
        cuInit_ok := (\<lambda>_. fake_cuInit 0 = CUDA_SUCCESS), cuDeviceGet_ok := (fst (fake_cuDeviceGet 0) = CUDA_SUCCESS),
        cuCtxCreate_ok := (fst (fake_cuCtxCreate 0 0) = CUDA_SUCCESS),
        m_cuMemAlloc := (\<lambda>i n. case fake_cuMemAlloc (choice i n) n m of (r, p, _) \<Rightarrow> if r = CUDA_SUCCESS then p else None)\<rparr>"

text \<open>The stub provides every symbol, so loading it succeeds, and nothing fails before the allocation.\<close>

lemma stub_loads: "load_libcuda ((m_dl mc)(''libcuda.so.1'' \<mapsto> (\<lambda>s. s \<in> set fake_symbols)))"
  by (simp add: load_libcuda_def libcuda_paths_def libcuda_symbols_def fake_symbols_def)

lemma stub_boots:
  assumes "boot (on_stub choice m mc) base d = (cfg, Inl e, h)"
  shows "e \<notin> {E_Libcuda, E_CuInit, E_Device, E_Context}"
proof -
  let ?m = "on_stub choice m mc"
  have ok: "load_libcuda (m_dl ?m)" "cuInit_retry (cuInit_ok ?m) 0" "cuDeviceGet_ok ?m" "cuCtxCreate_ok ?m"
    using stub_loads [of mc] by (simp_all add: on_stub_def fake_cuInit_def fake_cuDeviceGet_def fake_cuCtxCreate_def CUDA_SUCCESS_def cuInit_retry.simps)
  then obtain cs cfg' h' where "boot_vram ?m base d cs cfg' h' = (Inl e, h)" using assms by (auto simp: boot_def Let_def)
  then show ?thesis by (auto simp: boot_vram_def boot_store_def open_socket_def Let_def split: option.splits prod.splits if_splits)
qed

lemma stub_memory_zeroed:
  assumes "fake_cuMemAlloc choice n m = (CUDA_SUCCESS, Some p, m1)" "p \<le> x" "x < p + n"
  shows "c_mem m1 x = 0" "c_blocks m1 p = Some n"
  using assms by (auto simp: fake_cuMemAlloc_def calloc_def CUDA_SUCCESS_def split: option.splits if_splits prod.splits)

text \<open>Freeing what was allocated restores the set of blocks.\<close>

lemma stub_free_alloc:
  assumes "fake_cuMemAlloc choice n m = (CUDA_SUCCESS, Some p, m1)" "c_blocks m p = None"
  shows "c_blocks (snd (fake_cuMemFree p m1)) = c_blocks m"
  using assms by (auto simp: fake_cuMemAlloc_def fake_cuMemFree_def cfree_def calloc_def CUDA_SUCCESS_def fun_upd_idem split: option.splits if_splits prod.splits)

text \<open>The pinned buffers of a worker: granted exactly when @calloc@ finds memory.\<close>

lemma stub_pinned:
  assumes "\<And>b n. alloc_host_ok host b n \<longleftrightarrow> fst (fake_cuMemAllocHost (choice b n) n m) = CUDA_SUCCESS" "\<And>b n. choice b n \<noteq> Some 0"
  shows "worker_alloc host b n True = (if choice b n = None then None else Some (True, n))"
proof -
  have "alloc_host_ok host b n \<longleftrightarrow> choice b n \<noteq> None"
    unfolding assms(1) using assms(2) [of b n] by (cases "choice b n") (auto simp: fake_cuMemAllocHost_def calloc_def CUDA_SUCCESS_def)
  then show ?thesis by (simp add: worker_alloc_def)
qed

end
