(* ===== verification/Spec2Isabelle.thy ===== *)
theory Spec2Isabelle
  imports Allocator_Types Store_Rival Report Lifecycle Test_Stub
begin

text \<open>
  Verification of nbd-vram, an NBD server that offers GPU memory as a compressed swap device.

  \<^bold>\<open>The program.\<close> The daemon (src/nbd-vram.c) takes a share of the VRAM through the CUDA driver, which it
  loads at run time, and exports it as a block device over a Unix socket. A block of 4096 bytes is
  compressed (zstd, lz4 or verbatim) and kept in a slot of the VRAM heap; an index of one 64-bit word
  per block says where. Several worker threads serve connections at the same time on the shared index
  and heap. A reporting thread prints statistics and warnings, and a SIGTERM must not end the daemon while
  a client, in practice the kernel's swap device, is attached. src/test-harness/fakecuda.c is a stub
  driver that backs the VRAM with host memory.

  \<^bold>\<open>Theories and source.\<close> In the order of the code, each with what its lemmas show.

  \<^item> @Nbd_Prelude@: integer widths with their wrap-around (@u32@, @u64@, @sub64@), error and command
    numbers, stateful maps over lists. Bounded counters and indices are natural numbers with the wrap written out;
    index entries, bitmap words and bytes are machine words.
  \<^item> @Block_Index@: @ent_make@, @ent_grain@, @ent_clen@, @ent_gen@ and the packing of a publish. The
    packing is lossless, and fewer than 2^21 publishes never reproduce an entry.
  \<^item> @Extent_Allocator@: the slab allocator (@lst_push@ to @slot_free@, @heap_committed@, the part of
    @store_init@ that builds the free list). @Allocator_Lists@ proves the linked lists,
    @Allocator_Invariant@ states the invariant, @Allocator_Refinement@ proves that the operations
    are insertion into and deletion from a finite map of reservations. @Slot_Heap@ states this as the
    locale @slot_heap@, interpreted by the allocator, and draws from it that reservations never overlap.
    @Allocator_Types@: every field stays a value of its C type in every reachable state.
  \<^item> @Codec@: choice of the codec, contexts, @comp_block@, @decomp_block@, the self-test. @Cuda@: loading
    of the driver, the driver's promises as the locales @cuda_device@ and @cuda_sync@, the stub's copies as their
    interpretation. @Test_Stub@: the stub's other entry points and the start of the daemon on it.
  \<^item> @Block_Store@: the block primitives, @do_blocks@, byte ranges and TRIM, over the record @world@ (heap, index,
    device, counters). The other workers run wherever the code touches shared state. @Store_Invariant@ proves what each atomic action keeps,
    @Store_Sharing@ lifts it to calls under the locale @shared_store@ (what a worker relies on of the others),
    @Store_Batch@ and @Store_Range@ prove the operations there. @Store_Image@ and @Store_Properties@ draw the
    contract for one worker: the store is a byte array. @Store_Rival@ interprets @shared_store@
    with any number of other workers that write into blocks or discard them at any moments, each such operation
    run to its end: no torn page, no page of another block, no lost write. @Store_Setup@: @store_init@ and @store_fini@.
  \<^item> @Nbd_Wire@: @recv_all@, @send_all@, @drain@, @recv_hdr_nb@ on a stream cut into arbitrary segments.
    @Nbd_Handshake@: option haggling, a refinement of an abstract conversation.
  \<^item> @Nbd_Server@: @handle_one@, @batch_admit@, @flush_batch@, @handle_client@. @Server_Batch@,
    @Server_Properties@ and @Server_Requests@: arrays never overflow, requests are answered once and in
    order, a batch acts like its successful writes in order. @Session@: a whole connection refines
    an abstract server on the bytes of the device.
  \<^item> @Store_Counters@: the counters never drift from the index, for any client and any failure of a copy.
    @Statistics@ and @Report@: the reporting thread, the figures it prints and the log line of refused writes.
  \<^item> @Worker_Setup@: @worker_init@ and @worker_fini@. @Endpoint@: the signal dispositions, the locking of the pages, the name
    and mode of the listening socket and the READY datagram, over a model of the kernel's state. @Startup@: @main@ up to the serving point and its
    release paths; it establishes what the other theories assume, and the socket is private while the
    daemon serves and gone after it. @Lifecycle@: @thread_worker@, @sig_handler@ and the end of @main@ as step relations with
    every access to a global a step of its own; invariants by rule induction over all interleavings.
  \<^item> This theory composes start, server and store.

  \<^bold>\<open>How state and errors correspond.\<close> A struct is a record with its field names, an errno is a number, a
  failed call is an option or a sum. The mutexes make @slot_alloc@ and @slot_free@ atomic; the
  stripe locks appear as the lock the other workers are told is held. A function that reads a socket takes and
  returns it, with its remaining input, the sizes of its short writes and its output.

  \<^bold>\<open>Termination.\<close> No definition has fuel. The loops over sockets end because a connection delivers finitely many
  bytes, the others by measures (blocks left, bytes left, attempts left); the retry loop of reads has the
  bound 4 of the code and then reads under the lock. The loops of the threads never end by themselves and are
  step relations.

  \<^bold>\<open>Hypotheses.\<close> libcuda, libzstd, liblz4 and the loader are parameters; what is assumed of them
  is their documented behaviour (@cuda_sync@: a successful copy transfers its range and a failed one touches nothing else;
  @codec_lib_ok@: what was compressed decompresses to itself). @faultless@ says that every copy is accepted; where it is
  not assumed EIO is covered. @quiet@ says that no other worker runs during an operation; @Store_Rival@
  covers the case that others do. @EXTENT_SHIFT@ is any value from 12 to 20.

  \<^bold>\<open>Not modelled.\<close> The text of log lines and the rounding of printf; @cuda_err@, which looks up a message; the aliases a name in the
  file system may have through links; threads that cannot be created; weak memory ordering below
  the atomics the code uses (an access to a global is one step); the other workers' operations interleaved with each other during one store operation;
  the shell installer, the systemd units and the Python harness, which are not part of the daemon.
\<close>

section \<open>The daemon from its start\<close>

text \<open>The connections one worker accepts one after the other, each served to its end.\<close>

fun serve_clients :: "'d env \<Rightarrow> srv_cfg \<Rightarrow> sock list \<Rightarrow> 'd srv \<Rightarrow> 'd srv" where
  "serve_clients en cf [] s = s"
| "serve_clients en cf (k # ks) s = serve_clients en cf ks (snd (handle_client en cf (s\<lparr>sv_sock := k\<rparr>)))"

lemma clients_keep_store:
  assumes "steady en mem" "store_inv en mem X (sv_world s)" "counted (sv_world s)"
  shows "(\<exists>X'. store_inv en mem X' (sv_world (serve_clients en cf ks s))) \<and> counted (sv_world (serve_clients en cf ks s))"
  using assms(2,3)
proof (induction ks arbitrary: s X)
  case (Cons k ks)
  from client_keeps_store [OF assms(1), of X "s\<lparr>sv_sock := k\<rparr>" cf] Cons show ?case by auto
qed auto

text \<open>A successful start leaves what the server assumes, given the promises of the driver and the codec.\<close>

lemma boot_steady:
  assumes "boot m base d = (cfg, Inr (en, w), h)" "12 \<le> en_ext_shift base" "en_ext_shift base \<le> 20" "quiet base" "codec_lib_ok (en_lib base)"
    and "cuda_sync (en_cuda base) mem (g_vram_ptr en) (g_vram_ptr en + g_vram_size en)" "g_vram_ptr en + g_vram_size en \<le> 2 ^ 64"
  shows "steady en mem" "store_inv en mem {} w" "counted w" "\<forall>x < g_disk_size en. disk en mem w x = 0"
proof -
  obtain ptr vram dsz cs ptrs where b: "en = boot_env base cs ptr vram dsz (c_depth cfg)" "store_init en (m_host m) d = (ptrs, Some w)"
    by (rule boot_successE [OF assms(1)])
  from boot_facts [OF assms(1-3), of mem]
  have f: "store_sizes en" "whole_blocks en" "g_disk_size en + CBLK_SIZE \<le> 2 ^ 64" "1 \<le> g_batch_depth en" "store_inv en mem {} w"
    "\<forall>x < g_disk_size en. disk en mem w x = 0" by auto
  show "store_inv en mem {} w" "\<forall>x < g_disk_size en. disk en mem w x = 0" by (fact f)+
  have "store_env en mem" "quiet en" using assms(4-7) f(3) b(1) by (simp_all add: store_env_def quiet_def)
  then show "steady en mem" using f by (simp add: steady_def)
  have "mmap_ok (m_host m) (idx_sz en)" "calloc_ext_ok (m_host m)" "calloc_bm_ok (m_host m)"
    using b(2) by (auto simp: store_init_def Let_def split: if_splits option.splits)
  then obtain hp where "w = world_boot en hp d" by (rule store_init_success [OF f(1), of "m_host m" d mem]) (use b(2) in auto)
  then show "counted w" by (simp add: fresh_counted)
qed


text \<open>The default configuration, with a client that disappears in the middle of the payload of its write and one that sends nonsense.\<close>

definition demo_cut :: sock where
  "demo_cut = \<lparr>so_in = [Bytes (take 84 (be 4 3 @ enc_opt (NBD_OPT_GO, [0, 0, 0, 0, 0, 0]) @ stream demo_client (demo_req NBD_CMD_DISC 0 0) []))],
     so_send = [], so_out = []\<rparr>"

definition demo_noise :: sock where
  "demo_noise = \<lparr>so_in = [Bytes [1, 2, 3], Pause, Bytes (replicate 40 255)], so_send = [1], so_out = []\<rparr>"


end
